(* ===== verification/Prelude.thy ===== *)
theory Prelude
  imports Main "HOL-Library.Word" "HOL-Library.Signed_Division"
begin

text \<open>
  Shared by every other theory: C integers at their width, the interleaving of threads,
  reachable states, and the three interfaces (locales) through which the concurrent
  components are verified: an invariant, mutual exclusion, and progress towards completion.
\<close>

section \<open>C integers\<close>

text \<open>
  An \<open>int\<close> of the source is an HOL \<open>int\<close> between \<open>INT_MIN\<close> and \<open>INT_MAX\<close>; \<open>wrap32\<close> is
  the two's complement wrap-around of the hardware (and of the GCC atomic built-ins, whose
  arithmetic is defined to wrap). \<open>wrapu32\<close> is the conversion to \<open>unsigned\<close>.
\<close>

abbreviation (input) INT_MAX :: int where
  "INT_MAX \<equiv> 2147483647"

abbreviation (input) INT_MIN :: int where
  "INT_MIN \<equiv> - 2147483648"

definition is_int32 :: "int \<Rightarrow> bool" where
  "is_int32 x \<longleftrightarrow> INT_MIN \<le> x \<and> x \<le> INT_MAX"

definition wrap32 :: "int \<Rightarrow> int" where
  "wrap32 x = (x + 2147483648) mod 4294967296 - 2147483648"

definition wrapu32 :: "int \<Rightarrow> int" where
  "wrapu32 x = x mod 4294967296"

named_theorems c_int \<open>facts on machine integers\<close>

lemma wrap32_id [c_int]: "INT_MIN \<le> x \<Longrightarrow> x \<le> INT_MAX \<Longrightarrow> wrap32 x = x"
  by (simp add: wrap32_def)

lemma wrap32_is_int32 [c_int]: "is_int32 (wrap32 x)"
  unfolding is_int32_def wrap32_def by simp

lemma wrap32_eq_iff: "wrap32 x = wrap32 y \<longleftrightarrow> 4294967296 dvd x - y"
  by (simp add: wrap32_def mod_eq_dvd_iff)

lemma wrap32_Suc_neq [c_int]: "wrap32 (x + 1) \<noteq> wrap32 x"
  by (simp add: wrap32_eq_iff)

lemma wrap32_wrap32_add [c_int]: "wrap32 (wrap32 x + y) = wrap32 (x + y)"
proof -
  have "wrap32 x + y + 2147483648 = (x + 2147483648) mod 4294967296 + y"
    by (simp add: wrap32_def)
  then have "(wrap32 x + y + 2147483648) mod 4294967296
      = ((x + 2147483648) mod 4294967296 + y) mod 4294967296"
    by (rule arg_cong)
  also have "\<dots> = (x + y + 2147483648) mod 4294967296"
    by (simp only: mod_add_left_eq) (simp add: algebra_simps)
  finally show ?thesis by (simp only: wrap32_def)
qed

lemma wrapu32_id [c_int]: "0 \<le> x \<Longrightarrow> x < 4294967296 \<Longrightarrow> wrapu32 x = x"
  by (simp add: wrapu32_def)

lemma wrapu32_neg:
  assumes "x < 0" and "INT_MIN \<le> x"
  shows "wrapu32 x = x + 4294967296"
proof -
  have "x mod 4294967296 = (x + 4294967296) mod 4294967296" by simp
  also have "\<dots> = x + 4294967296" using assms by (intro mod_pos_pos_trivial) auto
  finally show ?thesis by (simp add: wrapu32_def)
qed

lemma wrapu32_range: "0 \<le> wrapu32 x \<and> wrapu32 x < 4294967296"
  by (simp add: wrapu32_def)

lemma wrapu32_zero_iff:
  assumes "is_int32 x"
  shows "wrapu32 x = 0 \<longleftrightarrow> x = 0"
proof
  assume "wrapu32 x = 0"
  then have "4294967296 dvd x" unfolding wrapu32_def by (rule mod_0_imp_dvd)
  then show "x = 0" using assms dvd_imp_le_int [of x 4294967296] by (auto simp: is_int32_def)
qed (simp add: wrapu32_def)

section \<open>Blocks of memory\<close>

text \<open>
  The elements of the block that \<open>malloc(sz * k)\<close> returns: the product is computed in \<open>size_t\<close>, which
  has \<open>w\<close> bits, and wraps around; \<open>ok\<close> says which requests succeed, and the null pointer of a failed
  one has no element.
\<close>

definition mem_block :: "nat \<Rightarrow> (nat \<Rightarrow> bool) \<Rightarrow> nat \<Rightarrow> nat \<Rightarrow> nat" where
  "mem_block w ok sz k = (let bytes = (sz * k) mod 2 ^ w in if ok bytes then bytes div sz else 0)"

lemma mem_block_le: "mem_block w ok sz k \<le> k"
proof -
  have "(sz * k) mod 2 ^ w div sz \<le> sz * k div sz" by (intro div_le_mono mod_less_eq_dividend)
  also have "\<dots> \<le> k" by (cases "sz = 0") simp_all
  finally show ?thesis by (simp add: mem_block_def Let_def)
qed

text \<open>All the elements are there exactly when the request did not wrap around and succeeded.\<close>

lemma mem_block_full:
  assumes "0 < sz"
  shows "k \<le> mem_block w ok sz k \<longleftrightarrow> k = 0 \<or> sz * k < 2 ^ w \<and> ok (sz * k)"
proof (cases "sz * k < 2 ^ w")
  case True
  then show ?thesis using assms by (auto simp: mem_block_def)
next
  case False
  then have "(sz * k) mod 2 ^ w < sz * k"
    by (meson less_le_trans mod_less_divisor not_less zero_less_numeral zero_less_power)
  then have "(sz * k) mod 2 ^ w div sz < k" by (simp add: less_mult_imp_div_less mult.commute)
  then show ?thesis using False by (auto simp: mem_block_def Let_def)
qed

section \<open>Threads and schedules\<close>

text \<open>
  A multi-threaded program is a function \<open>nxt\<close>: \<open>nxt i c s\<close> is the state after the next
  atomic action of thread \<open>i\<close>, or \<open>None\<close> when the thread cannot move (it sleeps, it has
  returned, the process has exited). \<open>c\<close> resolves what the code does not determine.
  A step of the whole program is an action of any thread below \<open>n\<close>. A schedule, a list of
  thread numbers and choices, runs by \<open>run\<close>.
\<close>

inductive sched :: "(nat \<Rightarrow> 'c \<Rightarrow> 's \<Rightarrow> 's option) \<Rightarrow> nat \<Rightarrow> 's \<Rightarrow> 's \<Rightarrow> bool"
  for nxt n where
  sched: "i < n \<Longrightarrow> nxt i c s = Some t \<Longrightarrow> sched nxt n s t"

inductive_cases schedE: "sched nxt n s t"

inductive_simps sched_iff: "sched nxt n s t"

fun run :: "(nat \<Rightarrow> 'c \<Rightarrow> 's \<Rightarrow> 's option) \<Rightarrow> (nat \<times> 'c) list \<Rightarrow> 's \<Rightarrow> 's option" where
  "run nxt [] s = Some s"
| "run nxt ((i, c) # es) s = (case nxt i c s of None \<Rightarrow> None | Some t \<Rightarrow> run nxt es t)"

lemma run_steps:
  assumes "run nxt es s = Some t" and "\<forall>(i, c) \<in> set es. i < n"
  shows "(sched nxt n)\<^sup>*\<^sup>* s t"
  using assms
proof (induction es arbitrary: s)
  case Nil
  then show ?case by simp
next
  case (Cons e es)
  obtain i c where e: "e = (i, c)" by (cases e)
  from Cons.prems e obtain u where u: "nxt i c s = Some u" and r: "run nxt es u = Some t"
    by (auto split: option.splits)
  from Cons.prems e have "i < n" by simp
  with u have "sched nxt n s u" by (blast intro: sched)
  moreover from Cons r have "(sched nxt n)\<^sup>*\<^sup>* u t" by simp
  ultimately show ?case by (rule converse_rtranclp_into_rtranclp)
qed

lemma run_append: "run nxt (es @ fs) s = Option.bind (run nxt es s) (run nxt fs)"
  by (induction es arbitrary: s) (auto split: option.splits)

section \<open>Reachable states\<close>

inductive reach :: "('s \<Rightarrow> bool) \<Rightarrow> ('s \<Rightarrow> 's \<Rightarrow> bool) \<Rightarrow> 's \<Rightarrow> bool"
  for init step where
  reach_init: "init s \<Longrightarrow> reach init step s"
| reach_step: "reach init step s \<Longrightarrow> step s t \<Longrightarrow> reach init step t"

lemma reach_steps: "reach init step s \<Longrightarrow> step\<^sup>*\<^sup>* s t \<Longrightarrow> reach init step t"
  by (erule rtranclp_induct) (auto intro: reach.intros)

lemma run_reach:
  assumes "init s" and "run nxt es s = Some t" and "\<forall>(i, c) \<in> set es. i < n"
  shows "reach init (sched nxt n) t"
  using run_steps [OF assms(2,3)] reach_init [of init s "sched nxt n"] assms(1)
  by (blast intro: reach_steps)

text \<open>An invariant: the start satisfies it, every step keeps it, so every reachable state has it.\<close>

locale invariant_system =
  fixes init :: "'s \<Rightarrow> bool"
    and step :: "'s \<Rightarrow> 's \<Rightarrow> bool"
    and inv :: "'s \<Rightarrow> bool"
  assumes init_inv: "init s \<Longrightarrow> inv s"
    and step_inv: "inv s \<Longrightarrow> step s t \<Longrightarrow> inv t"
begin

lemma reach_inv: "reach init step s \<Longrightarrow> inv s"
  by (induction rule: reach.induct) (auto intro: init_inv step_inv)

lemma steps_inv: "step\<^sup>*\<^sup>* s t \<Longrightarrow> inv s \<Longrightarrow> inv t"
  by (induction rule: rtranclp_induct) (auto intro: step_inv)

end

text \<open>
  Mutual exclusion: the invariant leaves room for one thread at a time in the region
  \<open>owner\<close>, and the critical section lies within that region.
\<close>

locale mutex_system = invariant_system +
  fixes owner :: "'s \<Rightarrow> nat \<Rightarrow> bool"
    and crit :: "'s \<Rightarrow> nat \<Rightarrow> bool"
  assumes owner_unique: "inv s \<Longrightarrow> owner s i \<Longrightarrow> owner s j \<Longrightarrow> i = j"
    and crit_owner: "crit s i \<Longrightarrow> owner s i"
begin

lemma mutual_exclusion:
  "reach init step s \<Longrightarrow> crit s i \<Longrightarrow> crit s j \<Longrightarrow> i = j"
  by (blast intro: owner_unique crit_owner reach_inv)

end

text \<open>
  Progress: from every good state that is not final some step leads to a good state of
  smaller measure, so a final state can always be reached.
\<close>

locale progress_system =
  fixes step :: "'s \<Rightarrow> 's \<Rightarrow> bool"
    and good :: "'s \<Rightarrow> bool"
    and final :: "'s \<Rightarrow> bool"
    and work :: "'s \<Rightarrow> nat"
  assumes progress: "good s \<Longrightarrow> \<not> final s \<Longrightarrow> \<exists>t. step s t \<and> good t \<and> work t < work s"
begin

lemma can_finish: "good s \<Longrightarrow> \<exists>t. step\<^sup>*\<^sup>* s t \<and> good t \<and> final t"
proof (induction "work s" arbitrary: s rule: less_induct)
  case less
  show ?case
  proof (cases "final s")
    case True
    with less.prems show ?thesis by blast
  next
    case False
    with less.prems progress obtain t where t: "step s t" "good t" "work t < work s"
      by blast
    with less.hyps obtain u where "step\<^sup>*\<^sup>* t u" "good u" "final u" by blast
    with t show ?thesis by (blast intro: converse_rtranclp_into_rtranclp)
  qed
qed

end

section \<open>Regions and sums over the threads\<close>

text \<open>
  The threads whose program counter satisfies a predicate, and how the set changes when one
  thread moves: the form in which the lock invariants speak of ownership.
\<close>

definition region :: "('p \<Rightarrow> bool) \<Rightarrow> (nat \<Rightarrow> 'p) \<Rightarrow> nat set" where
  "region P g = {i. P (g i)}"

lemma region_iff [simp]: "i \<in> region P g \<longleftrightarrow> P (g i)"
  by (simp add: region_def)

lemma region_upd [simp]:
  "region P (g(i := x)) = (if P x then insert i (region P g) else region P g - {i})"
  by (auto simp: region_def)

lemma region_const [simp]: "region P (\<lambda>_. x) = (if P x then UNIV else {})"
  by (simp add: region_def)

lemma region_singleton: "region P g = {h} \<Longrightarrow> P (g i) \<longleftrightarrow> i = h"
  by (metis region_iff singleton_iff)

lemma sum_upd_eq:
  fixes f :: "'a \<Rightarrow> nat" and n :: nat
  assumes "i < n"
  shows "(\<Sum>j<n. f ((g(i := x)) j)) + f (g i) = (\<Sum>j<n. f (g j)) + f x"
proof -
  have i: "i \<in> {..<n}" using assms by simp
  have "(\<Sum>j \<in> {..<n} - {i}. f ((g(i := x)) j)) = (\<Sum>j \<in> {..<n} - {i}. f (g j))"
    by (rule sum.cong) auto
  then show ?thesis
    by (simp add: sum.remove [OF finite_lessThan i])
qed

lemma sum_upd_less:
  fixes f :: "'a \<Rightarrow> nat" and n :: nat
  assumes "i < n" and "f x < f (g i)"
  shows "(\<Sum>j<n. f ((g(i := x)) j)) < (\<Sum>j<n. f (g j))"
  using sum_upd_eq [OF assms(1), of f g x] assms(2) by linarith

lemma sum_le_less:
  fixes f :: "'a \<Rightarrow> nat" and n :: nat
  assumes "\<And>j. j < n \<Longrightarrow> f (h j) \<le> f (g j)" and "i < n" and "f (h i) < f (g i)"
  shows "(\<Sum>j<n. f (h j)) < (\<Sum>j<n. f (g j))"
proof (rule sum_strict_mono_ex1)
  show "finite {..<n}" by simp
  show "\<forall>j\<in>{..<n}. f (h j) \<le> f (g j)" using assms(1) by simp
  show "\<exists>j\<in>{..<n}. f (h j) < f (g j)" using assms(2,3) by auto
qed

definition tally :: "nat \<Rightarrow> ('p \<Rightarrow> bool) \<Rightarrow> (nat \<Rightarrow> 'p) \<Rightarrow> nat" where
  "tally n P g = (\<Sum>j<n. if P (g j) then 1 else 0)"

lemma tally_le: "tally n P g \<le> n"
proof -
  have "tally n P g \<le> (\<Sum>j<n. 1)" unfolding tally_def by (rule sum_mono) simp
  then show ?thesis by simp
qed

lemma tally_upd:
  "i < n \<Longrightarrow> tally n P (g(i := x)) + (if P (g i) then 1 else 0)
     = tally n P g + (if P x then 1 else 0)"
  unfolding tally_def by (rule sum_upd_eq)

lemma tally_less:
  assumes "i < n" and "\<not> P (g i)"
  shows "tally n P g < n"
proof -
  have "tally n P g < (\<Sum>j<n. 1)" unfolding tally_def
    by (rule sum_strict_mono_ex1) (use assms in auto)
  then show ?thesis by simp
qed

lemma tally_full_iff: "tally n P g = n \<longleftrightarrow> (\<forall>i<n. P (g i))"
proof
  show "tally n P g = n \<Longrightarrow> \<forall>i<n. P (g i)" using tally_less by fastforce
  show "\<forall>i<n. P (g i) \<Longrightarrow> tally n P g = n" by (simp add: tally_def)
qed

lemma tally_none: "(\<And>i. i < n \<Longrightarrow> \<not> P (g i)) \<Longrightarrow> tally n P g = 0"
  by (simp add: tally_def)

section \<open>Loops that may fail\<close>

text \<open>
  \<open>each f xs s\<close> applies \<open>f\<close> for the elements of \<open>xs\<close> in turn, until one fails; \<open>for_up\<close> is the
  C loop \<open>for (i = lo; i < hi; i++)\<close>.
\<close>

primrec each :: "('x \<Rightarrow> 's \<Rightarrow> 's option) \<Rightarrow> 'x list \<Rightarrow> 's \<Rightarrow> 's option" where
  "each f [] s = Some s"
| "each f (x # xs) s = (case f x s of None \<Rightarrow> None | Some t \<Rightarrow> each f xs t)"

function for_up :: "nat \<Rightarrow> nat \<Rightarrow> (nat \<Rightarrow> 's \<Rightarrow> 's option) \<Rightarrow> 's \<Rightarrow> 's option" where
  "for_up lo hi f s =
     (if lo < hi then case f lo s of None \<Rightarrow> None | Some t \<Rightarrow> for_up (Suc lo) hi f t else Some s)"
  by pat_completeness auto
termination by (relation "measure (\<lambda>(lo, hi, f, s). hi - lo)") auto

declare for_up.simps [simp del]

lemma for_up_first_None: "lo < hi \<Longrightarrow> f lo s = None \<Longrightarrow> for_up lo hi f s = None"
  by (subst for_up.simps) simp

lemma for_up_each: "for_up lo hi f s = each f [lo..<hi] s"
proof (induction lo hi f s rule: for_up.induct)
  case (1 lo hi f s)
  show ?case
  proof (cases "lo < hi")
    case True
    then show ?thesis
      by (subst for_up.simps) (auto simp: upt_conv_Cons 1 split: option.splits)
  qed (subst for_up.simps, simp)
qed

lemma each_append: "each f (xs @ ys) s = Option.bind (each f xs s) (each f ys)"
  by (induction xs arbitrary: s) (auto split: option.splits)

lemma each_nested: "each (\<lambda>x. each f (g x)) xs s = each f (concat (map g xs)) s"
  by (induction xs arbitrary: s) (auto simp: each_append split: option.splits bind_splits)

lemma each_nested_fun: "each (\<lambda>x. each f (g x)) xs = each f (concat (map g xs))"
  by (rule ext) (rule each_nested)

lemma each_map: "each f (map g xs) = each (\<lambda>x. f (g x)) xs"
proof
  show "each f (map g xs) s = each (\<lambda>x. f (g x)) xs s" for s
    by (induction xs arbitrary: s) (auto split: option.splits)
qed

lemma each_cong [fundef_cong]:
  "xs = ys \<Longrightarrow> (\<And>x t. x \<in> set ys \<Longrightarrow> f x t = g x t) \<Longrightarrow> each f xs s = each g ys s"
  by (induction xs arbitrary: ys s) (auto split: option.splits)

text \<open>A loop rule: \<open>I k\<close> holds when \<open>k\<close> elements are done.\<close>

lemma each_None:
  assumes "I s" and "\<And>x t u. f x t = Some u \<Longrightarrow> I t \<Longrightarrow> I u"
    and "x \<in> set xs" and "\<And>t. I t \<Longrightarrow> f x t = None"
  shows "each f xs s = None"
  using assms(1,3)
proof (induction xs arbitrary: s)
  case (Cons y ys)
  then show ?case using assms(2,4) by (cases "y = x") (auto split: option.split)
qed simp

lemma each_invariant:
  assumes "I 0 s" and "\<And>k t. k < length xs \<Longrightarrow> I k t \<Longrightarrow> \<exists>u. f (xs ! k) t = Some u \<and> I (Suc k) u"
  shows "\<exists>t. each f xs s = Some t \<and> I (length xs) t"
  using assms
proof (induction xs arbitrary: s I)
  case Nil
  then show ?case by simp
next
  case (Cons x xs)
  from Cons.prems(2) [of 0 s] Cons.prems(1) obtain u where u: "f x s = Some u" "I (Suc 0) u" by auto
  have "\<exists>t. each f xs u = Some t \<and> I (Suc (length xs)) t"
    by (rule Cons.IH [of "\<lambda>k. I (Suc k)"]) (use u(2) Cons.prems(2) [of "Suc _"] in auto)
  with u(1) show ?case by simp
qed

section \<open>Refinement\<close>

text \<open>
  \<open>ev i s t\<close> lists the visible events of thread \<open>i\<close>'s action from \<open>s\<close> to \<open>t\<close>, \<open>events\<close> those of a
  schedule. A program refines an abstract machine \<open>astep\<close> when every action is matched by its
  events: then a whole run is an execution of the machine with exactly the events of the run.
\<close>

fun events :: "(nat \<Rightarrow> 's \<Rightarrow> 's \<Rightarrow> 'e list) \<Rightarrow> (nat \<Rightarrow> 'c \<Rightarrow> 's \<Rightarrow> 's option) \<Rightarrow> (nat \<times> 'c) list \<Rightarrow> 's \<Rightarrow> 'e list"
  where
  "events ev nxt [] s = []"
| "events ev nxt ((i, c) # es) s =
     (case nxt i c s of None \<Rightarrow> [] | Some t \<Rightarrow> ev i s t @ events ev nxt es t)"

locale refinement_system =
  fixes nxt :: "nat \<Rightarrow> 'c \<Rightarrow> 's \<Rightarrow> 's option"
    and n :: nat
    and good :: "'s \<Rightarrow> bool"
    and ev :: "nat \<Rightarrow> 's \<Rightarrow> 's \<Rightarrow> 'e list"
    and astep :: "'e \<Rightarrow> 'a \<Rightarrow> 'a option"
    and abs_of :: "'s \<Rightarrow> 'a"
  assumes good_nxt: "good s \<Longrightarrow> i < n \<Longrightarrow> nxt i c s = Some t \<Longrightarrow> good t"
    and simulates: "good s \<Longrightarrow> i < n \<Longrightarrow> nxt i c s = Some t \<Longrightarrow>
      each astep (ev i s t) (abs_of s) = Some (abs_of t)"
begin

lemma run_refines:
  "good s \<Longrightarrow> \<forall>(i, c) \<in> set es. i < n \<Longrightarrow> run nxt es s = Some t \<Longrightarrow>
   each astep (events ev nxt es s) (abs_of s) = Some (abs_of t)"
proof (induction es arbitrary: s)
  case (Cons e es)
  obtain i c where e: "e = (i, c)" by (cases e)
  with Cons.prems obtain u where u: "nxt i c s = Some u" "run nxt es u = Some t" "i < n"
    by (auto split: option.splits)
  have "each astep (events ev nxt es u) (abs_of u) = Some (abs_of t)"
    using Cons.IH [of u] Cons.prems u good_nxt by auto
  then show ?case
    using simulates [OF Cons.prems(1) u(3,1)] u(1) by (simp add: e each_append)
qed simp

end

end
