(* ===== verification/LockSpec.thy ===== *)
theory LockSpec
  imports Prelude
begin

text \<open>
  What a lock and a barrier promise, as abstract machines over their visible events, and the
  interface through which the spin lock and the sleeping lock of \<open>studio11\<close> are shown to refine
  the same abstract lock: a lock word, however it is implemented, has at most one thread in the
  region \<open>owns\<close>, and a thread enters or leaves that region only by an action of its own.
\<close>

section \<open>The abstract lock\<close>

datatype lock_event = Acquire nat | Release nat

text \<open>The state is the holder. Only a free lock can be acquired; only its holder can release it.\<close>

fun lock_step :: "lock_event \<Rightarrow> nat option \<Rightarrow> nat option option" where
  "lock_step (Acquire i) None = Some (Some i)"
| "lock_step (Release i) (Some j) = (if i = j then Some None else None)"
| "lock_step _ _ = None"

text \<open>The events of an execution: acquisitions and releases by the same thread alternate.\<close>

fun alternates :: "lock_event list \<Rightarrow> bool" where
  "alternates [] = True"
| "alternates [Acquire i] = True"
| "alternates (Acquire i # Release j # es) = (i = j \<and> alternates es)"
| "alternates _ = False"

lemma lock_step_Some_iff [simp]:
  "lock_step e h = Some h' \<longleftrightarrow>
     (case e of Acquire i \<Rightarrow> h = None \<and> h' = Some i | Release i \<Rightarrow> h = Some i \<and> h' = None)"
  by (cases e; cases h) auto

lemma lock_alternates: "each lock_step es None = Some h \<Longrightarrow> alternates es"
  by (induction es rule: alternates.induct) (auto split: option.splits if_splits lock_event.splits)

section \<open>Locks that refine it\<close>

definition holder_of :: "nat \<Rightarrow> ('p \<Rightarrow> bool) \<Rightarrow> (nat \<Rightarrow> 'p) \<Rightarrow> nat option" where
  "holder_of n owns g = find (\<lambda>i. owns (g i)) [0..<n]"

definition lock_events :: "('p \<Rightarrow> bool) \<Rightarrow> ('s \<Rightarrow> nat \<Rightarrow> 'p) \<Rightarrow> nat \<Rightarrow> 's \<Rightarrow> 's \<Rightarrow> lock_event list" where
  "lock_events owns pc i s t =
     (if owns (pc s i) then if owns (pc t i) then [] else [Release i]
      else if owns (pc t i) then [Acquire i] else [])"

lemma holder_of_None: "region owns g = {} \<Longrightarrow> holder_of n owns g = None"
  unfolding holder_of_def find_None_iff by (auto simp: region_def)

lemma holder_of_Some:
  assumes "region owns g = {h}" and "h < n"
  shows "holder_of n owns g = Some h"
proof -
  have "owns (g i) \<longleftrightarrow> i = h" for i using assms(1) by (rule region_singleton)
  then have "holder_of n owns g = find (\<lambda>i. i = h) [0..<n]" by (simp add: holder_of_def)
  also have "\<dots> = Some h"
    unfolding find_Some_iff using assms(2) by (intro exI [of _ h]) auto
  finally show ?thesis .
qed

locale lock_impl =
  fixes nxt :: "nat \<Rightarrow> 'c \<Rightarrow> 's \<Rightarrow> 's option"
    and n :: nat
    and good :: "'s \<Rightarrow> bool"
    and pc :: "'s \<Rightarrow> nat \<Rightarrow> 'p"
    and owns :: "'p \<Rightarrow> bool"
  assumes keeps: "good s \<Longrightarrow> i < n \<Longrightarrow> nxt i c s = Some t \<Longrightarrow> good t"
    and at_most_one: "good s \<Longrightarrow> region owns (pc s) = {} \<or> (\<exists>h<n. region owns (pc s) = {h})"
    and others: "nxt i c s = Some t \<Longrightarrow> j \<noteq> i \<Longrightarrow> owns (pc t j) = owns (pc s j)"
begin

lemma owner_region:
  assumes "good s" and "owns (pc s i)"
  shows "region owns (pc s) = {i}"
  using at_most_one [OF assms(1)] assms(2) by (metis empty_iff region_iff singletonD)

lemma lock_simulates:
  assumes s: "good s" and i: "i < n" and nx: "nxt i c s = Some t"
  shows "each lock_step (lock_events owns pc i s t) (holder_of n owns (pc s))
    = Some (holder_of n owns (pc t))"
proof -
  note t = keeps [OF s i nx]
  have out: "region owns (pc t) - {i} = region owns (pc s) - {i}"
    using others [OF nx] by (auto simp: region_def)
  consider "owns (pc s i)" "owns (pc t i)" | "owns (pc s i)" "\<not> owns (pc t i)"
    | "\<not> owns (pc s i)" "owns (pc t i)" | "\<not> owns (pc s i)" "\<not> owns (pc t i)" by blast
  then show ?thesis
  proof cases
    case 1
    then show ?thesis
      using owner_region [OF s] owner_region [OF t] i by (simp add: lock_events_def holder_of_Some)
  next
    case 2
    then have "region owns (pc t) = {}" using out owner_region [OF s] by auto
    with 2 show ?thesis
      using owner_region [OF s] i by (simp add: lock_events_def holder_of_Some holder_of_None)
  next
    case 3
    then have "region owns (pc s) = {}" using out owner_region [OF t] by auto
    with 3 show ?thesis
      using owner_region [OF t] i by (simp add: lock_events_def holder_of_Some holder_of_None)
  next
    case 4
    then have "region owns (pc s) = region owns (pc t)" using out by simp
    then have "owns (pc s j) = owns (pc t j)" for j by (metis region_iff)
    with 4 show ?thesis by (simp add: lock_events_def holder_of_def)
  qed
qed

end

sublocale lock_impl \<subseteq> refinement_system nxt n good "lock_events owns pc" lock_step
  "\<lambda>s. holder_of n owns (pc s)"
  by unfold_locales (auto intro: keeps lock_simulates)

context lock_impl
begin

lemma run_alternates:
  assumes "good s" and "region owns (pc s) = {}"
    and "\<forall>(i, c) \<in> set es. i < n" and "run nxt es s = Some t"
  shows "each lock_step (events (lock_events owns pc) nxt es s) None = Some (holder_of n owns (pc t))"
    and "alternates (events (lock_events owns pc) nxt es s)"
proof -
  show "each lock_step (events (lock_events owns pc) nxt es s) None = Some (holder_of n owns (pc t))"
    using run_refines [OF assms(1,3,4)] by (simp add: holder_of_None [OF assms(2)])
  then show "alternates (events (lock_events owns pc) nxt es s)" by (rule lock_alternates)
qed

end

section \<open>The abstract barrier\<close>

text \<open>
  How often each thread has arrived and departed. A thread arrives when it has departed as often
  as it has arrived; it departs for the \<open>k\<close>-th time when all \<open>n\<close> threads have arrived \<open>k\<close> times.
\<close>

datatype barrier_event = Arrive nat | Depart nat

type_synonym barrier = "(nat \<Rightarrow> nat) \<times> (nat \<Rightarrow> nat)"

fun barrier_step :: "nat \<Rightarrow> barrier_event \<Rightarrow> barrier \<Rightarrow> barrier option" where
  "barrier_step n (Arrive i) (arrived, departed) =
     (if arrived i = departed i then Some (arrived(i := Suc (arrived i)), departed) else None)"
| "barrier_step n (Depart i) (arrived, departed) =
     (if \<forall>j \<in> {..<n}. departed i < arrived j
      then Some (arrived, departed(i := Suc (departed i))) else None)"

abbreviation no_calls :: barrier where
  "no_calls \<equiv> (\<lambda>_. 0, \<lambda>_. 0)"

end
