(* ===== verification/SpinLock.thy ===== *)
theory SpinLock
  imports LockSpec
begin

text \<open>
  \<open>studio11/spinlock.c\<close>: a user-space spin lock on a volatile integer, built on GCC's
  \<open>__atomic_compare_exchange\<close>, and the OpenMP program that uses it once per thread.
  Every action that touches the shared integer is one atomic action of the model.
\<close>

abbreviation (input) LOCK :: int where
  "LOCK \<equiv> 1"

abbreviation (input) UNLOCK :: int where
  "UNLOCK \<equiv> 0"

definition ITERS :: nat where
  "ITERS = 500000000"

text \<open>
  \<open>cas spur ptr expected desired\<close>: the built-in's success flag, and what it leaves in
  \<open>*ptr\<close> and in \<open>*expected\<close>. A failed exchange overwrites \<open>*expected\<close> with the value found.
  With its fourth argument (\<open>weak\<close>) set, the exchange may fail although the values agree;
  \<open>spur\<close> says that this happens.
\<close>

definition cas :: "bool \<Rightarrow> int \<Rightarrow> int \<Rightarrow> int \<Rightarrow> bool \<times> int \<times> int" where
  "cas spur ptr expected desired =
     (if ptr = expected \<and> \<not> spur then (True, desired, expected) else (False, ptr, ptr))"

text \<open>
  Where a thread is: at the exchange of \<open>lock\<close> (line 29), at the reset of \<open>s32unlock\<close> in the
  loop body (line 34), in \<open>critical_section\<close> with its \<open>index\<close>, at the exchange of \<open>unlock\<close>
  (line 46), at the final \<open>printf\<close>, or done.
\<close>

datatype spin_pc = SLock | SReset | SCrit nat | SUnlock | SPrint | SDone

record spin_state =
  gs32curlock :: int
  s32unlock :: "nat \<Rightarrow> int"
  spc :: "nat \<Rightarrow> spin_pc"
  exit_code :: "int option"

definition spin_init :: "spin_state \<Rightarrow> bool" where
  "spin_init s \<longleftrightarrow> gs32curlock s = UNLOCK \<and> s32unlock s = (\<lambda>_. UNLOCK)
     \<and> spc s = (\<lambda>_. SLock) \<and> exit_code s = None"

definition spin_lock_try :: "bool \<Rightarrow> nat \<Rightarrow> spin_state \<Rightarrow> spin_state" where
  "spin_lock_try spur i s =
     (case cas spur (gs32curlock s) (s32unlock s i) LOCK of (ok, p, e) \<Rightarrow>
        s\<lparr>gs32curlock := p, s32unlock := (s32unlock s)(i := e),
          spc := (spc s)(i := if ok then SCrit 0 else SReset)\<rparr>)"

definition spin_lock_reset :: "nat \<Rightarrow> spin_state \<Rightarrow> spin_state" where
  "spin_lock_reset i s =
     s\<lparr>s32unlock := (s32unlock s)(i := UNLOCK), spc := (spc s)(i := SLock)\<rparr>"

definition spin_critical :: "nat \<Rightarrow> nat \<Rightarrow> spin_state \<Rightarrow> spin_state" where
  "spin_critical index i s =
     s\<lparr>spc := (spc s)(i := if index < ITERS then SCrit (Suc index) else SUnlock)\<rparr>"

definition spin_unlock :: "bool \<Rightarrow> nat \<Rightarrow> spin_state \<Rightarrow> spin_state" where
  "spin_unlock spur i s =
     (case cas spur (gs32curlock s) LOCK UNLOCK of (ok, p, e) \<Rightarrow>
        if ok then s\<lparr>gs32curlock := p, spc := (spc s)(i := SPrint)\<rparr>
        else s\<lparr>gs32curlock := p, exit_code := Some (-1)\<rparr>)"

definition spin_next :: "bool \<Rightarrow> nat \<Rightarrow> bool \<Rightarrow> spin_state \<Rightarrow> spin_state option" where
  "spin_next weak i spur s =
     (if exit_code s \<noteq> None \<or> spur \<and> \<not> weak then None
      else case spc s i of
        SLock \<Rightarrow> Some (spin_lock_try spur i s)
      | SReset \<Rightarrow> Some (spin_lock_reset i s)
      | SCrit index \<Rightarrow> Some (spin_critical index i s)
      | SUnlock \<Rightarrow> Some (spin_unlock spur i s)
      | SPrint \<Rightarrow> Some (s\<lparr>spc := (spc s)(i := SDone)\<rparr>)
      | SDone \<Rightarrow> None)"

text \<open>The program: \<open>n\<close> threads, and the source's choice of a weak exchange (its argument \<open>1\<close>).\<close>

abbreviation spin_step :: "bool \<Rightarrow> nat \<Rightarrow> spin_state \<Rightarrow> spin_state \<Rightarrow> bool" where
  "spin_step weak \<equiv> sched (spin_next weak)"

abbreviation spin_reach :: "bool \<Rightarrow> nat \<Rightarrow> spin_state \<Rightarrow> bool" where
  "spin_reach weak n \<equiv> reach spin_init (spin_step weak n)"

lemmas spin_defs = spin_next_def spin_lock_try_def spin_lock_reset_def spin_critical_def
  spin_unlock_def cas_def

section \<open>The invariant\<close>

text \<open>A thread owns the lock from its successful exchange until its own release.\<close>

fun spin_owns :: "spin_pc \<Rightarrow> bool" where
  "spin_owns (SCrit index) = True"
| "spin_owns SUnlock = True"
| "spin_owns _ = False"

fun spin_in_crit :: "spin_pc \<Rightarrow> bool" where
  "spin_in_crit (SCrit index) = True"
| "spin_in_crit _ = False"

definition spin_inv :: "nat \<Rightarrow> spin_state \<Rightarrow> bool" where
  "spin_inv n s \<longleftrightarrow>
     (gs32curlock s = UNLOCK \<and> region spin_owns (spc s) = {} \<or>
      gs32curlock s = LOCK \<and> (\<exists>h<n. region spin_owns (spc s) = {h})) \<and>
     (\<forall>i. spc s i = SLock \<longrightarrow> s32unlock s i = UNLOCK)"

lemma spin_inv_init: "spin_init s \<Longrightarrow> spin_inv n s"
  by (simp add: spin_inv_def spin_init_def)

lemma spin_inv_owner:
  assumes "spin_inv n s" and "spin_owns (spc s i)"
  shows "gs32curlock s = LOCK" and "region spin_owns (spc s) = {i}"
proof -
  have "i \<in> region spin_owns (spc s)" using assms(2) by simp
  then obtain h where "gs32curlock s = LOCK" and "region spin_owns (spc s) = {h}"
    using assms(1) unfolding spin_inv_def by (metis empty_iff)
  then show "gs32curlock s = LOCK" and "region spin_owns (spc s) = {i}"
    using assms(2) region_singleton by metis+
qed

lemma spin_inv_at_unlock: "spin_inv n s \<Longrightarrow> spc s i = SUnlock \<Longrightarrow> gs32curlock s = LOCK"
  using spin_inv_owner(1) [of n s i] by simp

lemma spin_inv_lock_try:
  "spin_inv n s \<Longrightarrow> i < n \<Longrightarrow> spc s i = SLock \<Longrightarrow> spin_inv n (spin_lock_try spur i s)"
  by (auto simp: spin_inv_def spin_lock_try_def cas_def)

lemma spin_inv_lock_reset:
  "spin_inv n s \<Longrightarrow> spc s i = SReset \<Longrightarrow> spin_inv n (spin_lock_reset i s)"
  by (auto simp: spin_inv_def spin_lock_reset_def)

lemma spin_inv_critical:
  assumes "spin_inv n s" and "i < n" and "spc s i = SCrit k"
  shows "spin_inv n (spin_critical k i s)"
proof -
  have "region spin_owns (spc s) = {i}" and "gs32curlock s = LOCK"
    using assms spin_inv_owner [of n s i] by simp_all
  with assms show ?thesis by (simp add: spin_inv_def spin_critical_def)
qed

lemma spin_inv_unlock:
  assumes "spin_inv n s" and "spc s i = SUnlock"
  shows "spin_inv n (spin_unlock spur i s)"
proof -
  have "region spin_owns (spc s) = {i}" and "gs32curlock s = LOCK"
    using assms spin_inv_owner [of n s i] by simp_all
  with assms show ?thesis by (simp add: spin_inv_def spin_unlock_def cas_def)
qed

lemma spin_inv_print:
  "spin_inv n s \<Longrightarrow> spc s i = SPrint \<Longrightarrow> spin_inv n (s\<lparr>spc := (spc s)(i := SDone)\<rparr>)"
  by (auto simp: spin_inv_def)

lemma spin_inv_next:
  "spin_inv n s \<Longrightarrow> i < n \<Longrightarrow> spin_next weak i spur s = Some t \<Longrightarrow> spin_inv n t"
  by (auto simp: spin_next_def spin_inv_lock_try spin_inv_lock_reset spin_inv_critical
      spin_inv_unlock spin_inv_print split: if_splits spin_pc.splits)

interpretation spin: mutex_system spin_init "spin_step weak n" "spin_inv n"
  "\<lambda>s i. spin_owns (spc s i)" "\<lambda>s i. spin_in_crit (spc s i)"
  for weak n
proof unfold_locales
  fix s t i j
  show "spin_init s \<Longrightarrow> spin_inv n s" by (rule spin_inv_init)
  show "spin_inv n s \<Longrightarrow> spin_step weak n s t \<Longrightarrow> spin_inv n t"
    by (auto elim!: schedE intro: spin_inv_next)
  show "spin_inv n s \<Longrightarrow> spin_owns (spc s i) \<Longrightarrow> spin_owns (spc s j) \<Longrightarrow> i = j"
    by (metis spin_inv_owner(2) region_singleton)
  show "spin_in_crit (spc s i) \<Longrightarrow> spin_owns (spc s i)"
    by (cases "spc s i") auto
qed

text \<open>It refines the abstract lock: acquired and released by the successful exchanges.\<close>

lemma spin_inv_region: "spin_inv n s \<Longrightarrow> region spin_owns (spc s) = {} \<or> (\<exists>h<n. region spin_owns (spc s) = {h})"
  by (auto simp: spin_inv_def)

lemma spin_next_frame: "spin_next weak i c s = Some t \<Longrightarrow> j \<noteq> i \<Longrightarrow> spc t j = spc s j"
  by (auto simp: spin_defs split: if_splits spin_pc.splits)

interpretation spin_spec: lock_impl "spin_next weak" n "spin_inv n" spc spin_owns
  for weak n
  by unfold_locales (auto intro: spin_inv_next dest: spin_inv_region simp: spin_next_frame)

section \<open>Progress\<close>

text \<open>How many of its own actions a thread still needs when it meets no contention.\<close>

fun spin_weight :: "spin_pc \<Rightarrow> nat" where
  "spin_weight SReset = ITERS + 6"
| "spin_weight SLock = ITERS + 5"
| "spin_weight (SCrit index) = ITERS - index + 3"
| "spin_weight SUnlock = 2"
| "spin_weight SPrint = 1"
| "spin_weight SDone = 0"

definition spin_work :: "nat \<Rightarrow> spin_state \<Rightarrow> nat" where
  "spin_work n s = (\<Sum>j<n. spin_weight (spc s j))"

definition spin_finished :: "nat \<Rightarrow> spin_state \<Rightarrow> bool" where
  "spin_finished n s \<longleftrightarrow> (\<forall>i<n. spc s i = SDone)"

lemma spin_work_upd:
  "i < n \<Longrightarrow> spc t = (spc s)(i := x) \<Longrightarrow> spin_weight x < spin_weight (spc s i) \<Longrightarrow>
   spin_work n t < spin_work n s"
  by (simp add: spin_work_def sum_upd_less del: fun_upd_apply)

text \<open>A thread that is not waiting for a held lock moves forward.\<close>

lemma spin_advance:
  assumes "spin_inv n s" and "exit_code s = None" and "i < n" and "spc s i \<noteq> SDone"
    and "spc s i = SLock \<Longrightarrow> gs32curlock s = UNLOCK"
  shows "\<exists>t. spin_next weak i False s = Some t \<and> exit_code t = None \<and> spin_work n t < spin_work n s"
proof (cases "spc s i")
  case SLock
  with assms have "s32unlock s i = gs32curlock s" by (simp add: spin_inv_def)
  with SLock assms show ?thesis
    by (auto simp: spin_next_def spin_lock_try_def cas_def intro!: spin_work_upd)
next
  case SUnlock
  with assms(1) have "gs32curlock s = LOCK" by (simp add: spin_inv_at_unlock)
  with SUnlock assms show ?thesis
    by (auto simp: spin_next_def spin_unlock_def cas_def intro!: spin_work_upd)
qed (use assms in \<open>auto simp: spin_next_def spin_lock_reset_def spin_critical_def intro!: spin_work_upd\<close>)

lemma spin_some_advance:
  assumes "spin_inv n s" and "exit_code s = None" and "\<not> spin_finished n s"
  shows "\<exists>i<n. \<exists>t. spin_next weak i False s = Some t \<and> exit_code t = None \<and> spin_work n t < spin_work n s"
proof -
  obtain i where i: "i < n" "spc s i \<noteq> SDone" using assms(3) by (auto simp: spin_finished_def)
  show ?thesis
  proof (cases "gs32curlock s = UNLOCK")
    case True
    with spin_advance [OF assms(1,2) i] i(1) show ?thesis by blast
  next
    case False
    then obtain h where h: "h < n" "region spin_owns (spc s) = {h}"
      using assms(1) by (auto simp: spin_inv_def)
    from h(2) have "spin_owns (spc s h)" by (simp add: region_singleton)
    then have "spc s h \<noteq> SDone" "spc s h \<noteq> SLock" by auto
    with spin_advance [OF assms(1,2) h(1)] h(1) show ?thesis by blast
  qed
qed

interpretation spin: progress_system "spin_step weak n"
  "\<lambda>s. spin_inv n s \<and> exit_code s = None" "spin_finished n" "spin_work n"
  for weak n
proof unfold_locales
  fix s
  assume good: "spin_inv n s \<and> exit_code s = None" and "\<not> spin_finished n s"
  then obtain i t where "i < n" "spin_next weak i False s = Some t" "exit_code t = None"
    "spin_work n t < spin_work n s"
    using spin_some_advance by blast
  with good show "\<exists>t. spin_step weak n s t \<and> (spin_inv n t \<and> exit_code t = None) \<and> spin_work n t < spin_work n s"
    by (blast intro: sched spin_inv_next)
qed

section \<open>The error exit of \<open>unlock\<close>\<close>

lemma spin_strong_no_exit_next:
  "spin_inv n s \<Longrightarrow> exit_code s = None \<Longrightarrow> spin_next False i spur s = Some t \<Longrightarrow> exit_code t = None"
  by (auto simp: spin_defs dest: spin_inv_at_unlock split: if_splits spin_pc.splits)

interpretation spin_strong: invariant_system spin_init "spin_step False n"
  "\<lambda>s. spin_inv n s \<and> exit_code s = None" for n
proof unfold_locales
  show "spin_init s \<Longrightarrow> spin_inv n s \<and> exit_code s = None" for s
    by (simp add: spin_inv_init spin_init_def)
  show "spin_inv n s \<and> exit_code s = None \<Longrightarrow> spin_step False n s t \<Longrightarrow> spin_inv n t \<and> exit_code t = None" for s t
    by (auto elim!: schedE dest: spin_strong_no_exit_next spin_inv_next)
qed

lemma spin_crit_steps:
  assumes "0 < n" and "spc s 0 = SCrit k" and "exit_code s = None"
  shows "\<exists>t. (spin_step weak n)\<^sup>*\<^sup>* s t \<and> spc t 0 = SUnlock \<and> exit_code t = None"
  using assms(2,3)
proof (induction "ITERS - k" arbitrary: s k rule: less_induct)
  case less
  have step: "spin_step weak n s (spin_critical k 0 s)"
    using less.prems assms(1) by (intro sched [where i = 0 and c = False]) (simp_all add: spin_next_def)
  show ?case
  proof (cases "k < ITERS")
    case True
    then have "spc (spin_critical k 0 s) 0 = SCrit (Suc k)" "exit_code (spin_critical k 0 s) = None"
      using less.prems by (simp_all add: spin_critical_def)
    with less.hyps [of "Suc k"] True step show ?thesis
      by (meson converse_rtranclp_into_rtranclp diff_less_mono2 lessI)
  next
    case False
    then have "spc (spin_critical k 0 s) 0 = SUnlock" "exit_code (spin_critical k 0 s) = None"
      using less.prems by (simp_all add: spin_critical_def)
    with step show ?thesis by blast
  qed
qed

lemma spin_weak_exit:
  assumes "0 < n"
  shows "\<exists>s. spin_reach True n s \<and> exit_code s = Some (-1)"
proof -
  define s0 :: spin_state where "s0 = \<lparr>gs32curlock = UNLOCK, s32unlock = (\<lambda>_. UNLOCK),
    spc = (\<lambda>_. SLock), exit_code = None\<rparr>"
  have init: "spin_init s0" by (simp add: s0_def spin_init_def)
  have s1: "spin_step True n s0 (spin_lock_try False 0 s0)"
    using assms by (intro sched [where i = 0 and c = False]) (simp_all add: s0_def spin_next_def)
  obtain t where t: "(spin_step True n)\<^sup>*\<^sup>* (spin_lock_try False 0 s0) t" "spc t 0 = SUnlock" "exit_code t = None"
    using spin_crit_steps [OF assms, of "spin_lock_try False 0 s0" 0 True]
    by (auto simp: s0_def spin_lock_try_def cas_def)
  have "spin_step True n t (spin_unlock True 0 t)"
    using assms t by (intro sched [where i = 0 and c = True]) (simp_all add: spin_next_def)
  then have "(spin_step True n)\<^sup>*\<^sup>* s0 (spin_unlock True 0 t)"
    using s1 t(1) by (meson converse_rtranclp_into_rtranclp rtranclp.rtrancl_into_rtrancl)
  then have "spin_reach True n (spin_unlock True 0 t)"
    using reach_steps [OF reach_init [of spin_init, OF init]] by blast
  moreover have "exit_code (spin_unlock True 0 t) = Some (-1)"
    by (simp add: spin_unlock_def cas_def)
  ultimately show ?thesis by blast
qed

section \<open>Properties\<close>

text \<open>C12: at most one thread is inside \<open>critical_section\<close> at any moment of any schedule, however
  many threads run and whether or not the exchange fails spuriously.\<close>

theorem spin_mutual_exclusion:
  assumes "spin_reach weak n s" and "spin_in_crit (spc s i)" and "spin_in_crit (spc s j)"
  shows "i = j"
  by (rule spin.mutual_exclusion [OF assms])

theorem spin_mutual_exclusion_witness:
  "\<exists>s. spin_reach True 2 s \<and> spin_in_crit (spc s 1)"
proof -
  let ?s0 = "\<lparr>gs32curlock = UNLOCK, s32unlock = (\<lambda>_. UNLOCK), spc = (\<lambda>_. SLock), exit_code = None\<rparr>"
  let ?t = "spin_lock_try False 1 ?s0"
  have r: "spin_reach True 2 ?t"
    by (rule run_reach [where s = ?s0 and es = "[(1, False)]"])
       (simp_all add: spin_init_def spin_next_def)
  have c: "spin_in_crit (spc ?t 1)" by (simp add: spin_lock_try_def cas_def)
  have "(1::nat) = 1" by (rule spin_mutual_exclusion [OF r c c])
  with r c show ?thesis by blast
qed

text \<open>C36: the error branch of \<open>unlock\<close>, which ends the whole process with \<open>exit(-1)\<close>, is
  reachable exactly because the source asks for a weak exchange (fourth argument \<open>1\<close>): with a
  strong exchange no schedule reaches it, with the weak one some schedule does although the
  caller holds the lock.\<close>

theorem spin_unlock_error_iff_weak:
  assumes "0 < n"
  shows "(\<exists>s. spin_reach weak n s \<and> exit_code s \<noteq> None) \<longleftrightarrow> weak"
proof
  assume "\<exists>s. spin_reach weak n s \<and> exit_code s \<noteq> None"
  then show weak using spin_strong.reach_inv by (cases weak) auto
next
  assume weak
  with spin_weak_exit [OF assms] show "\<exists>s. spin_reach weak n s \<and> exit_code s \<noteq> None" by force
qed

theorem spin_unlock_error_iff_weak_witness:
  "(\<exists>s. spin_reach True 4 s \<and> exit_code s \<noteq> None) \<and> (\<nexists>s. spin_reach False 4 s \<and> exit_code s \<noteq> None)"
  using spin_unlock_error_iff_weak [of 4 True] spin_unlock_error_iff_weak [of 4 False] by simp

text \<open>The spin lock never deadlocks: from every reachable state of a process that has not
  exited, some schedule takes all threads through their critical sections to the end.\<close>

theorem spin_can_finish:
  assumes "spin_reach weak n s" and "exit_code s = None"
  shows "\<exists>t. (spin_step weak n)\<^sup>*\<^sup>* s t \<and> exit_code t = None \<and> spin_finished n t"
  using spin.can_finish [of n s weak] spin.reach_inv [OF assms(1)] assms(2) by blast

theorem spin_can_finish_witness:
  "\<exists>s t. spin_reach True 2 s \<and> spc s 0 = SReset \<and> (spin_step True 2)\<^sup>*\<^sup>* s t \<and> spin_finished 2 t"
proof -
  let ?s0 = "\<lparr>gs32curlock = UNLOCK, s32unlock = (\<lambda>_. UNLOCK), spc = (\<lambda>_. SLock), exit_code = None\<rparr>"
  let ?t = "spin_lock_try False 0 (spin_lock_try False 1 ?s0)"
  have r: "spin_reach True 2 ?t"
    by (rule run_reach [where s = ?s0 and es = "[(1, False), (0, False)]"])
       (simp_all add: spin_init_def spin_next_def spin_lock_try_def cas_def)
  have "exit_code ?t = None" "spc ?t 0 = SReset" by (simp_all add: spin_lock_try_def cas_def)
  with spin_can_finish [OF r] r show ?thesis by blast
qed

end
