(* ===== verification/SleepLock.thy ===== *)
theory SleepLock
  imports LockSpec
begin

text \<open>
  \<open>studio11/sleeplock.c\<close>: a sleeping lock on a futex word (1 unlocked, 0 locked, negative: some
  thread sleeps), and the OpenMP program that uses it once per thread. The futex calls have
  their documented meaning: \<open>FUTEX_WAIT\<close> puts the caller to sleep only if the word still holds
  the expected value, compared and slept on atomically; a sleeper may also return early;
  \<open>FUTEX_WAKE\<close> with \<open>INT_MAX\<close> wakes all sleepers.
\<close>

definition sleep_ITERS :: nat where
  "sleep_ITERS = 500000000"

text \<open>
  Where a thread is: at the subtraction (line 33), at the store of -1 (line 36), at the call of
  \<open>FUTEX_WAIT\<close> (line 37), asleep in it, in \<open>critical_section\<close>, at the addition (line 56), at the
  store of 1 (line 62), at \<open>FUTEX_WAKE\<close> (line 63), at the final \<open>printf\<close>, done.
\<close>

datatype sleep_pc = LSub | LStore | LWait | LAsleep | LCrit nat | UAdd | UStore | UWake | LPrint | LDone

record sleep_state =
  curlock :: int
  slpc :: "nat \<Rightarrow> sleep_pc"

definition sleep_init :: "nat \<Rightarrow> sleep_state \<Rightarrow> bool" where
  "sleep_init n s \<longleftrightarrow> int n \<le> INT_MAX \<and> curlock s = 1 \<and> slpc s = (\<lambda>_. LSub)"

definition sleep_lock_sub :: "nat \<Rightarrow> sleep_state \<Rightarrow> sleep_state" where
  "sleep_lock_sub i s =
     (let s32ret = wrap32 (curlock s - 1) in
      s\<lparr>curlock := s32ret, slpc := (slpc s)(i := if s32ret < 0 then LStore else LCrit 0)\<rparr>)"

definition sleep_lock_store :: "nat \<Rightarrow> sleep_state \<Rightarrow> sleep_state" where
  "sleep_lock_store i s = s\<lparr>curlock := -1, slpc := (slpc s)(i := LWait)\<rparr>"

definition sleep_futex_wait :: "nat \<Rightarrow> sleep_state \<Rightarrow> sleep_state" where
  "sleep_futex_wait i s = s\<lparr>slpc := (slpc s)(i := if curlock s = -1 then LAsleep else LSub)\<rparr>"

definition sleep_critical :: "nat \<Rightarrow> nat \<Rightarrow> sleep_state \<Rightarrow> sleep_state" where
  "sleep_critical index i s =
     s\<lparr>slpc := (slpc s)(i := if index < sleep_ITERS then LCrit (Suc index) else UAdd)\<rparr>"

definition sleep_unlock_add :: "nat \<Rightarrow> sleep_state \<Rightarrow> sleep_state" where
  "sleep_unlock_add i s =
     (let s32ret = wrap32 (curlock s + 1) in
      s\<lparr>curlock := s32ret, slpc := (slpc s)(i := if s32ret \<noteq> 1 then UStore else LPrint)\<rparr>)"

definition sleep_unlock_store :: "nat \<Rightarrow> sleep_state \<Rightarrow> sleep_state" where
  "sleep_unlock_store i s = s\<lparr>curlock := 1, slpc := (slpc s)(i := UWake)\<rparr>"

definition sleep_futex_wake :: "nat \<Rightarrow> sleep_state \<Rightarrow> sleep_state" where
  "sleep_futex_wake i s =
     s\<lparr>slpc := (\<lambda>j. if slpc s j = LAsleep then LSub else slpc s j)(i := LPrint)\<rparr>"

definition sleep_next :: "nat \<Rightarrow> bool \<Rightarrow> sleep_state \<Rightarrow> sleep_state option" where
  "sleep_next i early s =
     (case slpc s i of
        LSub \<Rightarrow> Some (sleep_lock_sub i s)
      | LStore \<Rightarrow> Some (sleep_lock_store i s)
      | LWait \<Rightarrow> Some (sleep_futex_wait i s)
      | LAsleep \<Rightarrow> if early then Some (s\<lparr>slpc := (slpc s)(i := LSub)\<rparr>) else None
      | LCrit index \<Rightarrow> Some (sleep_critical index i s)
      | UAdd \<Rightarrow> Some (sleep_unlock_add i s)
      | UStore \<Rightarrow> Some (sleep_unlock_store i s)
      | UWake \<Rightarrow> Some (sleep_futex_wake i s)
      | LPrint \<Rightarrow> Some (s\<lparr>slpc := (slpc s)(i := LDone)\<rparr>)
      | LDone \<Rightarrow> None)"

abbreviation sleep_step :: "nat \<Rightarrow> sleep_state \<Rightarrow> sleep_state \<Rightarrow> bool" where
  "sleep_step \<equiv> sched sleep_next"

abbreviation sleep_reach :: "nat \<Rightarrow> sleep_state \<Rightarrow> bool" where
  "sleep_reach n \<equiv> reach (sleep_init n) (sleep_step n)"

lemmas sleep_action_defs = sleep_lock_sub_def sleep_lock_store_def sleep_futex_wait_def
  sleep_critical_def sleep_unlock_add_def sleep_unlock_store_def sleep_futex_wake_def

section \<open>The invariant\<close>

text \<open>
  A thread owns the lock from its successful subtraction until the atomic action that makes the
  word 1 again: the addition, when that returns 1, else the store of 1.
\<close>

fun sleep_owns :: "sleep_pc \<Rightarrow> bool" where
  "sleep_owns (LCrit index) = True"
| "sleep_owns UAdd = True"
| "sleep_owns UStore = True"
| "sleep_owns _ = False"

fun sleep_in_crit :: "sleep_pc \<Rightarrow> bool" where
  "sleep_in_crit (LCrit index) = True"
| "sleep_in_crit _ = False"

definition stores_due :: "nat \<Rightarrow> sleep_state \<Rightarrow> int" where
  "stores_due n s = int (tally n (\<lambda>p. p = LStore) (slpc s))"

definition sleep_inv :: "nat \<Rightarrow> sleep_state \<Rightarrow> bool" where
  "sleep_inv n s \<longleftrightarrow>
     int n \<le> INT_MAX \<and> curlock s \<le> 1 \<and> - 1 - stores_due n s \<le> curlock s \<and>
     (region sleep_owns (slpc s) = {} \<or> (\<exists>h<n. region sleep_owns (slpc s) = {h}) \<and> curlock s \<le> 0)"

text \<open>No wake-up is lost: a sleeper is followed by a word below 0 or by a release still under way.\<close>

definition sleep_wake_inv :: "nat \<Rightarrow> sleep_state \<Rightarrow> bool" where
  "sleep_wake_inv n s \<longleftrightarrow>
     ((\<exists>i. slpc s i = LAsleep) \<longrightarrow> curlock s < 0 \<or> (\<exists>i. slpc s i = UStore) \<or> (\<exists>i<n. slpc s i = UWake))"

lemma stores_due_upd:
  "i < n \<Longrightarrow> slpc t = (slpc s)(i := x) \<Longrightarrow>
   stores_due n t = stores_due n s + (if x = LStore then 1 else 0) - (if slpc s i = LStore then 1 else 0)"
  using tally_upd [of i n "\<lambda>p. p = LStore" "slpc s" x]
  by (auto simp: stores_due_def split: if_splits)

lemma stores_due_less: "i < n \<Longrightarrow> slpc s i \<noteq> LStore \<Longrightarrow> stores_due n s < int n"
  using tally_less [of i n "\<lambda>p. p = LStore" "slpc s"] by (simp add: stores_due_def)

lemma stores_due_nonneg: "0 \<le> stores_due n s"
  by (simp add: stores_due_def)

lemma sleep_inv_owner:
  assumes "sleep_inv n s" and "sleep_owns (slpc s i)"
  shows "curlock s \<le> 0" and "region sleep_owns (slpc s) = {i}"
proof -
  have "i \<in> region sleep_owns (slpc s)" using assms(2) by simp
  then obtain h where "curlock s \<le> 0" and "region sleep_owns (slpc s) = {h}"
    using assms(1) unfolding sleep_inv_def by (metis empty_iff)
  then show "curlock s \<le> 0" and "region sleep_owns (slpc s) = {i}"
    using assms(2) region_singleton by metis+
qed

lemma sleep_sub_value:
  assumes "sleep_inv n s" and "i < n" and "slpc s i = LSub"
  shows "wrap32 (curlock s - 1) = curlock s - 1"
proof (rule wrap32_id)
  have "stores_due n s < int n" using assms by (simp add: stores_due_less)
  with assms(1) show "INT_MIN \<le> curlock s - 1" "curlock s - 1 \<le> INT_MAX"
    by (auto simp: sleep_inv_def)
qed

lemma sleep_add_value:
  assumes "sleep_inv n s" and "i < n" and "slpc s i = UAdd"
  shows "wrap32 (curlock s + 1) = curlock s + 1"
proof (rule wrap32_id)
  have "stores_due n s < int n" using assms by (simp add: stores_due_less)
  with assms(1) show "INT_MIN \<le> curlock s + 1" "curlock s + 1 \<le> INT_MAX"
    by (auto simp: sleep_inv_def)
qed

lemma sleep_inv_init: "sleep_init n s \<Longrightarrow> sleep_inv n s"
  by (simp add: sleep_inv_def sleep_init_def stores_due_def)

lemma sleep_inv_sub:
  assumes "sleep_inv n s" and "i < n" and "slpc s i = LSub"
  shows "sleep_inv n (sleep_lock_sub i s)"
proof -
  have w: "wrap32 (curlock s - 1) = curlock s - 1" by (rule sleep_sub_value [OF assms])
  have out: "i \<notin> region sleep_owns (slpc s)" using assms(3) by simp
  show ?thesis
  proof (cases "curlock s = 1")
    case True
    with assms w have "region sleep_owns (slpc s) = {}" by (auto simp: sleep_inv_def)
    with True w assms stores_due_nonneg [of n s] show ?thesis
      by (simp add: sleep_inv_def sleep_lock_sub_def stores_due_upd [of i n _ s])
  next
    case False
    with assms(1) have "curlock s \<le> 0" by (auto simp: sleep_inv_def)
    with False w out assms show ?thesis
      by (simp add: sleep_inv_def sleep_lock_sub_def stores_due_upd [of i n _ s])
  qed
qed

lemma sleep_inv_store:
  assumes "sleep_inv n s" and "i < n" and "slpc s i = LStore"
  shows "sleep_inv n (sleep_lock_store i s)"
proof -
  have "region sleep_owns ((slpc s)(i := LWait)) = region sleep_owns (slpc s)"
    using assms(3) by (auto simp: region_def)
  then show ?thesis
    using assms stores_due_nonneg [of n "sleep_lock_store i s"]
    by (simp add: sleep_inv_def sleep_lock_store_def del: region_upd) blast
qed

lemma sleep_inv_move:
  assumes "sleep_inv n s" and "i < n" and "slpc s i \<noteq> LStore" and "x \<noteq> LStore"
    and "sleep_owns x = sleep_owns (slpc s i)"
  shows "sleep_inv n (s\<lparr>slpc := (slpc s)(i := x)\<rparr>)"
proof -
  have "region sleep_owns ((slpc s)(i := x)) = region sleep_owns (slpc s)"
    using assms(5) by (auto simp: region_def)
  with assms show ?thesis
    by (simp add: sleep_inv_def stores_due_upd [of i n _ s])
qed

lemma sleep_inv_add:
  assumes "sleep_inv n s" and "i < n" and "slpc s i = UAdd"
  shows "sleep_inv n (sleep_unlock_add i s)"
proof -
  have "curlock s \<le> 0" and "region sleep_owns (slpc s) = {i}"
    using sleep_inv_owner [OF assms(1), of i] assms(3) by simp_all
  then show ?thesis
    using assms sleep_add_value [OF assms]
    by (simp add: sleep_inv_def sleep_unlock_add_def stores_due_upd [of i n _ s])
qed

lemma sleep_inv_unlock_store:
  assumes "sleep_inv n s" and "i < n" and "slpc s i = UStore"
  shows "sleep_inv n (sleep_unlock_store i s)"
proof -
  have "region sleep_owns (slpc s) = {i}"
    using sleep_inv_owner [OF assms(1), of i] assms(3) by simp
  then show ?thesis
    using assms stores_due_nonneg [of n s]
    by (simp add: sleep_inv_def sleep_unlock_store_def stores_due_upd [of i n _ s])
qed

lemma sleep_inv_wake:
  assumes "sleep_inv n s" and "i < n" and "slpc s i = UWake"
  shows "sleep_inv n (sleep_futex_wake i s)"
proof -
  have "region sleep_owns (slpc (sleep_futex_wake i s)) = region sleep_owns (slpc s)"
    using assms(3) by (auto simp: region_def sleep_futex_wake_def)
  moreover have "stores_due n (sleep_futex_wake i s) = stores_due n s"
    using assms(3) by (auto simp: stores_due_def tally_def sleep_futex_wake_def intro!: sum.cong)
  ultimately show ?thesis
    using assms(1) by (simp add: sleep_inv_def) (simp add: sleep_futex_wake_def)
qed

lemmas sleep_inv_actions = sleep_inv_sub sleep_inv_store sleep_inv_add sleep_inv_unlock_store
  sleep_inv_wake

lemma sleep_inv_next:
  "sleep_inv n s \<Longrightarrow> i < n \<Longrightarrow> sleep_next i early s = Some t \<Longrightarrow> sleep_inv n t"
  by (auto simp: sleep_next_def sleep_futex_wait_def sleep_critical_def
      intro!: sleep_inv_actions sleep_inv_move split: if_splits sleep_pc.splits)

interpretation slp: mutex_system "sleep_init n" "sleep_step n" "sleep_inv n"
  "\<lambda>s i. sleep_owns (slpc s i)" "\<lambda>s i. sleep_in_crit (slpc s i)"
  for n
proof unfold_locales
  fix s t i j
  show "sleep_init n s \<Longrightarrow> sleep_inv n s" by (rule sleep_inv_init)
  show "sleep_inv n s \<Longrightarrow> sleep_step n s t \<Longrightarrow> sleep_inv n t"
    by (auto elim!: schedE intro: sleep_inv_next)
  show "sleep_inv n s \<Longrightarrow> sleep_owns (slpc s i) \<Longrightarrow> sleep_owns (slpc s j) \<Longrightarrow> i = j"
    by (metis sleep_inv_owner(2) region_singleton)
  show "sleep_in_crit (slpc s i) \<Longrightarrow> sleep_owns (slpc s i)"
    by (cases "slpc s i") auto
qed

text \<open>
  It refines the abstract lock: a thread acquires by the subtraction that reaches 0 and releases
  by the addition that returns 1, else by its store of 1.
\<close>

lemma sleep_inv_region: "sleep_inv n s \<Longrightarrow> region sleep_owns (slpc s) = {} \<or> (\<exists>h<n. region sleep_owns (slpc s) = {h})"
  by (auto simp: sleep_inv_def)

lemma sleep_next_frame:
  "sleep_next i c s = Some t \<Longrightarrow> j \<noteq> i \<Longrightarrow> sleep_owns (slpc t j) = sleep_owns (slpc s j)"
  by (auto simp: sleep_next_def sleep_action_defs Let_def split: if_splits sleep_pc.splits)

interpretation slp_spec: lock_impl sleep_next n "sleep_inv n" slpc sleep_owns
  for n
  by unfold_locales (auto intro: sleep_inv_next dest: sleep_inv_region simp: sleep_next_frame)

section \<open>Wake-ups\<close>

lemma sleep_wake_inv_move:
  assumes "sleep_wake_inv n s" and "slpc t = (slpc s)(i := x)"
    and "slpc s i \<noteq> UStore" and "slpc s i \<noteq> UWake"
    and "curlock s < 0 \<Longrightarrow> curlock t < 0 \<or> x = UStore" and "x = LAsleep \<Longrightarrow> curlock t < 0"
  shows "sleep_wake_inv n t"
  unfolding sleep_wake_inv_def
proof
  assume "\<exists>j. slpc t j = LAsleep"
  then have "x = LAsleep \<or> (\<exists>j. slpc s j = LAsleep)"
    using assms(2) by (auto split: if_splits)
  then consider "curlock t < 0" | "curlock s < 0" | k where "slpc s k = UStore"
    | k where "k < n" "slpc s k = UWake"
    using assms(1,6) unfolding sleep_wake_inv_def by blast
  then show "curlock t < 0 \<or> (\<exists>j. slpc t j = UStore) \<or> (\<exists>j<n. slpc t j = UWake)"
  proof cases
    case 2
    with assms(2,5) show ?thesis by (metis fun_upd_same)
  next
    case (3 k)
    with assms(2,3) have "slpc t k = UStore" by auto
    then show ?thesis by blast
  next
    case (4 k)
    with assms(2,4) have "slpc t k = UWake" by auto
    with 4 show ?thesis by blast
  qed blast
qed

lemma sleep_wake_inv_next:
  assumes "sleep_inv n s" and "sleep_wake_inv n s" and "i < n" and "sleep_next i early s = Some t"
  shows "sleep_wake_inv n t"
proof (cases "slpc s i")
  case LSub
  with assms sleep_sub_value [of n s i] show ?thesis
    by (auto simp: sleep_next_def sleep_lock_sub_def Let_def
        intro!: sleep_wake_inv_move [OF assms(2)] split: if_splits)
next
  case UAdd
  with assms sleep_add_value [of n s i] show ?thesis
    by (auto simp: sleep_next_def sleep_unlock_add_def Let_def
        intro!: sleep_wake_inv_move [OF assms(2)] split: if_splits)
next
  case UStore
  with assms show ?thesis
    by (auto simp: sleep_next_def sleep_unlock_store_def sleep_wake_inv_def)
next
  case UWake
  with assms show ?thesis
    by (auto simp: sleep_next_def sleep_futex_wake_def sleep_wake_inv_def split: if_splits)
qed (use assms in \<open>auto simp: sleep_next_def sleep_action_defs
       intro!: sleep_wake_inv_move [OF assms(2)] split: if_splits\<close>)

interpretation slp_wake: invariant_system "sleep_init n" "sleep_step n"
  "\<lambda>s. sleep_inv n s \<and> sleep_wake_inv n s" for n
proof unfold_locales
  show "sleep_init n s \<Longrightarrow> sleep_inv n s \<and> sleep_wake_inv n s" for s
    by (simp add: sleep_inv_init) (simp add: sleep_init_def sleep_wake_inv_def)
  show "sleep_inv n s \<and> sleep_wake_inv n s \<Longrightarrow> sleep_step n s t \<Longrightarrow> sleep_inv n t \<and> sleep_wake_inv n t" for s t
    by (auto elim!: schedE intro: sleep_inv_next sleep_wake_inv_next)
qed

section \<open>Progress while the lock is held\<close>

fun sleep_weight :: "sleep_pc \<Rightarrow> nat" where
  "sleep_weight LStore = sleep_ITERS + 8"
| "sleep_weight LWait = sleep_ITERS + 7"
| "sleep_weight LAsleep = sleep_ITERS + 7"
| "sleep_weight LSub = sleep_ITERS + 6"
| "sleep_weight (LCrit index) = sleep_ITERS - index + 5"
| "sleep_weight UAdd = 4"
| "sleep_weight UStore = 3"
| "sleep_weight UWake = 2"
| "sleep_weight LPrint = 1"
| "sleep_weight LDone = 0"

definition sleep_work :: "nat \<Rightarrow> sleep_state \<Rightarrow> nat" where
  "sleep_work n s = (\<Sum>j<n. sleep_weight (slpc s j))"

definition sleep_finished :: "nat \<Rightarrow> sleep_state \<Rightarrow> bool" where
  "sleep_finished n s \<longleftrightarrow> (\<forall>i<n. slpc s i = LDone)"

text \<open>
  The lock is not lost: a thread owns it, or the word is 1 and no thread is about to store -1
  into it.
\<close>

definition sleep_sound :: "nat \<Rightarrow> sleep_state \<Rightarrow> bool" where
  "sleep_sound n s \<longleftrightarrow>
     region sleep_owns (slpc s) \<noteq> {} \<or> curlock s = 1 \<and> (\<forall>i<n. slpc s i \<noteq> LStore)"

lemma sleep_work_upd:
  "i < n \<Longrightarrow> slpc t = (slpc s)(i := x) \<Longrightarrow> sleep_weight x < sleep_weight (slpc s i) \<Longrightarrow>
   sleep_work n t < sleep_work n s"
  by (simp add: sleep_work_def sum_upd_less del: fun_upd_apply)

lemma sleep_work_wake: "i < n \<Longrightarrow> slpc s i = UWake \<Longrightarrow> sleep_work n (sleep_futex_wake i s) < sleep_work n s"
  unfolding sleep_work_def by (rule sum_le_less [of _ _ _ _ i]) (auto simp: sleep_futex_wake_def)

text \<open>With an owner: a due store of -1 goes first, then the owner moves on.\<close>

lemma sleep_advance_owned:
  assumes "sleep_inv n s" and "sleep_owns (slpc s h)" and "h < n"
  shows "\<exists>i<n. \<exists>t. sleep_next i False s = Some t \<and> sleep_sound n t \<and> sleep_work n t < sleep_work n s"
proof (cases "\<exists>i<n. slpc s i = LStore")
  case True
  then obtain i where i: "i < n" "slpc s i = LStore" by blast
  with assms(2) have "h \<in> region sleep_owns (slpc (sleep_lock_store i s))"
    by (auto simp: sleep_lock_store_def)
  with i have "sleep_sound n (sleep_lock_store i s)" by (auto simp: sleep_sound_def)
  moreover have "sleep_work n (sleep_lock_store i s) < sleep_work n s"
    using i by (intro sleep_work_upd [of i n _ s LWait]) (simp_all add: sleep_lock_store_def)
  ultimately show ?thesis using i by (auto simp: sleep_next_def)
next
  case False
  have le: "curlock s \<le> 0" by (rule sleep_inv_owner(1) [OF assms(1,2)])
  show ?thesis
  proof (cases "slpc s h")
    case (LCrit k)
    with False assms show ?thesis
      by (intro exI [of _ h])
         (auto simp: sleep_next_def sleep_sound_def sleep_critical_def intro!: sleep_work_upd [of h])
  next
    case UAdd
    with False assms le sleep_add_value [OF assms(1,3) UAdd] show ?thesis
      by (intro exI [of _ h])
         (auto simp: sleep_next_def sleep_sound_def sleep_unlock_add_def Let_def intro!: sleep_work_upd [of h])
  next
    case UStore
    with False assms show ?thesis
      by (intro exI [of _ h])
         (auto simp: sleep_next_def sleep_sound_def sleep_unlock_store_def intro!: sleep_work_upd [of h])
  qed (use assms(2) in simp_all)
qed

text \<open>Without one: pending wake-ups, then a refused wait, then a fresh attempt, which succeeds.\<close>

lemma sleep_advance_free:
  assumes "sleep_inv n s" and "sleep_wake_inv n s" and "\<not> sleep_finished n s"
    and "region sleep_owns (slpc s) = {}" and "curlock s = 1" and "\<forall>i<n. slpc s i \<noteq> LStore"
  shows "\<exists>i<n. \<exists>t. sleep_next i False s = Some t \<and> sleep_sound n t \<and> sleep_work n t < sleep_work n s"
proof -
  obtain j where j: "j < n" "slpc s j \<noteq> LDone" using assms(3) by (auto simp: sleep_finished_def)
  have no: "\<not> sleep_owns (slpc s i)" for i using assms(4) by (metis empty_iff region_iff)
  obtain i where i: "i < n" "slpc s i \<noteq> LDone" "slpc s i \<noteq> LAsleep"
  proof (cases "slpc s j = LAsleep")
    case True
    moreover have "slpc s k \<noteq> UStore" for k using no [of k] by auto
    ultimately obtain k where "k < n" "slpc s k = UWake"
      using assms(2,5) by (auto simp: sleep_wake_inv_def)
    then show ?thesis using that by simp
  qed (use j that in blast)
  have "\<exists>t. sleep_next i False s = Some t \<and> sleep_sound n t \<and> sleep_work n t < sleep_work n s"
  proof (cases "slpc s i")
    case LSub
    then have "i \<in> region sleep_owns (slpc (sleep_lock_sub i s))"
      using assms(5) by (simp add: sleep_lock_sub_def wrap32_id)
    then show ?thesis using LSub i(1) assms(5)
      by (auto simp: sleep_next_def sleep_sound_def sleep_lock_sub_def wrap32_id intro!: sleep_work_upd [of i])
  next
    case LWait
    then show ?thesis using i(1) assms(5,6)
      by (auto simp: sleep_next_def sleep_sound_def sleep_futex_wait_def intro!: sleep_work_upd [of i])
  next
    case UWake
    then have "sleep_work n (sleep_futex_wake i s) < sleep_work n s" using i(1) by (simp add: sleep_work_wake)
    then show ?thesis using UWake assms(5,6)
      by (auto simp: sleep_next_def sleep_sound_def sleep_futex_wake_def)
  next
    case LPrint
    then show ?thesis using i(1) assms(5,6)
      by (auto simp: sleep_next_def sleep_sound_def intro!: sleep_work_upd [of i])
  qed (use i assms(6) no [of i] in simp_all)
  with i(1) show ?thesis by blast
qed

interpretation slp: progress_system "sleep_step n"
  "\<lambda>s. (sleep_inv n s \<and> sleep_wake_inv n s) \<and> sleep_sound n s" "sleep_finished n" "sleep_work n"
  for n
proof unfold_locales
  fix s
  assume good: "(sleep_inv n s \<and> sleep_wake_inv n s) \<and> sleep_sound n s" and nf: "\<not> sleep_finished n s"
  have "\<exists>i<n. \<exists>t. sleep_next i False s = Some t \<and> sleep_sound n t \<and> sleep_work n t < sleep_work n s"
  proof (cases "region sleep_owns (slpc s) = {}")
    case True
    with good nf show ?thesis by (intro sleep_advance_free) (auto simp: sleep_sound_def)
  next
    case False
    with good obtain h where "h < n" "sleep_owns (slpc s h)"
      by (metis region_iff singletonI sleep_inv_def)
    with good show ?thesis by (intro sleep_advance_owned) auto
  qed
  with good show "\<exists>t. sleep_step n s t \<and> ((sleep_inv n t \<and> sleep_wake_inv n t) \<and> sleep_sound n t)
      \<and> sleep_work n t < sleep_work n s"
    by (blast intro: sched sleep_inv_next sleep_wake_inv_next)
qed

section \<open>The lost lock\<close>

text \<open>
  Nobody owns the lock and the word is not 1: from here no thread ever owns it again, because
  only an owner raises the word.
\<close>

definition sleep_lost :: "nat \<Rightarrow> sleep_state \<Rightarrow> bool" where
  "sleep_lost n s \<longleftrightarrow> sleep_inv n s \<and> region sleep_owns (slpc s) = {} \<and> curlock s \<le> 0"

fun sleep_waits :: "sleep_pc \<Rightarrow> bool" where
  "sleep_waits LSub = True"
| "sleep_waits LStore = True"
| "sleep_waits LWait = True"
| "sleep_waits LAsleep = True"
| "sleep_waits _ = False"

lemma sleep_lost_next:
  assumes "sleep_lost n s" and "i < n" and "sleep_next i early s = Some t"
  shows "sleep_lost n t" and "sleep_waits (slpc s j) \<Longrightarrow> sleep_waits (slpc t j)"
proof -
  have inv: "sleep_inv n s" and le: "curlock s \<le> 0" using assms(1) by (simp_all add: sleep_lost_def)
  have no: "\<not> sleep_owns (slpc s k)" for k
    using assms(1) by (metis empty_iff region_iff sleep_lost_def)
  have t: "sleep_inv n t" by (rule sleep_inv_next [OF inv assms(2,3)])
  show "sleep_lost n t"
  proof (cases "slpc s i")
    case LSub
    with assms sleep_sub_value [OF inv assms(2) LSub] show ?thesis
      using t by (auto simp: sleep_lost_def sleep_next_def sleep_lock_sub_def Let_def)
  next
    case UWake
    have "region sleep_owns (slpc (sleep_futex_wake i s)) = {}"
      using no by (auto simp: region_def sleep_futex_wake_def)
    with UWake assms show ?thesis
      using t le by (simp add: sleep_lost_def sleep_next_def) (auto simp: sleep_futex_wake_def)
  qed (use t no [of i] assms in \<open>auto simp: sleep_lost_def sleep_next_def sleep_action_defs split: if_splits\<close>)
  show "sleep_waits (slpc s j) \<Longrightarrow> sleep_waits (slpc t j)"
  proof (cases "slpc s i")
    case LSub
    with assms le sleep_sub_value [OF inv assms(2) LSub]
    show "sleep_waits (slpc s j) \<Longrightarrow> sleep_waits (slpc t j)"
      by (auto simp: sleep_next_def sleep_lock_sub_def Let_def)
  qed (use no [of i] assms in \<open>auto simp: sleep_next_def sleep_action_defs split: if_splits\<close>)
qed

interpretation slp_lost: invariant_system "\<lambda>s. sleep_lost n s \<and> sleep_waits (slpc s j)" "sleep_step n"
  "\<lambda>s. sleep_lost n s \<and> sleep_waits (slpc s j)" for n j
  by unfold_locales (auto elim!: schedE dest: sleep_lost_next)

lemma sleep_crit_steps:
  assumes "0 < n" and "slpc s 0 = LCrit k"
  shows "(sleep_step n)\<^sup>*\<^sup>* s (s\<lparr>slpc := (slpc s)(0 := UAdd)\<rparr>)"
  using assms(2)
proof (induction "sleep_ITERS - k" arbitrary: s k rule: less_induct)
  case less
  have step: "sleep_step n s (sleep_critical k 0 s)"
    using less.prems assms(1) by (intro sched [where i = 0 and c = False]) (simp_all add: sleep_next_def)
  show ?case
  proof (cases "k < sleep_ITERS")
    case True
    then have "slpc (sleep_critical k 0 s) 0 = LCrit (Suc k)" by (simp add: sleep_critical_def)
    then have "(sleep_step n)\<^sup>*\<^sup>* (sleep_critical k 0 s)
        ((sleep_critical k 0 s)\<lparr>slpc := (slpc (sleep_critical k 0 s))(0 := UAdd)\<rparr>)"
      using less.hyps [of "Suc k" "sleep_critical k 0 s"] True by (simp add: diff_less_mono2)
    moreover have "(sleep_critical k 0 s)\<lparr>slpc := (slpc (sleep_critical k 0 s))(0 := UAdd)\<rparr>
        = s\<lparr>slpc := (slpc s)(0 := UAdd)\<rparr>"
      by (simp add: sleep_critical_def)
    ultimately show ?thesis using step by (simp add: converse_rtranclp_into_rtranclp)
  next
    case False
    then have "sleep_critical k 0 s = s\<lparr>slpc := (slpc s)(0 := UAdd)\<rparr>" by (simp add: sleep_critical_def)
    with step show ?thesis by (metis r_into_rtranclp)
  qed
qed

text \<open>
  The schedule that loses the lock: thread 1 finds the lock taken and is about to store -1; thread
  0 releases and stores 1; then thread 1's store of -1 overwrites that 1.
\<close>

lemma sleep_lost_reachable:
  assumes "2 \<le> n" and "int n \<le> INT_MAX"
  shows "\<exists>s. sleep_reach n s \<and> sleep_lost n s \<and> sleep_waits (slpc s 1)"
proof -
  define s0 where "s0 = \<lparr>curlock = 1, slpc = (\<lambda>_. LSub)\<rparr>"
  define s1 where "s1 = \<lparr>curlock = 0, slpc = (\<lambda>_. LSub)(0 := LCrit 0)\<rparr>"
  define s2 where "s2 = \<lparr>curlock = 0, slpc = (\<lambda>_. LSub)(0 := UAdd)\<rparr>"
  define s3 where "s3 = \<lparr>curlock = -1, slpc = (\<lambda>_. LSub)(0 := UWake, 1 := LWait)\<rparr>"
  have init: "sleep_init n s0" using assms(2) by (simp add: sleep_init_def s0_def)
  have "run sleep_next [(0, False)] s0 = Some s1"
    by (simp add: s0_def s1_def sleep_next_def sleep_lock_sub_def wrap32_id)
  then have a: "(sleep_step n)\<^sup>*\<^sup>* s0 s1" by (rule run_steps) (use assms in simp)
  have b: "(sleep_step n)\<^sup>*\<^sup>* s1 s2"
    using sleep_crit_steps [of n s1 0] assms(1) by (simp add: s1_def s2_def)
  have "run sleep_next [(1, False), (0, False), (0, False), (1, False)] s2 = Some s3"
    by (simp add: s2_def s3_def sleep_next_def sleep_lock_sub_def sleep_unlock_add_def
        sleep_unlock_store_def sleep_lock_store_def wrap32_id fun_upd_twist)
  then have c: "(sleep_step n)\<^sup>*\<^sup>* s2 s3" by (rule run_steps) (use assms in auto)
  have "(sleep_step n)\<^sup>*\<^sup>* s0 s3" using a b c by (meson rtranclp_trans)
  then have r: "sleep_reach n s3"
    using reach_steps [OF reach_init [of "sleep_init n", OF init]] by blast
  moreover have "region sleep_owns (slpc s3) = {}" by (simp add: s3_def)
  moreover have "curlock s3 \<le> 0" and "sleep_waits (slpc s3 1)" by (simp_all add: s3_def)
  ultimately show ?thesis using slp.reach_inv [OF r] unfolding sleep_lost_def by blast
qed

section \<open>Properties\<close>

text \<open>C13: at most one thread is inside \<open>critical_section\<close> at any moment of any schedule, with any
  number of threads and with sleepers that return early.\<close>

theorem sleep_mutual_exclusion:
  assumes "sleep_reach n s" and "sleep_in_crit (slpc s i)" and "sleep_in_crit (slpc s j)"
  shows "i = j"
  by (rule slp.mutual_exclusion [OF assms])

theorem sleep_mutual_exclusion_witness:
  "\<exists>s. sleep_reach 2 s \<and> sleep_in_crit (slpc s 1) \<and> slpc s 0 = LAsleep"
proof -
  let ?s0 = "\<lparr>curlock = 1, slpc = (\<lambda>_. LSub)\<rparr>"
  let ?t = "sleep_futex_wait 0 (sleep_lock_store 0 (sleep_lock_sub 0 (sleep_lock_sub 1 ?s0)))"
  have r: "sleep_reach 2 ?t"
    by (rule run_reach [where s = ?s0 and es = "[(1, False), (0, False), (0, False), (0, False)]"])
       (simp_all add: sleep_init_def sleep_next_def sleep_action_defs wrap32_id)
  have c: "sleep_in_crit (slpc ?t 1)" "slpc ?t 0 = LAsleep"
    by (simp_all add: sleep_action_defs wrap32_id)
  have "(1::nat) = 1" by (rule sleep_mutual_exclusion [OF r c(1) c(1)])
  with r c show ?thesis by blast
qed

text \<open>The futex word stays between \<open>-(n + 1)\<close> and 1 for \<open>n\<close> threads, so its 32-bit arithmetic
  never wraps around, and it is at most 0 while a thread is in its critical section.\<close>

theorem sleep_word_bounds:
  assumes "sleep_reach n s"
  shows "- int n - 1 \<le> curlock s \<and> curlock s \<le> 1 \<and> (\<forall>i. sleep_in_crit (slpc s i) \<longrightarrow> curlock s \<le> 0)"
proof (intro conjI allI impI)
  have inv: "sleep_inv n s" by (rule slp.reach_inv [OF assms])
  have "stores_due n s \<le> int n" by (simp add: stores_due_def tally_le)
  with inv show "- int n - 1 \<le> curlock s" "curlock s \<le> 1" by (auto simp: sleep_inv_def)
  show "curlock s \<le> 0" if "sleep_in_crit (slpc s i)" for i
    using sleep_inv_owner(1) [OF inv, of i] slp.crit_owner [OF that] by blast
qed

theorem sleep_word_bounds_witness:
  "\<exists>s. sleep_reach 3 s \<and> curlock s = -2 \<and> - int 3 - 1 \<le> curlock s"
proof -
  let ?s0 = "\<lparr>curlock = 1, slpc = (\<lambda>_. LSub)\<rparr>"
  let ?t = "sleep_lock_sub 2 (sleep_lock_sub 1 (sleep_lock_sub 0 ?s0))"
  have r: "sleep_reach 3 ?t"
    by (rule run_reach [where s = ?s0 and es = "[(0, False), (1, False), (2, False)]"])
       (simp_all add: sleep_init_def sleep_next_def sleep_action_defs wrap32_id)
  have "curlock ?t = -2" by (simp add: sleep_action_defs wrap32_id)
  with r sleep_word_bounds [OF r] show ?thesis by blast
qed

text \<open>C16: the lock can be lost. With two or more threads some schedule reaches a state after
  which no thread ever enters its critical section again and the program never finishes, under any
  continuation and even if sleepers return early: the store of -1 in \<open>lock\<close> overwrites the 1 that
  a concurrent \<open>unlock\<close> has just stored.\<close>

theorem sleep_lock_can_hang:
  assumes "2 \<le> n" and "int n \<le> INT_MAX"
  shows "\<exists>s. sleep_reach n s \<and>
    (\<forall>t. (sleep_step n)\<^sup>*\<^sup>* s t \<longrightarrow> \<not> sleep_finished n t \<and> (\<forall>i. \<not> sleep_in_crit (slpc t i)))"
proof -
  obtain s where s: "sleep_reach n s" "sleep_lost n s" "sleep_waits (slpc s 1)"
    using sleep_lost_reachable [OF assms] by blast
  have "\<not> sleep_finished n t \<and> (\<forall>i. \<not> sleep_in_crit (slpc t i))" if "(sleep_step n)\<^sup>*\<^sup>* s t" for t
  proof -
    have t: "sleep_lost n t" "sleep_waits (slpc t 1)"
      using slp_lost.steps_inv [OF that, of 1] s by blast+
    have "slpc t 1 \<noteq> LDone" using t(2) by auto
    then have "\<not> sleep_finished n t" using assms(1) by (auto simp: sleep_finished_def intro!: exI [of _ "Suc 0"])
    moreover have "\<not> sleep_in_crit (slpc t i)" for i
      using t(1) slp.crit_owner by (metis empty_iff region_iff sleep_lost_def)
    ultimately show ?thesis by blast
  qed
  with s(1) show ?thesis by blast
qed

theorem sleep_lock_can_hang_witness:
  "\<exists>s. sleep_reach 4 s \<and> \<not> (\<exists>t. (sleep_step 4)\<^sup>*\<^sup>* s t \<and> sleep_finished 4 t)"
  using sleep_lock_can_hang [of 4] by auto

text \<open>The lost lock is the only way to hang: from every reachable state in which a thread holds
  the lock, or the word is 1 and no thread is between its failed subtraction and its store of -1,
  some schedule takes all threads to the end; in particular no sleeper is left without a wake-up.\<close>

theorem sleep_can_finish:
  assumes "sleep_reach n s"
    and "(\<exists>i. sleep_in_crit (slpc s i)) \<or> curlock s = 1 \<and> (\<forall>i<n. slpc s i \<noteq> LStore)"
  shows "\<exists>t. (sleep_step n)\<^sup>*\<^sup>* s t \<and> sleep_finished n t"
proof -
  have "sleep_sound n s"
    using assms(2) slp.crit_owner unfolding sleep_sound_def by (metis empty_iff region_iff)
  then show ?thesis using slp.can_finish [of n s] slp_wake.reach_inv [OF assms(1)] by blast
qed

theorem sleep_can_finish_witness:
  "\<exists>s t. sleep_reach 2 s \<and> sleep_in_crit (slpc s 1) \<and> slpc s 0 = LStore \<and>
     (sleep_step 2)\<^sup>*\<^sup>* s t \<and> sleep_finished 2 t"
proof -
  let ?s0 = "\<lparr>curlock = 1, slpc = (\<lambda>_. LSub)\<rparr>"
  let ?t = "sleep_lock_sub 0 (sleep_lock_sub 1 ?s0)"
  have r: "sleep_reach 2 ?t"
    by (rule run_reach [where s = ?s0 and es = "[(1, False), (0, False)]"])
       (simp_all add: sleep_init_def sleep_next_def sleep_action_defs wrap32_id)
  have c: "sleep_in_crit (slpc ?t 1)" "slpc ?t 0 = LStore" by (simp_all add: sleep_action_defs wrap32_id)
  with sleep_can_finish [OF r] r show ?thesis by blast
qed

end
