(* ===== verification/SpinBarrier.thy ===== *)
theory SpinBarrier
  imports LockSpec
begin

text \<open>
  The spinning barrier of \<open>lab02/src/main.c\<close> (\<open>CUSTOM_SPIN_BARRIER\<close>, function \<open>barrier_wait\<close>),
  called again and again by the same \<open>n = gs32MAX_THREAD\<close> threads. Each access to a shared
  variable is an atomic action; \<open>gs32passed++\<close> on the volatile counter is a load and a store.
  \<open>entered\<close> and \<open>left\<close> are history variables: how many calls each thread has announced by its
  fetch-and-add, and how many it has returned from. The signed increment of \<open>gs32passed\<close> is
  modelled with the wrap-around of the target.
\<close>

text \<open>
  Where a thread is: outside (about to read \<open>gs32passed\<close>, line 45), at the fetch-and-add
  (line 47), at the reset of \<open>gs32bar\<close> (line 50), at the load and the store of \<open>gs32passed++\<close>
  (line 53), in the waiting loop (line 58).
\<close>

datatype bar_pc = BRead | BAdd | BReset | BIncLoad | BIncStore int | BSpin

record bar_state =
  gs32bar :: int
  gs32passed :: int
  s32passed_old :: "nat \<Rightarrow> int"
  bpc :: "nat \<Rightarrow> bar_pc"
  entered :: "nat \<Rightarrow> nat"
  left :: "nat \<Rightarrow> nat"

definition bar_init :: "nat \<Rightarrow> bar_state \<Rightarrow> bool" where
  "bar_init n s \<longleftrightarrow> int n \<le> INT_MAX \<and> gs32bar s = 0 \<and> gs32passed s = 0 \<and> bpc s = (\<lambda>_. BRead)
     \<and> entered s = (\<lambda>_. 0) \<and> left s = (\<lambda>_. 0)"

definition bar_read :: "nat \<Rightarrow> bar_state \<Rightarrow> bar_state" where
  "bar_read i s =
     s\<lparr>s32passed_old := (s32passed_old s)(i := gs32passed s), bpc := (bpc s)(i := BAdd)\<rparr>"

definition bar_add :: "nat \<Rightarrow> nat \<Rightarrow> bar_state \<Rightarrow> bar_state" where
  "bar_add gs32MAX_THREAD i s =
     s\<lparr>gs32bar := wrap32 (gs32bar s + 1),
       entered := (entered s)(i := Suc (entered s i)),
       bpc := (bpc s)(i := if gs32bar s = int gs32MAX_THREAD - 1 then BReset else BSpin)\<rparr>"

definition bar_reset :: "nat \<Rightarrow> bar_state \<Rightarrow> bar_state" where
  "bar_reset i s = s\<lparr>gs32bar := 0, bpc := (bpc s)(i := BIncLoad)\<rparr>"

definition bar_inc_load :: "nat \<Rightarrow> bar_state \<Rightarrow> bar_state" where
  "bar_inc_load i s = s\<lparr>bpc := (bpc s)(i := BIncStore (gs32passed s))\<rparr>"

definition bar_inc_store :: "int \<Rightarrow> nat \<Rightarrow> bar_state \<Rightarrow> bar_state" where
  "bar_inc_store v i s =
     s\<lparr>gs32passed := wrap32 (v + 1), bpc := (bpc s)(i := BRead), left := (left s)(i := Suc (left s i))\<rparr>"

definition bar_spin :: "nat \<Rightarrow> bar_state \<Rightarrow> bar_state" where
  "bar_spin i s =
     (if gs32passed s = s32passed_old s i then s
      else s\<lparr>bpc := (bpc s)(i := BRead), left := (left s)(i := Suc (left s i))\<rparr>)"

definition bar_next :: "nat \<Rightarrow> nat \<Rightarrow> unit \<Rightarrow> bar_state \<Rightarrow> bar_state option" where
  "bar_next n i c s =
     Some (case bpc s i of
        BRead \<Rightarrow> bar_read i s
      | BAdd \<Rightarrow> bar_add n i s
      | BReset \<Rightarrow> bar_reset i s
      | BIncLoad \<Rightarrow> bar_inc_load i s
      | BIncStore v \<Rightarrow> bar_inc_store v i s
      | BSpin \<Rightarrow> bar_spin i s)"

abbreviation bar_step :: "nat \<Rightarrow> bar_state \<Rightarrow> bar_state \<Rightarrow> bool" where
  "bar_step n \<equiv> sched (bar_next n) n"

abbreviation bar_reach :: "nat \<Rightarrow> bar_state \<Rightarrow> bool" where
  "bar_reach n \<equiv> reach (bar_init n) (bar_step n)"

section \<open>The invariant\<close>

text \<open>The last thread of an episode, until it has opened the barrier.\<close>

fun bar_last :: "bar_pc \<Rightarrow> bool" where
  "bar_last BReset = True"
| "bar_last BIncLoad = True"
| "bar_last (BIncStore v) = True"
| "bar_last _ = False"

fun bar_opening :: "bar_pc \<Rightarrow> bool" where
  "bar_opening BIncLoad = True"
| "bar_opening (BIncStore v) = True"
| "bar_opening _ = False"

text \<open>
  What a thread knows in episode \<open>P\<close>: \<open>e\<close> calls announced, \<open>l\<close> returned, \<open>old\<close> its copy of
  \<open>gs32passed\<close>. A waiting thread is of this episode, or of the previous one, whose end it has
  not noticed yet.
\<close>

fun bar_local :: "nat \<Rightarrow> bar_pc \<Rightarrow> nat \<Rightarrow> nat \<Rightarrow> int \<Rightarrow> bool" where
  "bar_local P BRead e l old \<longleftrightarrow> e = P \<and> l = P"
| "bar_local P BAdd e l old \<longleftrightarrow> e = P \<and> l = P \<and> old = wrap32 (int P)"
| "bar_local P BReset e l old \<longleftrightarrow> e = Suc P \<and> l = P"
| "bar_local P BIncLoad e l old \<longleftrightarrow> e = Suc P \<and> l = P"
| "bar_local P (BIncStore v) e l old \<longleftrightarrow> e = Suc P \<and> l = P \<and> v = wrap32 (int P)"
| "bar_local P BSpin e l old \<longleftrightarrow>
     e = Suc P \<and> l = P \<and> old = wrap32 (int P) \<or> e = P \<and> Suc l = P \<and> old = wrap32 (int l)"

definition bar_inv_at :: "nat \<Rightarrow> nat \<Rightarrow> bar_state \<Rightarrow> bool" where
  "bar_inv_at n P s \<longleftrightarrow>
     int n \<le> INT_MAX \<and> gs32passed s = wrap32 (int P) \<and>
     (\<forall>i<n. bar_local P (bpc s i) (entered s i) (left s i) (s32passed_old s i)) \<and>
     (\<forall>i<n. bar_last (bpc s i) \<longrightarrow> (\<forall>j<n. j \<noteq> i \<longrightarrow> bpc s j = BSpin \<and> entered s j = Suc P)) \<and>
     (\<forall>i<n. bar_opening (bpc s i) \<longrightarrow> gs32bar s = 0) \<and>
     ((\<forall>i<n. \<not> bar_opening (bpc s i)) \<longrightarrow> gs32bar s = int (tally n (\<lambda>e. e = Suc P) (entered s))) \<and>
     ((\<forall>i<n. entered s i = Suc P) \<longrightarrow> (\<forall>i<n. \<not> bar_last (bpc s i)) \<longrightarrow> n = 0)"

definition bar_inv :: "nat \<Rightarrow> bar_state \<Rightarrow> bool" where
  "bar_inv n s \<longleftrightarrow> (\<exists>P. bar_inv_at n P s)"

lemma bar_inv_atI:
  assumes "int n \<le> INT_MAX" and "gs32passed s = wrap32 (int P)"
    and "\<And>i. i < n \<Longrightarrow> bar_local P (bpc s i) (entered s i) (left s i) (s32passed_old s i)"
    and "\<And>i j. i < n \<Longrightarrow> bar_last (bpc s i) \<Longrightarrow> j < n \<Longrightarrow> j \<noteq> i \<Longrightarrow> bpc s j = BSpin \<and> entered s j = Suc P"
    and "\<And>i. i < n \<Longrightarrow> bar_opening (bpc s i) \<Longrightarrow> gs32bar s = 0"
    and "(\<forall>i<n. \<not> bar_opening (bpc s i)) \<Longrightarrow> gs32bar s = int (tally n (\<lambda>e. e = Suc P) (entered s))"
    and "\<forall>i<n. entered s i = Suc P \<Longrightarrow> \<forall>i<n. \<not> bar_last (bpc s i) \<Longrightarrow> n = 0"
  shows "bar_inv_at n P s"
  unfolding bar_inv_at_def using assms by blast

lemma bar_inv_atD:
  assumes "bar_inv_at n P s"
  shows "int n \<le> INT_MAX" and "gs32passed s = wrap32 (int P)"
    and "i < n \<Longrightarrow> bar_local P (bpc s i) (entered s i) (left s i) (s32passed_old s i)"
    and "i < n \<Longrightarrow> bar_last (bpc s i) \<Longrightarrow> j < n \<Longrightarrow> j \<noteq> i \<Longrightarrow> bpc s j = BSpin \<and> entered s j = Suc P"
    and "i < n \<Longrightarrow> bar_opening (bpc s i) \<Longrightarrow> gs32bar s = 0"
    and "\<forall>i<n. \<not> bar_opening (bpc s i) \<Longrightarrow> gs32bar s = int (tally n (\<lambda>e. e = Suc P) (entered s))"
    and "\<forall>i<n. entered s i = Suc P \<Longrightarrow> \<forall>i<n. \<not> bar_last (bpc s i) \<Longrightarrow> n = 0"
  using assms unfolding bar_inv_at_def by blast+

lemma bar_opening_last: "bar_opening p \<Longrightarrow> bar_last p"
  by (cases p) auto

text \<open>While some thread of this episode has not announced itself, nobody is opening the barrier.\<close>

lemma bar_inv_no_last:
  assumes "bar_inv_at n P s" and "i < n" and "entered s i = P"
  shows "j < n \<Longrightarrow> \<not> bar_last (bpc s j)"
    and "gs32bar s = int (tally n (\<lambda>e. e = Suc P) (entered s))"
proof -
  have a: "\<not> bar_last (bpc s j)" if "j < n" for j
  proof
    assume l: "bar_last (bpc s j)"
    show False
    proof (cases "j = i")
      case True
      with l assms(3) bar_inv_atD(3) [OF assms(1,2)] show False by (cases "bpc s i") auto
    next
      case False
      with bar_inv_atD(4) [OF assms(1) that l assms(2)] assms(3) show False by simp
    qed
  qed
  then show "j < n \<Longrightarrow> \<not> bar_last (bpc s j)" .
  from a have "\<forall>j<n. \<not> bar_opening (bpc s j)" using bar_opening_last by blast
  then show "gs32bar s = int (tally n (\<lambda>e. e = Suc P) (entered s))" by (rule bar_inv_atD(6) [OF assms(1)])
qed

lemma bar_inv_init: "bar_init n s \<Longrightarrow> bar_inv_at n 0 s"
  by (intro bar_inv_atI) (auto simp: bar_init_def wrap32_id tally_none)

text \<open>A thread of this episode moves, and does not become the last one.\<close>

lemma bar_inv_quiet:
  assumes inv: "bar_inv_at n P s" and i: "i < n" "entered s i = P"
    and t: "bpc t = (bpc s)(i := p)" "entered t = entered s" "left t = (left s)(i := l)"
      "s32passed_old t = (s32passed_old s)(i := old)" "gs32bar t = gs32bar s" "gs32passed t = gs32passed s"
    and p: "\<not> bar_last p" "bar_local P p P l old"
  shows "bar_inv_at n P t"
proof (rule bar_inv_atI)
  have no: "\<not> bar_last (bpc t j)" if "j < n" for j
    using bar_inv_no_last(1) [OF inv i that] p(1) t(1) by simp
  show "bar_local P (bpc t j) (entered t j) (left t j) (s32passed_old t j)" if "j < n" for j
    using bar_inv_atD(3) [OF inv that] p(2) t i(2) by (cases "j = i") auto
  show "gs32bar t = int (tally n (\<lambda>e. e = Suc P) (entered t))"
    using bar_inv_no_last(2) [OF inv i] t by simp
  show "n = 0" if all: "\<forall>i<n. entered t i = Suc P"
  proof -
    from all i(1) t(2) have "entered s i = Suc P" by simp
    with i(2) show ?thesis by simp
  qed
  show "bpc t j = BSpin \<and> entered t j = Suc P" if "k < n" "bar_last (bpc t k)" for k j
    using no that by blast
  show "gs32bar t = 0" if "k < n" "bar_opening (bpc t k)" for k
    using no that bar_opening_last by blast
qed (use bar_inv_atD(1,2) [OF inv] t(6) in simp_all)

lemma bar_inv_read:
  assumes "bar_inv_at n P s" and "i < n" and "bpc s i = BRead"
  shows "bar_inv_at n P (bar_read i s)"
proof -
  have l: "entered s i = P" "left s i = P" using bar_inv_atD(3) [OF assms(1,2)] assms(3) by simp_all
  show ?thesis
    by (rule bar_inv_quiet [OF assms(1,2) l(1), where p = BAdd and l = P and old = "gs32passed s"])
       (use l bar_inv_atD(2) [OF assms(1)] in \<open>simp_all add: bar_read_def fun_upd_idem\<close>)
qed

lemma bar_inv_spin:
  assumes "bar_inv_at n P s" and "i < n" and "bpc s i = BSpin"
  shows "bar_inv_at n P (bar_spin i s)"
proof (cases "gs32passed s = s32passed_old s i")
  case True
  with assms(1) show ?thesis by (simp add: bar_spin_def)
next
  case False
  have l: "entered s i = P" "Suc (left s i) = P"
    using bar_inv_atD(2,3) [OF assms(1)] assms(2,3) False by fastforce+
  show ?thesis
    by (rule bar_inv_quiet [OF assms(1,2) l(1), where p = BRead and l = P and old = "s32passed_old s i"])
       (use False l in \<open>simp_all add: bar_spin_def\<close>)
qed

lemma bar_add_tally:
  assumes "bar_inv_at n P s" and "i < n" and "entered s i = P"
  shows "wrap32 (gs32bar s + 1) = int (tally n (\<lambda>e. e = Suc P) ((entered s)(i := Suc P)))"
    and "gs32bar s = int n - 1 \<longleftrightarrow> (\<forall>j<n. ((entered s)(i := Suc P)) j = Suc P)"
proof -
  let ?e = "(entered s)(i := Suc P)" and ?Q = "\<lambda>e. e = Suc P"
  have t: "tally n ?Q ?e = Suc (tally n ?Q (entered s))"
    using tally_upd [of i n ?Q "entered s" "Suc P"] assms(2,3) by simp
  have b: "gs32bar s = int (tally n ?Q (entered s))" by (rule bar_inv_no_last(2) [OF assms])
  show "wrap32 (gs32bar s + 1) = int (tally n ?Q ?e)"
    using t b tally_le [of n ?Q ?e] bar_inv_atD(1) [OF assms(1)] by (simp add: wrap32_id)
  have "gs32bar s = int n - 1 \<longleftrightarrow> tally n ?Q ?e = n" using t b by auto
  then show "gs32bar s = int n - 1 \<longleftrightarrow> (\<forall>j<n. ?e j = Suc P)" by (simp only: tally_full_iff)
qed

lemma bar_inv_add:
  assumes inv: "bar_inv_at n P s" and i: "i < n" "bpc s i = BAdd"
  shows "bar_inv_at n P (bar_add n i s)"
proof -
  let ?t = "bar_add n i s" and ?e = "(entered s)(i := Suc P)"
  have l: "entered s i = P" "left s i = P" "s32passed_old s i = wrap32 (int P)"
    using bar_inv_atD(3) [OF inv i(1)] i(2) by simp_all
  note no = bar_inv_no_last(1) [OF inv i(1) l(1)]
  note bar = bar_add_tally [OF inv i(1) l(1)]
  have e: "entered ?t = ?e" using l(1) by (simp add: bar_add_def)
  have pc: "bpc ?t = (bpc s)(i := if \<forall>j<n. ?e j = Suc P then BReset else BSpin)"
    using bar(2) by (simp add: bar_add_def)
  show ?thesis
  proof (rule bar_inv_atI)
    show "bar_local P (bpc ?t j) (entered ?t j) (left ?t j) (s32passed_old ?t j)" if "j < n" for j
      using bar_inv_atD(3) [OF inv that] l by (cases "j = i") (simp_all add: bar_add_def)
    show "bpc ?t j = BSpin \<and> entered ?t j = Suc P"
      if k: "k < n" "bar_last (bpc ?t k)" and j: "j < n" "j \<noteq> k" for k j
    proof -
      have "k = i" and all: "\<forall>j<n. ?e j = Suc P"
        using k no [OF k(1)] unfolding pc by (auto split: if_splits)
      then have "bpc s j = BSpin"
        using bar_inv_atD(3) [OF inv j(1)] no [OF j(1)] j by (cases "bpc s j") auto
      then have "bpc ?t j = BSpin" using j(2) \<open>k = i\<close> unfolding pc by simp
      moreover have "entered ?t j = Suc P" unfolding e using all j(1) by blast
      ultimately show ?thesis by blast
    qed
    have op: "\<not> bar_opening (bpc ?t j)" if "j < n" for j
      using no [OF that] bar_opening_last unfolding pc by auto
    show "gs32bar ?t = 0" if "j < n" "bar_opening (bpc ?t j)" for j using op that by blast
    show "gs32bar ?t = int (tally n (\<lambda>e. e = Suc P) (entered ?t))"
      unfolding e using bar(1) by (simp add: bar_add_def)
    show "n = 0" if "\<forall>j<n. entered ?t j = Suc P" "\<forall>j<n. \<not> bar_last (bpc ?t j)"
      using that i(1) unfolding e pc by auto
  qed (use bar_inv_atD(1,2) [OF inv] in \<open>simp_all add: bar_add_def\<close>)
qed

text \<open>The last thread moves on without opening the barrier yet.\<close>

lemma bar_inv_last_move:
  assumes inv: "bar_inv_at n P s" and i: "i < n" "bar_last (bpc s i)"
    and t: "bpc t = (bpc s)(i := p)" "entered t = entered s" "left t = left s"
      "s32passed_old t = s32passed_old s" "gs32bar t = 0" "gs32passed t = gs32passed s"
    and p: "bar_opening p" "bar_local P p (entered s i) (left s i) (s32passed_old s i)"
  shows "bar_inv_at n P t"
proof (rule bar_inv_atI)
  have last: "bar_last p" using p(1) by (rule bar_opening_last)
  show "bar_local P (bpc t j) (entered t j) (left t j) (s32passed_old t j)" if "j < n" for j
    using bar_inv_atD(3) [OF inv that] p(2) t by (cases "j = i") auto
  show "bpc t j = BSpin \<and> entered t j = Suc P"
    if k: "k < n" "bar_last (bpc t k)" and j: "j < n" "j \<noteq> k" for k j
  proof -
    have "k = i" using k bar_inv_atD(4) [OF inv i k(1)] t(1) by (cases "k = i") auto
    with bar_inv_atD(4) [OF inv i j(1)] j(2) t show ?thesis by simp
  qed
  show "gs32bar t = int (tally n (\<lambda>e. e = Suc P) (entered t))" if "\<forall>j<n. \<not> bar_opening (bpc t j)"
    using that i(1) p(1) t(1) by auto
  show "n = 0" if "\<forall>j<n. \<not> bar_last (bpc t j)" using that i(1) last t(1) by auto
qed (use bar_inv_atD(1,2) [OF inv] t in simp_all)

lemma bar_inv_reset:
  assumes "bar_inv_at n P s" and "i < n" and "bpc s i = BReset"
  shows "bar_inv_at n P (bar_reset i s)"
  by (rule bar_inv_last_move [OF assms(1,2), where p = BIncLoad])
     (use assms(3) bar_inv_atD(3) [OF assms(1,2)] in \<open>simp_all add: bar_reset_def\<close>)

lemma bar_inv_inc_load:
  assumes "bar_inv_at n P s" and "i < n" and "bpc s i = BIncLoad"
  shows "bar_inv_at n P (bar_inc_load i s)"
  by (rule bar_inv_last_move [OF assms(1,2), where p = "BIncStore (gs32passed s)"])
     (use assms(3) bar_inv_atD(2,3,5) [OF assms(1)] assms(2) in \<open>fastforce simp: bar_inc_load_def\<close>)+

text \<open>The last thread opens the barrier: the next episode begins.\<close>

lemma bar_inv_inc_store:
  assumes inv: "bar_inv_at n P s" and i: "i < n" "bpc s i = BIncStore v"
  shows "bar_inv_at n (Suc P) (bar_inc_store v i s)"
proof -
  let ?t = "bar_inc_store v i s"
  have l: "entered s i = Suc P" "left s i = P" "v = wrap32 (int P)"
    using bar_inv_atD(3) [OF inv i(1)] i(2) by simp_all
  have o: "bpc s j = BSpin \<and> entered s j = Suc P \<and> left s j = P \<and> s32passed_old s j = wrap32 (int P)"
    if "j < n" "j \<noteq> i" for j
    using bar_inv_atD(4) [OF inv i(1) _ that] i(2) bar_inv_atD(3) [OF inv that(1)] by auto
  have e: "entered s j = Suc P" if "j < n" for j using l o that by (cases "j = i") auto
  show ?thesis
  proof (rule bar_inv_atI)
    show "gs32passed ?t = wrap32 (int (Suc P))"
      using l(3) wrap32_wrap32_add [of "int P" 1] by (simp add: bar_inc_store_def add.commute)
    show "bar_local (Suc P) (bpc ?t j) (entered ?t j) (left ?t j) (s32passed_old ?t j)" if "j < n" for j
      using l o that by (cases "j = i") (simp_all add: bar_inc_store_def)
    have no: "\<not> bar_last (bpc ?t j)" if "j < n" for j
      using o that by (cases "j = i") (simp_all add: bar_inc_store_def)
    then show "bpc ?t j = BSpin \<and> entered ?t j = Suc (Suc P)"
      if "k < n" "bar_last (bpc ?t k)" for k j using that by blast
    show "gs32bar ?t = 0" using bar_inv_atD(5) [OF inv i(1)] i(2) by (simp add: bar_inc_store_def)
    then show "gs32bar ?t = int (tally n (\<lambda>e. e = Suc (Suc P)) (entered ?t))"
      using e by (simp add: bar_inc_store_def tally_none)
    show "n = 0" if all: "\<forall>j<n. entered ?t j = Suc (Suc P)"
      using all i(1) e [OF i(1)] by (auto simp: bar_inc_store_def)
  qed (use bar_inv_atD(1) [OF inv] in simp)
qed

lemma bar_inv_next: "bar_inv n s \<Longrightarrow> i < n \<Longrightarrow> bar_next n i c s = Some t \<Longrightarrow> bar_inv n t"
  unfolding bar_inv_def bar_next_def
  by (auto intro: bar_inv_read bar_inv_add bar_inv_reset bar_inv_inc_load bar_inv_inc_store
      bar_inv_spin split: bar_pc.splits)

interpretation bar: invariant_system "bar_init n" "bar_step n" "bar_inv n" for n
proof unfold_locales
  show "bar_init n s \<Longrightarrow> bar_inv n s" for s by (auto simp: bar_inv_def dest: bar_inv_init)
  show "bar_inv n s \<Longrightarrow> bar_step n s t \<Longrightarrow> bar_inv n t" for s t
    by (auto elim!: schedE intro: bar_inv_next)
qed

section \<open>Refinement of the abstract barrier\<close>

text \<open>A thread arrives by its fetch-and-add and departs when it returns from \<open>barrier_wait\<close>.\<close>

definition bar_events :: "nat \<Rightarrow> bar_state \<Rightarrow> bar_state \<Rightarrow> barrier_event list" where
  "bar_events i s t =
     (if bpc s i = BAdd then [Arrive i]
      else if bpc s i \<noteq> BRead \<and> bpc t i = BRead then [Depart i] else [])"

lemma bar_departs:
  assumes inv: "bar_inv_at n P s" and i: "i < n" and "bpc s i \<noteq> BRead"
    and nx: "bar_next n i c s = Some t" and "bpc t i = BRead" and j: "j < n"
  shows "left s i < entered s j"
proof -
  have P: "P \<le> entered s j" using bar_inv_atD(3) [OF inv j] by (cases "bpc s j") auto
  consider v where "bpc s i = BIncStore v" | "bpc s i = BSpin" "gs32passed s \<noteq> s32passed_old s i"
    using assms(3,5) nx
    by (cases "bpc s i") (auto simp: bar_next_def bar_add_def bar_reset_def bar_inc_load_def bar_spin_def
        split: if_splits)
  then show ?thesis
  proof cases
    case 1
    then have "left s i = P" "entered s i = Suc P" using bar_inv_atD(3) [OF inv i] by simp_all
    then show ?thesis using bar_inv_atD(4) [OF inv i _ j] 1 by (cases "j = i") auto
  next
    case 2
    then have "Suc (left s i) = P" using bar_inv_atD(2,3) [OF inv] i by fastforce
    with P show ?thesis by simp
  qed
qed

lemma bar_simulates:
  assumes "bar_inv n s" and i: "i < n" and nx: "bar_next n i c s = Some t"
  shows "each (barrier_step n) (bar_events i s t) (entered s, left s) = Some (entered t, left t)"
proof -
  obtain P where inv: "bar_inv_at n P s" using assms(1) by (auto simp: bar_inv_def)
  consider "bpc s i = BAdd" | "bpc s i \<noteq> BAdd" "bpc s i \<noteq> BRead" "bpc t i = BRead"
    | "bpc s i \<noteq> BAdd" "bpc s i \<noteq> BRead \<longrightarrow> bpc t i \<noteq> BRead" by blast
  then show ?thesis
  proof cases
    case 1
    then have "entered s i = left s i" using bar_inv_atD(3) [OF inv i] by simp
    with 1 nx show ?thesis by (auto simp: bar_events_def bar_next_def bar_add_def)
  next
    case 2
    then have "entered t = entered s \<and> left t = (left s)(i := Suc (left s i))" using nx
      by (cases "bpc s i") (auto simp: bar_next_def bar_reset_def bar_inc_load_def
          bar_inc_store_def bar_spin_def split: if_splits)
    with 2 bar_departs [OF inv i 2(2) nx 2(3)] show ?thesis by (simp add: bar_events_def)
  next
    case 3
    then have "entered t = entered s \<and> left t = left s" using nx
      by (cases "bpc s i") (auto simp: bar_next_def bar_read_def bar_reset_def bar_inc_load_def
          bar_inc_store_def bar_spin_def split: if_splits)
    with 3 show ?thesis by (auto simp: bar_events_def)
  qed
qed

interpretation bar_spec: refinement_system "bar_next n" n "bar_inv n" bar_events "barrier_step n"
  "\<lambda>s. (entered s, left s)" for n
  by unfold_locales (auto intro: bar_inv_next bar_simulates)

section \<open>Progress\<close>

text \<open>Every thread has returned from at least \<open>K\<close> calls; and the actions still needed for that.\<close>

definition bar_rounds :: "nat \<Rightarrow> nat \<Rightarrow> bar_state \<Rightarrow> bool" where
  "bar_rounds n K s \<longleftrightarrow> (\<forall>i<n. K \<le> left s i)"

fun bar_todo :: "bar_pc \<Rightarrow> nat" where
  "bar_todo BRead = 5"
| "bar_todo BAdd = 4"
| "bar_todo BSpin = 3"
| "bar_todo BReset = 3"
| "bar_todo BIncLoad = 2"
| "bar_todo (BIncStore v) = 1"

definition bar_weight :: "nat \<Rightarrow> bar_state \<Rightarrow> nat \<Rightarrow> nat" where
  "bar_weight K s i = 6 * (K - left s i) + bar_todo (bpc s i)"

definition bar_work :: "nat \<Rightarrow> nat \<Rightarrow> bar_state \<Rightarrow> nat" where
  "bar_work n K s = (\<Sum>j<n. bar_weight K s j)"

lemma bar_work_less:
  assumes "i < n" and "\<And>j. j \<noteq> i \<Longrightarrow> bpc t j = bpc s j \<and> left t j = left s j"
    and "bar_weight K t i < bar_weight K s i"
  shows "bar_work n K t < bar_work n K s"
  unfolding bar_work_def
proof (rule sum_strict_mono_ex1)
  show "\<forall>j\<in>{..<n}. bar_weight K t j \<le> bar_weight K s j"
  proof
    fix j
    show "bar_weight K t j \<le> bar_weight K s j"
      using assms(2) [of j] assms(3) by (cases "j = i") (simp_all add: bar_weight_def)
  qed
  show "\<exists>j\<in>{..<n}. bar_weight K t j < bar_weight K s j"
    using assms(1,3) by blast
qed simp

text \<open>Some thread that is behind the goal can move: the last one, one released, or one outside.\<close>

lemma bar_some_ready:
  assumes inv: "bar_inv_at n P s" and "\<not> bar_rounds n K s"
  shows "\<exists>i<n. left s i < K \<and> (bpc s i = BSpin \<longrightarrow> gs32passed s \<noteq> s32passed_old s i)"
proof (cases "\<exists>i<n. entered s i = P \<and> Suc (left s i) = P")
  case True
  then obtain i where i: "i < n" "entered s i = P" "Suc (left s i) = P" by blast
  obtain j where j: "j < n" "left s j < K" using assms(2) by (auto simp: bar_rounds_def not_le)
  have "left s i \<le> left s j" using bar_inv_atD(3) [OF inv j(1)] i(3) by (cases "bpc s j") auto
  moreover have "s32passed_old s i \<noteq> gs32passed s" if "bpc s i = BSpin"
  proof -
    have "int P = int (left s i) + 1" using i(3) by simp
    then have "wrap32 (int P) \<noteq> wrap32 (int (left s i))" using wrap32_Suc_neq by simp
    moreover have "s32passed_old s i = wrap32 (int (left s i))"
      using bar_inv_atD(3) [OF inv i(1)] that i(2) by auto
    ultimately show ?thesis using bar_inv_atD(2) [OF inv] by simp
  qed
  ultimately show ?thesis using i(1) j(2) by (metis order_le_less_trans)
next
  case False
  then have l: "left s j = P" if "j < n" for j
    using bar_inv_atD(3) [OF inv that] that by (cases "bpc s j") auto
  have n: "n \<noteq> 0" and "P < K" using assms(2) l by (auto simp: bar_rounds_def not_le)
  show ?thesis
  proof (cases "\<exists>i<n. bpc s i \<noteq> BSpin")
    case True
    with l \<open>P < K\<close> show ?thesis by auto
  next
    case False
    then have "entered s j = Suc P" if "j < n" for j
      using bar_inv_atD(3) [OF inv that] l [OF that] that by fastforce
    moreover have "\<not> bar_last (bpc s j)" if "j < n" for j using False that by fastforce
    ultimately have "n = 0" using bar_inv_atD(7) [OF inv] by blast
    with n show ?thesis by simp
  qed
qed

lemma bar_ready_work:
  assumes "i < n" and "left s i < K" and "bpc s i = BSpin \<longrightarrow> gs32passed s \<noteq> s32passed_old s i"
  shows "\<exists>t. bar_next n i () s = Some t \<and> bar_work n K t < bar_work n K s"
proof -
  obtain t where t: "bar_next n i () s = Some t" by (simp add: bar_next_def)
  have "\<And>j. j \<noteq> i \<Longrightarrow> bpc t j = bpc s j \<and> left t j = left s j" and "bar_weight K t i < bar_weight K s i"
    using t assms(2,3)
    by (auto simp: bar_next_def bar_read_def bar_add_def bar_reset_def bar_inc_load_def
        bar_inc_store_def bar_spin_def bar_weight_def split: bar_pc.splits if_splits)
  then have "bar_work n K t < bar_work n K s" by (rule bar_work_less [OF assms(1)])
  with t show ?thesis by blast
qed

interpretation bar: progress_system "bar_step n" "bar_inv n" "bar_rounds n K" "bar_work n K" for n K
proof unfold_locales
  fix s
  assume "bar_inv n s" and "\<not> bar_rounds n K s"
  then obtain i where i: "i < n" "left s i < K" "bpc s i = BSpin \<longrightarrow> gs32passed s \<noteq> s32passed_old s i"
    using bar_some_ready unfolding bar_inv_def by blast
  with bar_ready_work obtain t where "bar_next n i () s = Some t" "bar_work n K t < bar_work n K s"
    by blast
  with i(1) \<open>bar_inv n s\<close> show "\<exists>t. bar_step n s t \<and> bar_inv n t \<and> bar_work n K t < bar_work n K s"
    by (blast intro: sched bar_inv_next)
qed

lemma bar_next_frame: "bar_next n i c s = Some t \<Longrightarrow> j \<noteq> i \<Longrightarrow> entered t j = entered s j"
  by (auto simp: bar_next_def bar_read_def bar_add_def bar_reset_def bar_inc_load_def
      bar_inc_store_def bar_spin_def split: bar_pc.splits)

lemma bar_run_frame:
  "run (bar_next n) es s = Some t \<Longrightarrow> \<forall>(i, c) \<in> set es. i \<noteq> j \<Longrightarrow> entered t j = entered s j"
  by (induction es arbitrary: s) (auto simp: bar_next_frame split: option.splits)

text \<open>A run used by the witnesses: two threads, the first spins, the second opens the barrier.\<close>

definition bar_start :: bar_state where
  "bar_start = \<lparr>gs32bar = 0, gs32passed = 0, s32passed_old = (\<lambda>_. 0), bpc = (\<lambda>_. BRead),
     entered = (\<lambda>_. 0), left = (\<lambda>_. 0)\<rparr>"

lemma bar_start_init: "int n \<le> INT_MAX \<Longrightarrow> bar_init n bar_start"
  by (simp add: bar_init_def bar_start_def)

lemmas bar_run_defs = bar_next_def bar_read_def bar_add_def bar_reset_def bar_inc_load_def
  bar_inc_store_def bar_spin_def bar_start_def wrap32_id

section \<open>Properties\<close>

text \<open>Nobody passes the barrier before everybody has arrived: in every reachable state, if
  some thread has returned from its \<open>k\<close>-th call, each thread has announced at least \<open>k\<close> calls.\<close>

theorem barrier_no_early_pass:
  assumes "bar_reach n s" and "i < n" and "j < n"
  shows "left s i \<le> entered s j"
proof -
  obtain P where inv: "bar_inv_at n P s" using bar.reach_inv [OF assms(1)] by (auto simp: bar_inv_def)
  have "left s i \<le> P" using bar_inv_atD(3) [OF inv assms(2)] by (cases "bpc s i") auto
  also have "P \<le> entered s j" using bar_inv_atD(3) [OF inv assms(3)] by (cases "bpc s j") auto
  finally show ?thesis .
qed

theorem barrier_no_early_pass_witness:
  "\<exists>s. bar_reach 2 s \<and> left s 1 = 1 \<and> bpc s 0 = BSpin \<and> left s 1 \<le> entered s 0"
proof -
  let ?es = "[(0, ()), (0, ()), (1, ()), (1, ()), (1, ()), (1, ()), (1, ())]"
  obtain t where t: "run (bar_next 2) ?es bar_start = Some t" "left t 1 = 1" "bpc t 0 = BSpin"
    by (simp add: bar_run_defs)
  have r: "bar_reach 2 t"
    by (rule run_reach [OF _ t(1)]) (simp_all add: bar_start_init)
  have "left t 1 \<le> entered t 0" by (rule barrier_no_early_pass [OF r]) simp_all
  with r t(2,3) show ?thesis by (intro exI [of _ t]) simp
qed

text \<open>Episodes never overlap by more than one, and the counter \<open>gs32bar\<close> stays between 0 and
  the number of threads, so its 32-bit arithmetic never wraps around.\<close>

theorem barrier_lockstep_bounds:
  assumes "bar_reach n s" and "i < n" and "j < n"
  shows "entered s i \<le> Suc (entered s j) \<and> left s i \<le> Suc (left s j) \<and> 0 \<le> gs32bar s \<and> gs32bar s \<le> int n"
proof -
  obtain P where inv: "bar_inv_at n P s" using bar.reach_inv [OF assms(1)] by (auto simp: bar_inv_def)
  have k: "entered s k \<in> {P, Suc P} \<and> left s k \<le> P \<and> P \<le> Suc (left s k)" if "k < n" for k
    using bar_inv_atD(3) [OF inv that] by (cases "bpc s k") auto
  have "entered s i \<le> Suc (entered s j)" "left s i \<le> Suc (left s j)"
    using k [OF assms(2)] k [OF assms(3)] by auto
  moreover have "0 \<le> gs32bar s \<and> gs32bar s \<le> int n"
    using bar_inv_atD(5,6) [OF inv] tally_le [of n "\<lambda>e. e = Suc P" "entered s"]
    by (cases "\<exists>k<n. bar_opening (bpc s k)") auto
  ultimately show ?thesis by blast
qed

theorem barrier_lockstep_bounds_witness:
  "\<exists>s. bar_reach 2 s \<and> entered s 0 = 1 \<and> gs32bar s = 1 \<and> entered s 0 \<le> Suc (entered s 1)"
proof -
  let ?es = "[(0, ()), (0, ())]"
  obtain t where t: "run (bar_next 2) ?es bar_start = Some t" "entered t 0 = 1" "gs32bar t = 1"
    by (simp add: bar_run_defs)
  have r: "bar_reach 2 t" by (rule run_reach [OF _ t(1)]) (simp_all add: bar_start_init)
  with barrier_lockstep_bounds [OF r, of 0 1] t show ?thesis by auto
qed

text \<open>C19: the barrier can be used again and again without deadlock: from every reachable state, for
  every \<open>K\<close>, some schedule lets all threads return from \<open>K\<close> calls.\<close>

theorem barrier_reusable:
  assumes "bar_reach n s"
  shows "\<exists>t. (bar_step n)\<^sup>*\<^sup>* s t \<and> (\<forall>i<n. K \<le> left t i)"
  using bar.can_finish [of n s K] bar.reach_inv [OF assms] by (auto simp: bar_rounds_def)

theorem barrier_reusable_witness:
  "\<exists>s t. bar_reach 8 s \<and> (bar_step 8)\<^sup>*\<^sup>* s t \<and> (\<forall>i<8. 3 \<le> left t i)"
proof -
  have "bar_reach 8 bar_start" by (rule reach_init) (simp add: bar_start_init)
  with barrier_reusable [of 8 bar_start 3] show ?thesis by blast
qed

text \<open>The hang under \<open>SCHED_FIFO\<close> that \<open>lab02/readme.txt\<close> reports (question 2): as long as the
  scheduler does not run thread \<open>j\<close>, the spinning threads never let one of them pass a barrier
  that \<open>j\<close> has not reached, however long they run; so a core that never switches to \<open>j\<close> is stuck.\<close>

theorem barrier_starved_thread_blocks:
  assumes "bar_reach n s" and "run (bar_next n) es s = Some t"
    and "\<forall>(i, c) \<in> set es. i < n \<and> i \<noteq> j" and "i < n" and "j < n"
  shows "left t i \<le> entered s j"
proof -
  have "(bar_step n)\<^sup>*\<^sup>* s t" using assms(2,3) by (intro run_steps) auto
  then have "bar_reach n t" by (rule reach_steps [OF assms(1)])
  then obtain P where inv: "bar_inv_at n P t" using bar.reach_inv unfolding bar_inv_def by blast
  have "left t i \<le> P" using bar_inv_atD(3) [OF inv assms(4)] by (cases "bpc t i") auto
  also have "P \<le> entered t j" using bar_inv_atD(3) [OF inv assms(5)] by (cases "bpc t j") auto
  also have "entered t j = entered s j" using assms(2,3) by (intro bar_run_frame) auto
  finally show ?thesis .
qed

theorem barrier_starved_thread_blocks_witness:
  "\<exists>t. run (bar_next 3) [(0, ()), (0, ()), (1, ()), (1, ()), (0, ())] bar_start = Some t
     \<and> entered t 0 = 1 \<and> left t 0 \<le> entered bar_start 2"
proof -
  let ?es = "[(0, ()), (0, ()), (1, ()), (1, ()), (0, ())]"
  obtain t where t: "run (bar_next 3) ?es bar_start = Some t" "entered t 0 = 1"
    by (simp add: bar_run_defs)
  have "bar_reach 3 bar_start" by (rule reach_init) (simp add: bar_start_init)
  then have "left t 0 \<le> entered bar_start 2"
    by (rule barrier_starved_thread_blocks [OF _ t(1)]) simp_all
  with t show ?thesis by blast
qed

end
