(* ===== verification/SleepBarrier.thy ===== *)
theory SleepBarrier
  imports LockSpec
begin

text \<open>
  The sleeping barrier of \<open>lab02/src/main.c\<close> (the \<open>CUSTOM_BARRIER\<close> branch of \<open>work_fxn\<close>, the counter
  set up by \<open>main\<close>): a counter of the threads still missing, a mutex and a condition variable, each
  thread passing once. The pthread calls have their documented meaning: \<open>pthread_cond_wait\<close> releases
  the mutex and sleeps in one atomic action, takes the mutex again before it returns, and may return
  without a broadcast; \<open>pthread_cond_broadcast\<close> wakes every sleeper.
\<close>

text \<open>
  Where a thread is: at \<open>pthread_mutex_lock\<close> (line 176), at the decrement (177), at the test (178), at the
  broadcast (180), at the loop test (184), at \<open>pthread_cond_wait\<close> (186), asleep in it, taking the
  mutex again in it, at \<open>pthread_mutex_unlock\<close> (189), past the barrier.
\<close>

datatype cond_pc = CLock | CDec | CTest | CBroadcast | CWhile | CCondWait | CAsleep | CRelock | CUnlock | CPast

record cond_state =
  gs32remain :: int
  gmutex_barrier :: "nat option"
  cpc :: "nat \<Rightarrow> cond_pc"

definition cond_init :: "nat \<Rightarrow> cond_state \<Rightarrow> bool" where
  "cond_init s32threadcnt s \<longleftrightarrow> int s32threadcnt \<le> INT_MAX \<and> gs32remain s = int s32threadcnt
     \<and> gmutex_barrier s = None \<and> cpc s = (\<lambda>_. CLock)"

definition cond_goto :: "nat \<Rightarrow> cond_pc \<Rightarrow> cond_state \<Rightarrow> cond_state" where
  "cond_goto i p s = s\<lparr>cpc := (cpc s)(i := p)\<rparr>"

definition cond_take :: "nat \<Rightarrow> cond_pc \<Rightarrow> cond_state \<Rightarrow> cond_state option" where
  "cond_take i p s =
     (if gmutex_barrier s = None then Some (cond_goto i p (s\<lparr>gmutex_barrier := Some i\<rparr>)) else None)"

definition cond_dec :: "nat \<Rightarrow> cond_state \<Rightarrow> cond_state" where
  "cond_dec i s = cond_goto i CTest (s\<lparr>gs32remain := wrap32 (gs32remain s - 1)\<rparr>)"

definition cond_broadcast :: "nat \<Rightarrow> cond_state \<Rightarrow> cond_state" where
  "cond_broadcast i s =
     s\<lparr>cpc := (\<lambda>j. if cpc s j = CAsleep then CRelock else cpc s j)(i := CUnlock)\<rparr>"

definition cond_wait :: "nat \<Rightarrow> cond_state \<Rightarrow> cond_state" where
  "cond_wait i s = cond_goto i CAsleep (s\<lparr>gmutex_barrier := None\<rparr>)"

definition cond_unlock :: "nat \<Rightarrow> cond_state \<Rightarrow> cond_state" where
  "cond_unlock i s = cond_goto i CPast (s\<lparr>gmutex_barrier := None\<rparr>)"

definition cond_next :: "nat \<Rightarrow> bool \<Rightarrow> cond_state \<Rightarrow> cond_state option" where
  "cond_next i early s =
     (case cpc s i of
        CLock \<Rightarrow> cond_take i CDec s
      | CDec \<Rightarrow> Some (cond_dec i s)
      | CTest \<Rightarrow> Some (cond_goto i (if gs32remain s = 0 then CBroadcast else CWhile) s)
      | CBroadcast \<Rightarrow> Some (cond_broadcast i s)
      | CWhile \<Rightarrow> Some (cond_goto i (if gs32remain s \<noteq> 0 then CCondWait else CUnlock) s)
      | CCondWait \<Rightarrow> Some (cond_wait i s)
      | CAsleep \<Rightarrow> if early then Some (cond_goto i CRelock s) else None
      | CRelock \<Rightarrow> cond_take i CWhile s
      | CUnlock \<Rightarrow> Some (cond_unlock i s)
      | CPast \<Rightarrow> None)"

abbreviation cond_step :: "nat \<Rightarrow> cond_state \<Rightarrow> cond_state \<Rightarrow> bool" where
  "cond_step \<equiv> sched cond_next"

abbreviation cond_reach :: "nat \<Rightarrow> cond_state \<Rightarrow> bool" where
  "cond_reach n \<equiv> reach (cond_init n) (cond_step n)"

lemmas cond_defs = cond_goto_def cond_take_def cond_dec_def cond_broadcast_def cond_wait_def
  cond_unlock_def

section \<open>The invariant\<close>

fun cond_holds :: "cond_pc \<Rightarrow> bool" where
  "cond_holds CLock = False"
| "cond_holds CAsleep = False"
| "cond_holds CRelock = False"
| "cond_holds CPast = False"
| "cond_holds _ = True"

fun cond_arrived :: "cond_pc \<Rightarrow> bool" where
  "cond_arrived CLock = False"
| "cond_arrived CDec = False"
| "cond_arrived _ = True"

text \<open>What a thread knows of the counter: \<open>r\<close> is its value.\<close>

fun cond_local :: "int \<Rightarrow> cond_pc \<Rightarrow> bool" where
  "cond_local r CBroadcast \<longleftrightarrow> r = 0"
| "cond_local r CUnlock \<longleftrightarrow> r = 0"
| "cond_local r CPast \<longleftrightarrow> r = 0"
| "cond_local r CCondWait \<longleftrightarrow> r \<noteq> 0"
| "cond_local r _ \<longleftrightarrow> True"

definition cond_mutex_ok :: "nat \<Rightarrow> cond_state \<Rightarrow> bool" where
  "cond_mutex_ok n s \<longleftrightarrow> (\<forall>i<n. cond_holds (cpc s i) \<longleftrightarrow> gmutex_barrier s = Some i)
     \<and> (\<forall>i. gmutex_barrier s = Some i \<longrightarrow> i < n)"

definition cond_count_ok :: "nat \<Rightarrow> cond_state \<Rightarrow> bool" where
  "cond_count_ok n s \<longleftrightarrow> int n \<le> INT_MAX \<and>
     gs32remain s = int n - int (tally n cond_arrived (cpc s))"

definition cond_local_ok :: "nat \<Rightarrow> cond_state \<Rightarrow> bool" where
  "cond_local_ok n s \<longleftrightarrow> (\<forall>i<n. cond_local (gs32remain s) (cpc s i))"

text \<open>No wake-up is lost: when the count is complete, sleepers are followed by the broadcaster.\<close>

definition cond_wake_ok :: "nat \<Rightarrow> cond_state \<Rightarrow> bool" where
  "cond_wake_ok n s \<longleftrightarrow> gs32remain s = 0 \<longrightarrow> (\<exists>i<n. cpc s i = CAsleep) \<longrightarrow>
     (\<exists>j<n. cpc s j = CTest \<or> cpc s j = CBroadcast)"

definition cond_inv :: "nat \<Rightarrow> cond_state \<Rightarrow> bool" where
  "cond_inv n s \<longleftrightarrow> cond_mutex_ok n s \<and> cond_count_ok n s \<and> cond_local_ok n s \<and> cond_wake_ok n s"

lemma cond_mutexD: "cond_mutex_ok n s \<Longrightarrow> i < n \<Longrightarrow> cond_holds (cpc s i) \<longleftrightarrow> gmutex_barrier s = Some i"
  by (simp add: cond_mutex_ok_def)

lemma cond_localD: "cond_local_ok n s \<Longrightarrow> i < n \<Longrightarrow> cond_local (gs32remain s) (cpc s i)"
  by (simp add: cond_local_ok_def)

lemma cond_inv_init: "cond_init n s \<Longrightarrow> cond_inv n s"
  by (simp add: cond_inv_def cond_init_def cond_mutex_ok_def cond_count_ok_def cond_local_ok_def
      cond_wake_ok_def tally_def)

lemma cond_next_mutex:
  assumes "cond_mutex_ok n s" and "i < n" and "cond_next i c s = Some t"
  shows "cond_mutex_ok n t"
  unfolding cond_mutex_ok_def
proof (intro conjI allI impI)
  show "j < n" if "gmutex_barrier t = Some j" for j
    using assms that by (cases "cpc s i") (auto simp: cond_mutex_ok_def cond_next_def cond_defs split: if_splits)
next
  fix j assume "j < n"
  then show "cond_holds (cpc t j) \<longleftrightarrow> gmutex_barrier t = Some j"
    using assms(3) cond_mutexD [OF assms(1) \<open>j < n\<close>] cond_mutexD [OF assms(1,2)]
    by (cases "cpc s i"; cases "cpc s j"; cases "j = i")
      (auto simp: cond_next_def cond_defs split: if_splits)
qed

text \<open>While some thread has not arrived the counter is positive.\<close>

lemma cond_remain_pos:
  assumes "cond_count_ok n s" and "i < n" and "\<not> cond_arrived (cpc s i)"
  shows "0 < gs32remain s" and "gs32remain s \<le> INT_MAX"
  using assms tally_less [of i n cond_arrived "cpc s"] by (auto simp: cond_count_ok_def)

lemma cond_next_arrived:
  "cond_next i c s = Some t \<Longrightarrow> cpc s i \<noteq> CDec \<Longrightarrow> cond_arrived (cpc t j) = cond_arrived (cpc s j)"
  by (cases "cpc s i"; cases "j = i") (auto simp: cond_next_def cond_defs split: if_splits)

lemma cond_next_remain: "cond_next i c s = Some t \<Longrightarrow> cpc s i \<noteq> CDec \<Longrightarrow> gs32remain t = gs32remain s"
  by (cases "cpc s i") (auto simp: cond_next_def cond_defs split: if_splits)

lemma cond_dec_remain:
  assumes "cond_count_ok n s" and "i < n" and "cpc s i = CDec"
  shows "gs32remain (cond_dec i s) = gs32remain s - 1"
  using cond_remain_pos [OF assms(1,2)] assms(3) by (simp add: cond_dec_def cond_goto_def wrap32_id)

lemma cond_next_count:
  assumes "cond_count_ok n s" and "i < n" and "cond_next i c s = Some t"
  shows "cond_count_ok n t"
proof (cases "cpc s i = CDec")
  case True
  then have t: "t = cond_dec i s" using assms(3) by (simp add: cond_next_def)
  have "tally n cond_arrived ((cpc s)(i := CTest)) = Suc (tally n cond_arrived (cpc s))"
    using tally_upd [of i n cond_arrived "cpc s" CTest] assms(2) True by simp
  then show ?thesis
    using assms(1) cond_dec_remain [OF assms(1,2) True] unfolding t
    by (simp add: cond_count_ok_def cond_dec_def cond_goto_def)
next
  case False
  then show ?thesis
    using assms(1) cond_next_arrived [OF assms(3)] cond_next_remain [OF assms(3)]
    by (simp add: cond_count_ok_def tally_def)
qed

lemma cond_next_local:
  assumes "cond_inv n s" and "i < n" and "cond_next i c s = Some t"
  shows "cond_local_ok n t"
  unfolding cond_local_ok_def
proof (intro allI impI)
  fix j assume j: "j < n"
  have m: "cond_mutex_ok n s" and k: "cond_count_ok n s" and l: "cond_local_ok n s"
    using assms(1) by (simp_all add: cond_inv_def)
  show "cond_local (gs32remain t) (cpc t j)"
  proof (cases "cpc s i = CDec")
    case True
    have "cpc s j \<noteq> CCondWait"
      using cond_mutexD [OF m j] cond_mutexD [OF m assms(2)] True by auto
    moreover have "0 < gs32remain s" using cond_remain_pos(1) [OF k assms(2)] True by simp
    ultimately show ?thesis
      using True assms(3) cond_localD [OF l j]
      by (cases "cpc s j"; cases "j = i") (auto simp: cond_next_def cond_defs)
  next
    case False
    then show ?thesis
      using assms(3) cond_next_remain [OF assms(3)] cond_localD [OF l j] cond_localD [OF l assms(2)]
      by (cases "cpc s i"; cases "j = i") (auto simp: cond_next_def cond_defs split: if_splits)
  qed
qed

lemma cond_next_other:
  "cond_next i c s = Some t \<Longrightarrow> cpc s i \<noteq> CBroadcast \<Longrightarrow> j \<noteq> i \<Longrightarrow> cpc t j = cpc s j"
  by (cases "cpc s i") (auto simp: cond_next_def cond_defs split: if_splits)

lemma cond_next_wake:
  assumes "cond_inv n s" and i: "i < n" and nx: "cond_next i c s = Some t"
  shows "cond_wake_ok n t"
  unfolding cond_wake_ok_def
proof (intro impI)
  assume r: "gs32remain t = 0" and "\<exists>k<n. cpc t k = CAsleep"
  then obtain k where k: "k < n" "cpc t k = CAsleep" by blast
  have l: "cond_local_ok n s" and w: "cond_wake_ok n s" using assms(1) by (simp_all add: cond_inv_def)
  show "\<exists>j<n. cpc t j = CTest \<or> cpc t j = CBroadcast"
  proof (cases "cpc s i = CDec")
    case True
    then have "cpc t i = CTest" using nx by (auto simp: cond_next_def cond_defs)
    with i show ?thesis by blast
  next
    case False
    then have rs: "gs32remain s = 0" using r cond_next_remain [OF nx] by simp
    have nb: "cpc s i \<noteq> CBroadcast"
    proof
      assume "cpc s i = CBroadcast"
      with nx k(2) show False by (auto simp: cond_next_def cond_defs split: if_splits)
    qed
    have "cpc s i \<noteq> CCondWait" using cond_localD [OF l i] rs by auto
    then have "k \<noteq> i" using nx k(2) rs nb False
      by (cases "cpc s i") (auto simp: cond_next_def cond_defs split: if_splits)
    then have "cpc s k = CAsleep" using cond_next_other [OF nx nb] k(2) by simp
    then obtain j where j: "j < n" "cpc s j = CTest \<or> cpc s j = CBroadcast"
      using w rs k(1) unfolding cond_wake_ok_def by blast
    show ?thesis
    proof (cases "j = i")
      case True
      then have "cpc t i = CBroadcast" using j(2) nb nx rs by (auto simp: cond_next_def cond_defs)
      with i show ?thesis by blast
    next
      case False
      with j cond_next_other [OF nx nb] show ?thesis by auto
    qed
  qed
qed

lemma cond_inv_next: "cond_inv n s \<Longrightarrow> i < n \<Longrightarrow> cond_next i c s = Some t \<Longrightarrow> cond_inv n t"
  using cond_next_mutex cond_next_count cond_next_local cond_next_wake unfolding cond_inv_def by blast

interpretation cnd: invariant_system "cond_init n" "cond_step n" "cond_inv n" for n
proof unfold_locales
  show "cond_init n s \<Longrightarrow> cond_inv n s" for s by (rule cond_inv_init)
  show "cond_inv n s \<Longrightarrow> cond_step n s t \<Longrightarrow> cond_inv n t" for s t
    by (auto elim!: schedE intro: cond_inv_next)
qed

section \<open>Refinement of the abstract barrier\<close>

text \<open>A thread arrives by its decrement and departs by its final release of the mutex.\<close>

definition cond_events :: "nat \<Rightarrow> cond_state \<Rightarrow> cond_state \<Rightarrow> barrier_event list" where
  "cond_events i s t =
     (if cpc s i = CDec then [Arrive i] else if cpc s i = CUnlock then [Depart i] else [])"

definition cond_calls :: "cond_state \<Rightarrow> barrier" where
  "cond_calls s = (\<lambda>i. if cond_arrived (cpc s i) then 1 else 0, \<lambda>i. if cpc s i = CPast then 1 else 0)"

lemma cond_next_past:
  "cond_next i c s = Some t \<Longrightarrow> cpc s i \<noteq> CUnlock \<Longrightarrow> cpc t j = CPast \<longleftrightarrow> cpc s j = CPast"
  by (cases "cpc s i"; cases "j = i") (auto simp: cond_next_def cond_defs split: if_splits)

lemma cond_all_arrived:
  assumes "cond_inv n s" and "gs32remain s = 0" and "j < n"
  shows "cond_arrived (cpc s j)"
  using assms cond_remain_pos(1) [of n s j] by (force simp: cond_inv_def)

lemma cond_simulates:
  assumes inv: "cond_inv n s" and i: "i < n" and nx: "cond_next i c s = Some t"
  shows "each (barrier_step n) (cond_events i s t) (cond_calls s) = Some (cond_calls t)"
proof -
  consider "cpc s i = CDec" | "cpc s i = CUnlock" | "cpc s i \<noteq> CDec" "cpc s i \<noteq> CUnlock" by blast
  then show ?thesis
  proof cases
    case 1
    then have "cond_calls t = ((fst (cond_calls s))(i := 1), snd (cond_calls s))"
      using nx by (auto simp: cond_next_def cond_defs cond_calls_def fun_eq_iff split: if_splits)
    with 1 show ?thesis by (simp add: cond_events_def cond_calls_def)
  next
    case 2
    then have "cond_calls t = (fst (cond_calls s), (snd (cond_calls s))(i := 1))"
      using nx by (auto simp: cond_next_def cond_defs cond_calls_def fun_eq_iff split: if_splits)
    moreover have "gs32remain s = 0" using inv 2 cond_localD [of n s i] i by (simp add: cond_inv_def)
    ultimately show ?thesis
      using 2 cond_all_arrived [OF inv] by (simp add: cond_events_def cond_calls_def)
  next
    case 3
    then show ?thesis
      using cond_next_arrived [OF nx] cond_next_past [OF nx] by (simp add: cond_events_def cond_calls_def)
  qed
qed

interpretation cond_spec: refinement_system cond_next n "cond_inv n" cond_events "barrier_step n" cond_calls
  for n
  by unfold_locales (auto intro: cond_inv_next cond_simulates)

section \<open>Progress\<close>

fun cond_weight :: "nat \<Rightarrow> cond_pc \<Rightarrow> nat" where
  "cond_weight n CLock = 4 * n + 10"
| "cond_weight n CDec = 4 * n + 9"
| "cond_weight n CTest = 4 * n + 8"
| "cond_weight n CBroadcast = 4 * n + 7"
| "cond_weight n CRelock = 5"
| "cond_weight n CWhile = 4"
| "cond_weight n CCondWait = 3"
| "cond_weight n CAsleep = 2"
| "cond_weight n CUnlock = 1"
| "cond_weight n CPast = 0"

definition cond_work :: "nat \<Rightarrow> cond_state \<Rightarrow> nat" where
  "cond_work n s = (\<Sum>j<n. cond_weight n (cpc s j))"

definition cond_finished :: "nat \<Rightarrow> cond_state \<Rightarrow> bool" where
  "cond_finished n s \<longleftrightarrow> (\<forall>i<n. cpc s i = CPast)"

lemma cond_work_goto:
  "i < n \<Longrightarrow> cond_weight n p < cond_weight n (cpc s i) \<Longrightarrow> cpc t = (cpc s)(i := p) \<Longrightarrow>
   cond_work n t < cond_work n s"
  unfolding cond_work_def by (simp only:) (rule sum_upd_less)

text \<open>The broadcaster pays for the threads it wakes.\<close>

lemma cond_work_broadcast:
  assumes "i < n" and "cpc s i = CBroadcast"
  shows "cond_work n (cond_broadcast i s) < cond_work n s"
proof -
  let ?w = "\<lambda>t j. cond_weight n (cpc t j)" and ?A = "{..<n} - {i}"
  have i: "i \<in> {..<n}" using assms(1) by simp
  have "(\<Sum>j\<in>?A. ?w (cond_broadcast i s) j) \<le> (\<Sum>j\<in>?A. ?w s j + 3)"
    by (rule sum_mono) (auto simp: cond_broadcast_def)
  also have "\<dots> = (\<Sum>j\<in>?A. ?w s j) + 3 * card ?A" by (simp add: sum.distrib)
  also have "\<dots> \<le> (\<Sum>j\<in>?A. ?w s j) + 3 * n"
    using card_mono [of "{..<n}" ?A] by simp
  finally show ?thesis
    using assms(2) by (simp add: cond_work_def sum.remove [OF finite_lessThan i] cond_broadcast_def)
qed

lemma cond_holder_moves:
  assumes "i < n" and "cond_holds (cpc s i)"
  shows "\<exists>t. cond_next i c s = Some t \<and> cond_work n t < cond_work n s"
proof (cases "cpc s i = CBroadcast")
  case True
  then show ?thesis using cond_work_broadcast [OF assms(1)] by (simp add: cond_next_def)
next
  case False
  have "\<exists>t p. cond_next i c s = Some t \<and> cpc t = (cpc s)(i := p) \<and> cond_weight n p < cond_weight n (cpc s i)"
    using assms False by (cases "cpc s i") (auto simp: cond_next_def cond_defs)
  then show ?thesis using cond_work_goto [OF assms(1)] by blast
qed

lemma cond_taker_moves:
  assumes "i < n" and "cpc s i = CLock \<or> cpc s i = CRelock" and "gmutex_barrier s = None"
  shows "\<exists>t. cond_next i c s = Some t \<and> cond_work n t < cond_work n s"
proof -
  let ?p = "if cpc s i = CLock then CDec else CWhile"
  have "\<exists>t. cond_next i c s = Some t \<and> cpc t = (cpc s)(i := ?p)" and "cond_weight n ?p < cond_weight n (cpc s i)"
    using assms by (auto simp: cond_next_def cond_defs)
  then show ?thesis using cond_work_goto [OF assms(1)] by blast
qed

lemma cond_some_mover:
  assumes inv: "cond_inv n s" and "\<not> cond_finished n s"
  shows "\<exists>i<n. cond_holds (cpc s i) \<or> (cpc s i = CLock \<or> cpc s i = CRelock) \<and> (\<forall>j<n. \<not> cond_holds (cpc s j))"
proof (rule ccontr)
  assume no: "\<not> ?thesis"
  have h: "\<not> cond_holds (cpc s j)" if "j < n" for j using no that by blast
  have only: "cpc s j = CAsleep \<or> cpc s j = CPast" if "j < n" for j
    using no h [OF that] that by (cases "cpc s j") auto
  obtain i where i: "i < n" "cpc s i = CAsleep" using assms(2) only by (auto simp: cond_finished_def)
  have "\<forall>j<n. cond_arrived (cpc s j)" using only by fastforce
  then have "tally n cond_arrived (cpc s) = n" by (simp only: tally_full_iff)
  then have "gs32remain s = 0" using inv by (simp add: cond_inv_def cond_count_ok_def)
  then obtain j where "j < n" "cpc s j = CTest \<or> cpc s j = CBroadcast"
    using inv i unfolding cond_inv_def cond_wake_ok_def by blast
  with only show False by force
qed

text \<open>While somebody has not passed, some thread can move, without a spurious wake-up.\<close>

lemma cond_move:
  assumes inv: "cond_inv n s" and "\<not> cond_finished n s"
  shows "\<exists>i<n. \<exists>t. cond_next i False s = Some t \<and> cond_work n t < cond_work n s"
proof -
  obtain i where i: "i < n" and
    "cond_holds (cpc s i) \<or> (cpc s i = CLock \<or> cpc s i = CRelock) \<and> (\<forall>j<n. \<not> cond_holds (cpc s j))"
    using cond_some_mover [OF assms] by blast
  then consider "cond_holds (cpc s i)" | "cpc s i = CLock \<or> cpc s i = CRelock" "\<forall>j<n. \<not> cond_holds (cpc s j)" by blast
  then have "\<exists>t. cond_next i False s = Some t \<and> cond_work n t < cond_work n s"
  proof cases
    case 1
    then show ?thesis by (rule cond_holder_moves [OF i])
  next
    case 2
    have "gmutex_barrier s = None"
    proof (cases "gmutex_barrier s")
      case (Some h)
      with inv 2(2) show ?thesis by (auto simp: cond_inv_def cond_mutex_ok_def)
    qed
    then show ?thesis by (rule cond_taker_moves [OF i 2(1)])
  qed
  with i show ?thesis by blast
qed

interpretation cnd: progress_system "cond_step n" "cond_inv n" "cond_finished n" "cond_work n" for n
proof unfold_locales
  fix s
  assume inv: "cond_inv n s" and "\<not> cond_finished n s"
  with cond_move obtain i t where "i < n" "cond_next i False s = Some t" "cond_work n t < cond_work n s" by blast
  then show "\<exists>t. cond_step n s t \<and> cond_inv n t \<and> cond_work n t < cond_work n s"
    using inv by (blast intro: sched cond_inv_next)
qed

section \<open>Properties\<close>

text \<open>No wake-up of the sleeping barrier is lost: from every reachable state, with spurious wake-ups
  at any point, all threads can still pass the barrier, and whoever has passed it knows that every
  thread has arrived.\<close>

theorem cond_barrier_can_finish:
  assumes "cond_reach n s"
  shows "(\<exists>t. (cond_step n)\<^sup>*\<^sup>* s t \<and> cond_finished n t)
    \<and> (\<forall>i<n. cpc s i = CPast \<longrightarrow> (\<forall>j<n. cond_arrived (cpc s j)))"
proof
  have inv: "cond_inv n s" using assms by (rule cnd.reach_inv)
  then show "\<exists>t. (cond_step n)\<^sup>*\<^sup>* s t \<and> cond_finished n t" using cnd.can_finish by blast
  have "gs32remain s = 0" if "i < n" "cpc s i = CPast" for i
    using inv that cond_localD [of n s i] by (simp add: cond_inv_def)
  then show "\<forall>i<n. cpc s i = CPast \<longrightarrow> (\<forall>j<n. cond_arrived (cpc s j))"
    using cond_all_arrived [OF inv] by blast
qed

theorem cond_barrier_can_finish_witness:
  "\<exists>s t. cond_reach 2 s \<and> cpc s 0 = CRelock \<and> cpc s 1 = CPast \<and> cond_arrived (cpc s 0)
     \<and> (cond_step 2)\<^sup>*\<^sup>* s t \<and> cond_finished 2 t"
proof -
  let ?u = "\<lparr>gs32remain = 2, gmutex_barrier = None, cpc = (\<lambda>_. CLock)\<rparr>"
  let ?fs = "map (\<lambda>i. (i, False)) [0, 0, 0, 0, 0, 1, 1, 1, 1, 1 :: nat]"
  obtain s where s: "run cond_next ?fs ?u = Some s" "cpc s 0 = CRelock" "cpc s 1 = CPast"
    by (simp add: cond_next_def cond_defs wrap32_id)
  have r: "cond_reach 2 s" by (rule run_reach [OF _ s(1)]) (simp_all add: cond_init_def)
  obtain t where "(cond_step 2)\<^sup>*\<^sup>* s t" "cond_finished 2 t"
    using cond_barrier_can_finish [OF r] by blast
  moreover have "cond_arrived (cpc s 0)" using s(2) by simp
  ultimately show ?thesis using r s(2,3) by blast
qed

end
