(* ===== verification/CStrings.thy ===== *)
theory CStrings
  imports Prelude
begin

text \<open>
  The parts of the C library that the programs use on text: \<open>atoi\<close>, the conversion \<open>%d\<close> of
  \<open>scanf\<close> and of \<open>printf\<close> (with a field width), \<open>strncmp\<close>. A C string is the list of its
  characters before the terminating NUL. \<open>atoi\<close> is \<open>(int) strtol(s, NULL, 10)\<close>, and \<open>strtol\<close>
  stops at the ends of \<open>long\<close>, which has 32 bits on the target (the 32-bit Raspberry Pi).
\<close>

definition is_space :: "char \<Rightarrow> bool" where
  "is_space c \<longleftrightarrow> c \<in> {CHR '' '', CHR 0x09, CHR 0x0A, CHR 0x0B, CHR 0x0C, CHR 0x0D}"

definition is_digit :: "char \<Rightarrow> bool" where
  "is_digit c \<longleftrightarrow> 48 \<le> (of_char c :: nat) \<and> (of_char c :: nat) \<le> 57"

definition digit_val :: "char \<Rightarrow> int" where
  "digit_val c = int (of_char c) - 48"

definition dec_val :: "string \<Rightarrow> int" where
  "dec_val = foldl (\<lambda>a c. 10 * a + digit_val c) 0"

text \<open>An optional sign, then the rest.\<close>

fun split_sign :: "string \<Rightarrow> bool \<times> string" where
  "split_sign [] = (False, [])"
| "split_sign (c # s) =
     (if c = CHR ''-'' then (True, s) else if c = CHR ''+'' then (False, s) else (False, c # s))"

definition clamp32 :: "int \<Rightarrow> int" where
  "clamp32 v = max INT_MIN (min INT_MAX v)"

definition atoi :: "string \<Rightarrow> int" where
  "atoi s =
     (case split_sign (dropWhile is_space s) of (neg, t) \<Rightarrow>
        let v = dec_val (takeWhile is_digit t) in clamp32 (if neg then - v else v))"

text \<open>\<open>atol\<close> where \<open>long\<close> has 64 bits; there \<open>atoi\<close> keeps the low 32 bits of it.\<close>

definition atol64 :: "string \<Rightarrow> int" where
  "atol64 s =
     (case split_sign (dropWhile is_space s) of (neg, t) \<Rightarrow>
        let v = dec_val (takeWhile is_digit t) in
        max (- 9223372036854775808) (min 9223372036854775807 (if neg then - v else v)))"

definition atoi64 :: "string \<Rightarrow> int" where
  "atoi64 s = wrap32 (atol64 s)"

text \<open>\<open>%d\<close> in \<open>scanf\<close>: the number and the unread input, or a matching failure.\<close>

definition scan_d :: "string \<Rightarrow> (int \<times> string) option" where
  "scan_d s =
     (case split_sign (dropWhile is_space s) of (neg, t) \<Rightarrow>
        let ds = takeWhile is_digit t; v = dec_val ds in
        if ds = [] then None
        else Some (clamp32 (if neg then - v else v), dropWhile is_digit t))"

text \<open>\<open>%d\<close> in \<open>printf\<close>, and \<open>%<w>d\<close>.\<close>

definition digit_char :: "nat \<Rightarrow> char" where
  "digit_char d = char_of (48 + d)"

fun show_nat :: "nat \<Rightarrow> string" where
  "show_nat n = (if n < 10 then [digit_char n] else show_nat (n div 10) @ [digit_char (n mod 10)])"

declare show_nat.simps [simp del]

definition show_int :: "int \<Rightarrow> string" where
  "show_int z = (if z < 0 then CHR ''-'' # show_nat (nat (- z)) else show_nat (nat z))"

definition fmt_d :: "nat \<Rightarrow> int \<Rightarrow> string" where
  "fmt_d w z = replicate (w - length (show_int z)) CHR '' '' @ show_int z"

text \<open>\<open>strncmp(a, b, n) == 0\<close>: the first \<open>n\<close> characters agree, up to and including a NUL.\<close>

definition strn_eq :: "string \<Rightarrow> string \<Rightarrow> nat \<Rightarrow> bool" where
  "strn_eq a b n \<longleftrightarrow> take n (a @ [CHR 0x00]) = take n (b @ [CHR 0x00])"

section \<open>Numbers as text\<close>

lemma digit_char_code: "d < 10 \<Longrightarrow> (of_char (digit_char d) :: nat) = 48 + d"
  by (simp add: digit_char_def)

lemma digit_char_is_digit [simp]: "d < 10 \<Longrightarrow> is_digit (digit_char d)"
  by (simp add: is_digit_def digit_char_code)

lemma digit_val_digit_char [simp]: "d < 10 \<Longrightarrow> digit_val (digit_char d) = int d"
  by (simp add: digit_val_def digit_char_code)

lemma is_digit_not_special:
  "is_digit c \<Longrightarrow> \<not> is_space c \<and> c \<noteq> CHR ''-'' \<and> c \<noteq> CHR ''+''"
  by (auto simp: is_digit_def is_space_def)

lemma dec_val_snoc: "dec_val (s @ [c]) = 10 * dec_val s + digit_val c"
  by (simp add: dec_val_def)

lemma show_nat_digits: "\<forall>c \<in> set (show_nat n). is_digit c"
proof (induction n rule: show_nat.induct)
  case (1 n)
  then show ?case by (subst show_nat.simps) auto
qed

lemma show_nat_nonempty [simp]: "show_nat n \<noteq> []"
  by (subst show_nat.simps) simp

lemma dec_val_show_nat: "dec_val (show_nat n) = int n"
proof (induction n rule: show_nat.induct)
  case (1 n)
  show ?case
  proof (cases "n < 10")
    case True
    then show ?thesis by (subst show_nat.simps) (simp add: dec_val_def)
  next
    case False
    with 1 have "dec_val (show_nat (n div 10)) = int (n div 10)" by simp
    with False have "dec_val (show_nat n) = 10 * int (n div 10) + int (n mod 10)"
      by (subst show_nat.simps) (simp add: dec_val_snoc)
    then show ?thesis by (simp add: zdiv_int zmod_int)
  qed
qed

lemma show_nat_Cons: "\<exists>c s. show_nat n = c # s \<and> is_digit c"
  using show_nat_digits [of n] show_nat_nonempty [of n] by (cases "show_nat n") auto

lemma split_sign_show_int:
  "split_sign (dropWhile is_space (show_int z @ rest)) = (z < 0, show_nat (nat \<bar>z\<bar>) @ rest)"
proof (cases "z < 0")
  case True
  then show ?thesis by (simp add: show_int_def is_space_def)
next
  case False
  obtain c s where "show_nat (nat z) = c # s" "is_digit c" using show_nat_Cons by blast
  with False show ?thesis using is_digit_not_special [of c] by (simp add: show_int_def)
qed

lemma takeWhile_digits:
  "rest = [] \<or> \<not> is_digit (hd rest) \<Longrightarrow> takeWhile is_digit (show_nat n @ rest) = show_nat n"
  using show_nat_digits [of n] by (cases rest) (auto simp: takeWhile_append)

lemma dropWhile_digits:
  "rest = [] \<or> \<not> is_digit (hd rest) \<Longrightarrow> dropWhile is_digit (show_nat n @ rest) = rest"
  using show_nat_digits [of n] by (cases rest) (auto simp: dropWhile_append)

lemma clamp32_id: "is_int32 z \<Longrightarrow> clamp32 z = z"
  by (simp add: clamp32_def is_int32_def)

lemma clamp32_is_int32: "is_int32 (clamp32 z)"
  by (simp add: clamp32_def is_int32_def)

lemma atoi_is_int32: "is_int32 (atoi s)"
  by (simp add: atoi_def clamp32_is_int32 Let_def split: prod.split)

text \<open>Reading back what \<open>%d\<close> printed, whatever non-digit text follows.\<close>

lemma atoi_show_int:
  "is_int32 z \<Longrightarrow> rest = [] \<or> \<not> is_digit (hd rest) \<Longrightarrow> atoi (show_int z @ rest) = z"
  by (auto simp: atoi_def split_sign_show_int takeWhile_digits dec_val_show_nat clamp32_id Let_def)

lemma scan_d_show_int:
  "is_int32 z \<Longrightarrow> rest = [] \<or> \<not> is_digit (hd rest) \<Longrightarrow> scan_d (show_int z @ rest) = Some (z, rest)"
  by (auto simp: scan_d_def split_sign_show_int takeWhile_digits dropWhile_digits dec_val_show_nat
      clamp32_id Let_def)

lemma scan_d_space: "is_space c \<Longrightarrow> scan_d (c # s) = scan_d s"
  by (simp add: scan_d_def)

text \<open>
  The interface of a reader of printed numbers: the programs that pass numbers to each other as
  text (an argument of \<open>exec\<close>, a line of a FIFO, a configuration file) rely on it only.
\<close>

locale number_reader =
  fixes rd :: "string \<Rightarrow> (int \<times> string) option"
  assumes rd_show: "is_int32 z \<Longrightarrow> rest = [] \<or> \<not> is_digit (hd rest) \<Longrightarrow>
      rd (show_int z @ rest) = Some (z, rest)"
    and rd_space: "is_space c \<Longrightarrow> rd (c # s) = rd s"
begin

text \<open>A reader applied again and again to lines, each a number and a newline.\<close>

fun rd_many :: "nat \<Rightarrow> string \<Rightarrow> int list" where
  "rd_many 0 s = []"
| "rd_many (Suc k) s = (case rd s of None \<Rightarrow> [] | Some (z, r) \<Rightarrow> z # rd_many k r)"

lemma rd_spaces: "list_all is_space ws \<Longrightarrow> rd (ws @ s) = rd s"
  by (induction ws) (simp_all add: rd_space)

lemma rd_many_drop_space: "is_space c \<Longrightarrow> rd_many k (c # s) = rd_many k s"
  by (cases k) (simp_all add: rd_space)

lemma rd_many_lines:
  "\<forall>z \<in> set zs. is_int32 z \<Longrightarrow>
   rd_many (length zs) (concat (map (\<lambda>z. show_int z @ [CHR 0x0A]) zs)) = zs"
proof (induction zs)
  case Nil
  then show ?case by simp
next
  case (Cons z zs)
  have "\<not> is_digit (CHR 0x0A)" and sp: "is_space (CHR 0x0A)"
    by (simp_all add: is_digit_def is_space_def)
  with Cons show ?case by (simp add: rd_show rd_many_drop_space)
qed

end

interpretation scan: number_reader scan_d
  by unfold_locales (auto simp: scan_d_show_int scan_d_space)

end
