(* ===== verification/Lab02Config.thy ===== *)
theory Lab02Config
  imports CStrings
begin

text \<open>
  \<open>lab02/inc/profiling.h\<close>, \<open>lab02/src/profiling.c\<close> and \<open>lab02/src/parsing.c\<close>: the error table,
  the profile record, and the two parsers that fill it from the command line and from
  \<open>exp.cfg\<close>. A parser returns its error code together with the record as it leaves it, since
  an error return keeps the fields written before it.
\<close>

abbreviation (input) ERR_ARGMISS :: int where "ERR_ARGMISS \<equiv> -1"
abbreviation (input) ERR_NOSCHED :: int where "ERR_NOSCHED \<equiv> -2"
abbreviation (input) ERR_NPOSR :: int where "ERR_NPOSR \<equiv> -3"
abbreviation (input) ERR_NPOSI :: int where "ERR_NPOSI \<equiv> -4"
abbreviation (input) ERR_THREAD_CREATE :: int where "ERR_THREAD_CREATE \<equiv> -5"
abbreviation (input) ERR_MALLOC :: int where "ERR_MALLOC \<equiv> -6"
abbreviation (input) ERR_SET_POLICY :: int where "ERR_SET_POLICY \<equiv> -7"
abbreviation (input) ERR_PIN_CORE :: int where "ERR_PIN_CORE \<equiv> -8"
abbreviation (input) ERR_SET_BARRIER :: int where "ERR_SET_BARRIER \<equiv> -9"
abbreviation (input) ERR_DES_BARRIER :: int where "ERR_DES_BARRIER \<equiv> -10"
abbreviation (input) ERR_INIT_MUTEX :: int where "ERR_INIT_MUTEX \<equiv> -11"
abbreviation (input) ERR_DES_MUTEX :: int where "ERR_DES_MUTEX \<equiv> -12"
abbreviation (input) ERR_CFGFILE :: int where "ERR_CFGFILE \<equiv> -13"
abbreviation (input) ERR_SET_PRIORITY :: int where "ERR_SET_PRIORITY \<equiv> -14"
abbreviation (input) ERR_UNDEF :: int where "ERR_UNDEF \<equiv> -99"

text \<open>Scheduling policies, with the numbers of Linux.\<close>

abbreviation (input) SCHED_OTHER :: int where "SCHED_OTHER \<equiv> 0"
abbreviation (input) SCHED_FIFO :: int where "SCHED_FIFO \<equiv> 1"
abbreviation (input) SCHED_RR :: int where "SCHED_RR \<equiv> 2"

record error_entry =
  s32eno :: int
  acerrmsg :: string

record prof_arg =
  s32pthpercore :: int
  as32prio :: "int list"
  s32sched_policy :: int
  s32round :: int
  s32iter :: int
  s32cnt :: int
  ps32cabin :: "int list option"

section \<open>The error table\<close>

definition gastrerrlist :: "error_entry list" where
  "gastrerrlist =
    [\<lparr>s32eno = ERR_ARGMISS, acerrmsg = ''Argument Missing!''\<rparr>,
     \<lparr>s32eno = ERR_NOSCHED, acerrmsg = ''Policy SCHED_[RR/FIFO/OTHER] Only!''\<rparr>,
     \<lparr>s32eno = ERR_NPOSR, acerrmsg = ''Round should be a Postive integer!''\<rparr>,
     \<lparr>s32eno = ERR_NPOSI, acerrmsg = ''Iter should be a Postive integer!''\<rparr>,
     \<lparr>s32eno = ERR_THREAD_CREATE, acerrmsg = ''Fail to Create thread!''\<rparr>,
     \<lparr>s32eno = ERR_MALLOC, acerrmsg = ''Memory Allocate Fail!''\<rparr>,
     \<lparr>s32eno = ERR_SET_POLICY, acerrmsg = ''Set Scheduler for thread Error!''\<rparr>,
     \<lparr>s32eno = ERR_PIN_CORE, acerrmsg = ''Pin thread on CPU Error!''\<rparr>,
     \<lparr>s32eno = ERR_SET_BARRIER, acerrmsg = ''Init Barrier Error!''\<rparr>,
     \<lparr>s32eno = ERR_DES_BARRIER, acerrmsg = ''Destroy Barrier Error!''\<rparr>,
     \<lparr>s32eno = ERR_INIT_MUTEX, acerrmsg = ''Init Mutex Fail!''\<rparr>,
     \<lparr>s32eno = ERR_DES_MUTEX, acerrmsg = ''Destroy Mutex Error!''\<rparr>,
     \<lparr>s32eno = ERR_CFGFILE, acerrmsg = ''Open ext.cfg File Error!''\<rparr>,
     \<lparr>s32eno = ERR_SET_PRIORITY, acerrmsg = ''Set Priority Error!''\<rparr>,
     \<lparr>s32eno = ERR_UNDEF, acerrmsg = ''Undefined Error!''\<rparr>]"

definition geterrlistlen :: nat where
  "geterrlistlen = length gastrerrlist"

text \<open>The search loop of \<open>geterrmsg\<close>: the value of \<open>s32i\<close> when it ends.\<close>

function geterr_loop :: "int \<Rightarrow> nat \<Rightarrow> nat" where
  "geterr_loop eno i =
     (if i < geterrlistlen then
        if s32eno (gastrerrlist ! i) = eno then i else geterr_loop eno (i + 1)
      else i)"
  by pat_completeness auto
termination
  by (relation "measure (\<lambda>(eno, i). geterrlistlen - i)") auto

declare geterr_loop.simps [simp del]

definition geterrmsg :: "int \<Rightarrow> string" where
  "geterrmsg eno =
     (let i = geterr_loop eno 0;
          i' = (if geterrlistlen \<le> i then i - 1 else i)
      in acerrmsg (gastrerrlist ! i'))"

definition print_error :: "int \<Rightarrow> string" where
  "print_error eno = ''ERROR['' @ fmt_d 3 eno @ '']: '' @ geterrmsg eno @ [CHR 0x0A]"

definition print_prof_arg :: "prof_arg \<Rightarrow> string" where
  "print_prof_arg a =
     (if s32sched_policy a = SCHED_OTHER then ''Sched: SCHED_OTHER''
      else if s32sched_policy a = SCHED_RR then ''Sched: SCHED_RR''
      else if s32sched_policy a = SCHED_FIFO then ''Sched: SCHED_FIFO''
      else ''Sched: UNKNOWN'') @ [CHR 0x0A] @
     ''PthPerCore ['' @ fmt_d 5 (s32pthpercore a) @ '']'' @ [CHR 0x0A] @
     ''Prio ['' @ fmt_d 2 (as32prio a ! 0) @ ''] ['' @ fmt_d 2 (as32prio a ! 1) @ '']'' @ [CHR 0x0A] @
     ''Round ['' @ fmt_d 5 (s32round a) @ '']'' @ [CHR 0x0A] @
     ''Iter  ['' @ fmt_d 5 (s32iter a) @ '']'' @ [CHR 0x0A] @
     ''DLen  ['' @ fmt_d 5 (s32cnt a) @ '']'' @ [CHR 0x0A] @ ''Data List:'' @
     concat (map (\<lambda>i. '' '' @ show_int (the (ps32cabin a) ! i)) [0..<nat (s32cnt a)]) @ [CHR 0x0A]"

section \<open>The parsers\<close>

definition check_sched_policy :: "string \<Rightarrow> int \<Rightarrow> int \<times> int" where
  "check_sched_policy pcpolicy old =
     (if pcpolicy = ''SCHED_RR'' then (0, SCHED_RR)
      else if pcpolicy = ''SCHED_FIFO'' then (0, SCHED_FIFO)
      else if pcpolicy = ''SCHED_OTHER'' then (0, SCHED_OTHER)
      else (ERR_NOSCHED, old))"

text \<open>
  \<open>malloc k\<close> stands for \<open>malloc(sizeof(int) * k)\<close>: \<open>None\<close> for \<open>NULL\<close>, or a block of \<open>k\<close> integers
  with any content.
\<close>

definition fill_cabin :: "string list \<Rightarrow> nat \<Rightarrow> int list \<Rightarrow> int list" where
  "fill_cabin argv cnt cabin = foldl (\<lambda>cab i. cab[i := atoi (argv ! (i + 4))]) cabin [0..<cnt]"

definition parsing_input :: "(nat \<Rightarrow> int list option) \<Rightarrow> string list \<Rightarrow> prof_arg \<Rightarrow> int \<times> prof_arg" where
  "parsing_input malloc argv a =
     (if length argv < 5 then (ERR_ARGMISS, a)
      else case check_sched_policy (argv ! 1) (s32sched_policy a) of (s32ret, pol) \<Rightarrow>
        let a1 = a\<lparr>s32sched_policy := pol\<rparr> in
        if s32ret \<noteq> 0 then (s32ret, a1)
        else let a2 = a1\<lparr>s32round := atoi (argv ! 2)\<rparr> in
        if s32round a2 \<le> 0 then (ERR_NPOSR, a2)
        else let a3 = a2\<lparr>s32iter := atoi (argv ! 3)\<rparr> in
        if s32iter a3 \<le> 0 then (ERR_NPOSI, a3)
        else let cnt = length argv - 4;
                 a4 = a3\<lparr>s32cnt := int cnt, ps32cabin := malloc cnt\<rparr> in
        case ps32cabin a4 of
          None \<Rightarrow> (ERR_MALLOC, a4)
        | Some cabin \<Rightarrow> (0, a4\<lparr>ps32cabin := Some (fill_cabin argv cnt cabin)\<rparr>))"

text \<open>
  \<open>fscanf(fp, "%d %d %d\n", ...)\<close>: each conversion stores its number; the first failure ends the
  call. The result of \<open>fscanf\<close> is not used.
\<close>

definition scan_into :: "(int \<Rightarrow> prof_arg \<Rightarrow> prof_arg) \<Rightarrow> string option \<times> prof_arg \<Rightarrow> string option \<times> prof_arg" where
  "scan_into store sa =
     (case sa of (None, a) \<Rightarrow> (None, a)
      | (Some s, a) \<Rightarrow>
          (case scan_d s of None \<Rightarrow> (None, a) | Some (z, r) \<Rightarrow> (Some r, store z a)))"

definition parsing_cfgfile :: "string option \<Rightarrow> prof_arg \<Rightarrow> int \<times> prof_arg" where
  "parsing_cfgfile fp a =
     (case fp of
        None \<Rightarrow> (ERR_CFGFILE, a)
      | Some text \<Rightarrow>
          (0, snd (scan_into (\<lambda>z a. a\<lparr>as32prio := (as32prio a)[1 := z]\<rparr>)
                    (scan_into (\<lambda>z a. a\<lparr>as32prio := (as32prio a)[0 := z]\<rparr>)
                      (scan_into (\<lambda>z a. a\<lparr>s32pthpercore := z\<rparr>) (Some text, a))))))"

section \<open>Facts about the table and the parsers\<close>

text \<open>The loop finds the first entry with the code, or runs to the end.\<close>

lemma geterr_loop_spec:
  "i \<le> geterrlistlen \<Longrightarrow>
   i \<le> geterr_loop eno i \<and> geterr_loop eno i \<le> geterrlistlen \<and>
   (geterr_loop eno i < geterrlistlen \<longrightarrow> s32eno (gastrerrlist ! geterr_loop eno i) = eno) \<and>
   (\<forall>k. i \<le> k \<and> k < geterr_loop eno i \<longrightarrow> s32eno (gastrerrlist ! k) \<noteq> eno)"
proof (induction eno i rule: geterr_loop.induct)
  case (1 eno i)
  show ?case
  proof (cases "i < geterrlistlen \<and> s32eno (gastrerrlist ! i) \<noteq> eno")
    case True
    then have eq: "geterr_loop eno i = geterr_loop eno (Suc i)"
      by (simp add: geterr_loop.simps [of eno i])
    have "s32eno (gastrerrlist ! k) \<noteq> eno" if "i \<le> k" "k < geterr_loop eno (Suc i)" for k
      using that 1 True by (cases "k = i") auto
    with 1 True show ?thesis unfolding eq by auto
  next
    case False
    with "1.prems" show ?thesis unfolding geterr_loop.simps [of eno i] by auto
  qed
qed

lemma geterr_codes_distinct: "distinct (map s32eno gastrerrlist)"
  by (simp add: gastrerrlist_def)

lemma geterrlistlen_15: "geterrlistlen = 15"
  by (simp add: geterrlistlen_def gastrerrlist_def)

lemma geterr_loop_known:
  assumes "k < geterrlistlen" and "s32eno (gastrerrlist ! k) = eno"
  shows "geterr_loop eno 0 = k"
proof -
  let ?j = "geterr_loop eno 0"
  note spec = geterr_loop_spec [of 0 eno, simplified]
  have "?j \<le> k"
  proof (rule ccontr)
    assume "\<not> ?j \<le> k"
    with spec assms(2) show False by simp
  qed
  with assms(1) have "?j < geterrlistlen" by simp
  with spec have "s32eno (gastrerrlist ! ?j) = eno" by blast
  with assms \<open>?j < geterrlistlen\<close> show ?thesis
    using geterr_codes_distinct by (auto simp: distinct_conv_nth geterrlistlen_def)
qed

lemma geterr_loop_unknown:
  assumes "\<forall>e \<in> set gastrerrlist. s32eno e \<noteq> eno"
  shows "geterr_loop eno 0 = geterrlistlen"
proof (rule ccontr)
  assume "geterr_loop eno 0 \<noteq> geterrlistlen"
  with geterr_loop_spec [of 0 eno] have "geterr_loop eno 0 < geterrlistlen"
    and "s32eno (gastrerrlist ! geterr_loop eno 0) = eno" by auto
  with assms show False by (simp add: geterrlistlen_def)
qed

lemma fill_cabin_length [simp]: "length (fill_cabin argv cnt cabin) = length cabin"
proof -
  have "length (foldl (\<lambda>cab i. cab[i := f i]) cabin ks) = length cabin"
    for f :: "nat \<Rightarrow> int" and ks
    by (induction ks arbitrary: cabin) simp_all
  then show ?thesis by (simp add: fill_cabin_def)
qed

text \<open>The fill loop overwrites every cell, whatever the fresh block held.\<close>

lemma fill_cabin_eq:
  "length cabin = cnt \<Longrightarrow> fill_cabin argv cnt cabin = map (\<lambda>i. atoi (argv ! (i + 4))) [0..<cnt]"
proof -
  have step: "k \<le> length cabin \<Longrightarrow>
      foldl (\<lambda>cab i. cab[i := f i]) cabin [0..<k] = map f [0..<k] @ drop k cabin"
    for f :: "nat \<Rightarrow> int" and k
  proof (induction k)
    case 0
    then show ?case by simp
  next
    case (Suc k)
    then have "drop k cabin = cabin ! k # drop (Suc k) cabin" by (simp add: Cons_nth_drop_Suc)
    with Suc show ?case by (simp add: list_update_append)
  qed
  then show "length cabin = cnt \<Longrightarrow> ?thesis" by (simp add: fill_cabin_def step)
qed

text \<open>What the profiling program needs of its configuration.\<close>

definition prof_arg_ok :: "prof_arg \<Rightarrow> bool" where
  "prof_arg_ok a \<longleftrightarrow>
     s32sched_policy a \<in> {SCHED_OTHER, SCHED_FIFO, SCHED_RR} \<and> 0 < s32round a \<and> 0 < s32iter a \<and>
     0 < s32cnt a \<and> (\<exists>cabin. ps32cabin a = Some cabin \<and> int (length cabin) = s32cnt a)"

lemma check_sched_policy_ok:
  "fst (check_sched_policy p old) = 0 \<longleftrightarrow> p \<in> {''SCHED_RR'', ''SCHED_FIFO'', ''SCHED_OTHER''}"
  "fst (check_sched_policy p old) = 0 \<Longrightarrow> snd (check_sched_policy p old) \<in> {SCHED_OTHER, SCHED_FIFO, SCHED_RR}"
  by (auto simp: check_sched_policy_def split: if_splits)

lemma scan_into_printed:
  assumes "list_all is_space ws" and "is_int32 z" and "rest = [] \<or> \<not> is_digit (hd rest)"
  shows "scan_into store (Some (ws @ show_int z @ rest), a) = (Some rest, store z a)"
  using assms by (simp add: scan_into_def scan.rd_spaces scan.rd_show)

lemma scan_into_fails:
  "scan_into store (None, a) = (None, a)"
  "scan_d s = None \<Longrightarrow> scan_into store (Some s, a) = (None, a)"
  by (simp_all add: scan_into_def)

lemma parsing_input_success:
  assumes "\<And>k b. malloc k = Some b \<Longrightarrow> length b = k" and "parsing_input malloc argv a = (0, b)"
  shows "5 \<le> length argv" and "0 < atoi (argv ! 2)" and "0 < atoi (argv ! 3)"
    and "argv ! 1 \<in> {''SCHED_RR'', ''SCHED_FIFO'', ''SCHED_OTHER''}"
    and "b = a\<lparr>s32sched_policy := snd (check_sched_policy (argv ! 1) (s32sched_policy a)),
              s32round := atoi (argv ! 2), s32iter := atoi (argv ! 3), s32cnt := int (length argv - 4),
              ps32cabin := Some (map atoi (drop 4 argv))\<rparr>"
proof -
  let ?c = "check_sched_policy (argv ! 1) (s32sched_policy a)" and ?cnt = "length argv - 4"
  have l: "\<not> length argv < 5" using assms(2) by (auto simp: parsing_input_def)
  have c: "fst ?c = 0" and r: "0 < atoi (argv ! 2)" and i: "0 < atoi (argv ! 3)"
    using assms(2) l by (auto simp: parsing_input_def Let_def split: if_splits prod.splits)
  then obtain cab where m: "malloc ?cnt = Some cab"
    using assms(2) l by (auto simp: parsing_input_def Let_def split: prod.splits option.splits)
  have "fill_cabin argv ?cnt cab = map (\<lambda>i. atoi (argv ! (i + 4))) [0..<?cnt]"
    by (rule fill_cabin_eq) (rule assms(1) [OF m])
  also have "\<dots> = map atoi (drop 4 argv)" by (rule nth_equalityI) (simp_all add: add.commute)
  finally have f: "fill_cabin argv ?cnt cab = map atoi (drop 4 argv)" .
  show "5 \<le> length argv" using l by simp
  show "0 < atoi (argv ! 2)" "0 < atoi (argv ! 3)" using r i by auto
  show "argv ! 1 \<in> {''SCHED_RR'', ''SCHED_FIFO'', ''SCHED_OTHER''}" using c check_sched_policy_ok(1) by blast
  show "b = a\<lparr>s32sched_policy := snd ?c, s32round := atoi (argv ! 2), s32iter := atoi (argv ! 3),
      s32cnt := int ?cnt, ps32cabin := Some (map atoi (drop 4 argv))\<rparr>"
    using assms(2) l c r i m f by (auto simp: parsing_input_def Let_def split: prod.splits)
qed

lemma parsing_input_arg_ok:
  assumes "\<And>k b. malloc k = Some b \<Longrightarrow> length b = k" and "parsing_input malloc argv a = (0, b)"
  shows "prof_arg_ok b"
proof -
  note ok = parsing_input_success [OF assms]
  have "fst (check_sched_policy (argv ! 1) (s32sched_policy a)) = 0" using ok(4) check_sched_policy_ok(1) by blast
  then have "snd (check_sched_policy (argv ! 1) (s32sched_policy a)) \<in> {SCHED_OTHER, SCHED_FIFO, SCHED_RR}"
    by (rule check_sched_policy_ok(2))
  then show ?thesis using ok(1-3) ok(5) by (simp add: prof_arg_ok_def)
qed

lemma scan_into_arg_ok:
  assumes "\<And>z x. prof_arg_ok x \<Longrightarrow> prof_arg_ok (store z x)" and "prof_arg_ok (snd sa)"
  shows "prof_arg_ok (snd (scan_into store sa))"
  using assms by (auto simp: scan_into_def split: prod.splits option.splits)

lemma parsing_cfgfile_arg_ok:
  assumes "parsing_cfgfile cfg a = (r, p)" and "prof_arg_ok a"
  shows "prof_arg_ok p"
proof -
  have upd: "prof_arg_ok (x\<lparr>as32prio := l\<rparr>) = prof_arg_ok x" "prof_arg_ok (x\<lparr>s32pthpercore := m\<rparr>) = prof_arg_ok x"
    for x l m by (simp_all add: prof_arg_ok_def)
  show ?thesis using assms by (auto simp: parsing_cfgfile_def upd intro!: scan_into_arg_ok split: option.splits)
qed

lemma parsing_cfgfile_keeps:
  assumes "parsing_cfgfile cfg a = (r, p)"
  shows "s32sched_policy p = s32sched_policy a" "s32round p = s32round a" "s32iter p = s32iter a" "s32cnt p = s32cnt a"
    "ps32cabin p = ps32cabin a"
  using assms by (auto simp: parsing_cfgfile_def scan_into_def split: option.splits prod.splits)

text \<open>The codes the program reports: those of the table, without that of unknown errors.\<close>

definition error_codes :: "int set" where
  "error_codes = s32eno ` set gastrerrlist - {ERR_UNDEF}"

lemma error_codes_mem [simp]:
  "ERR_ARGMISS \<in> error_codes" "ERR_NOSCHED \<in> error_codes" "ERR_NPOSR \<in> error_codes" "ERR_NPOSI \<in> error_codes"
  "ERR_THREAD_CREATE \<in> error_codes" "ERR_MALLOC \<in> error_codes" "ERR_SET_POLICY \<in> error_codes" "ERR_PIN_CORE \<in> error_codes"
  "ERR_SET_BARRIER \<in> error_codes" "ERR_DES_BARRIER \<in> error_codes" "ERR_INIT_MUTEX \<in> error_codes" "ERR_DES_MUTEX \<in> error_codes"
  "ERR_CFGFILE \<in> error_codes" "ERR_SET_PRIORITY \<in> error_codes" "0 \<notin> error_codes"
  by (simp_all add: error_codes_def gastrerrlist_def)

lemma parsers_codes:
  "fst (parsing_input malloc argv a) \<in> insert 0 error_codes" "fst (parsing_cfgfile fp a) \<in> insert 0 error_codes"
proof -
  have "fst (check_sched_policy (argv ! 1) (s32sched_policy a)) \<in> insert 0 error_codes"
    by (simp add: check_sched_policy_def)
  then show "fst (parsing_input malloc argv a) \<in> insert 0 error_codes"
    by (cases "check_sched_policy (argv ! 1) (s32sched_policy a)"; cases "malloc (length argv - 4)")
      (auto simp: parsing_input_def Let_def)
  show "fst (parsing_cfgfile fp a) \<in> insert 0 error_codes"
    by (cases fp) (simp_all add: parsing_cfgfile_def)
qed

text \<open>
  What the parser of the command line promises: the number of each policy, and the code of the first
  thing that is wrong.
\<close>

definition policies :: "(string \<times> int) list" where
  "policies = [(''SCHED_RR'', 2), (''SCHED_FIFO'', 1), (''SCHED_OTHER'', 0)]"

definition first_error :: "(nat \<Rightarrow> int list option) \<Rightarrow> string list \<Rightarrow> int" where
  "first_error malloc argv =
     (if length argv < 5 then ERR_ARGMISS
      else if map_of policies (argv ! 1) = None then ERR_NOSCHED
      else if atoi (argv ! 2) \<le> 0 then ERR_NPOSR
      else if atoi (argv ! 3) \<le> 0 then ERR_NPOSI
      else if malloc (length argv - 4) = None then ERR_MALLOC
      else 0)"

lemma check_sched_policy_policies:
  "check_sched_policy p old = (case map_of policies p of Some pol \<Rightarrow> (0, pol) | None \<Rightarrow> (ERR_NOSCHED, old))"
  by (simp add: check_sched_policy_def policies_def)

lemma parsing_input_code: "fst (parsing_input malloc argv a) = first_error malloc argv"
  by (simp add: parsing_input_def first_error_def check_sched_policy_policies Let_def split: option.splits)

lemma parsing_input_error_keeps:
  assumes "fst (parsing_input malloc argv a) \<noteq> 0"
  shows "s32pthpercore (snd (parsing_input malloc argv a)) = s32pthpercore a
    \<and> as32prio (snd (parsing_input malloc argv a)) = as32prio a
    \<and> ps32cabin (snd (parsing_input malloc argv a)) \<in> {ps32cabin a, None}"
  using assms by (cases "map_of policies (argv ! 1)"; cases "malloc (length argv - 4)")
    (simp_all add: parsing_input_def check_sched_policy_policies Let_def split: if_splits)

section \<open>Properties\<close>

text \<open>C7: \<open>parsing_input\<close> returns the code of the first thing that is wrong, in the order: fewer than four
  arguments, an unknown policy, a round number and an iteration count that are not positive, no memory for the list;
  and 0 if nothing is. Then the record holds the number of the policy named, \<open>atoi\<close> of the round number and of the
  iteration count, and \<open>atoi\<close> of every remaining argument in order, whatever the fresh block contained, with their
  number: what the worker threads rely on. The number of threads per core and the priorities are never touched.\<close>

theorem parsing_input_correct:
  assumes "\<And>k b. malloc k = Some b \<Longrightarrow> length b = k"
    and "parsing_input malloc argv a = (s32ret, b)"
  shows "s32ret = first_error malloc argv \<and> s32pthpercore b = s32pthpercore a \<and> as32prio b = as32prio a \<and>
    (if s32ret = 0 then
       prof_arg_ok b \<and> map_of policies (argv ! 1) = Some (s32sched_policy b) \<and>
       s32round b = atoi (argv ! 2) \<and> s32iter b = atoi (argv ! 3) \<and>
       s32cnt b = int (length (drop 4 argv)) \<and> ps32cabin b = Some (map atoi (drop 4 argv))
     else ps32cabin b \<in> {ps32cabin a, None})"
proof (cases "s32ret = 0")
  case True
  note in' = assms(2) [unfolded True]
  note ok = parsing_input_success [OF assms(1) in'] and arg_ok = parsing_input_arg_ok [OF assms(1) in']
  have "fst (check_sched_policy (argv ! 1) (s32sched_policy a)) = 0" using ok(4) check_sched_policy_ok(1) by blast
  then have "map_of policies (argv ! 1) = Some (s32sched_policy b)"
    by (simp add: ok(5) check_sched_policy_policies split: option.splits)
  then show ?thesis using ok(5) arg_ok parsing_input_code [of malloc argv a] assms(2) True by simp
next
  case False
  then show ?thesis using parsing_input_code [of malloc argv a] parsing_input_error_keeps [of malloc argv a] assms(2) by simp
qed

theorem parsing_input_correct_witness:
  "let argv = [''lab02_main'', ''SCHED_RR'', ''100'', ''1000'', ''2'', '' -3x''];
       a = \<lparr>s32pthpercore = 2, as32prio = [0, 0], s32sched_policy = 0, s32round = 0, s32iter = 0,
            s32cnt = 0, ps32cabin = None\<rparr>
   in \<exists>b. parsing_input (\<lambda>k. Some (replicate k 7)) argv a = (0, b) \<and> prof_arg_ok b \<and> s32sched_policy b = SCHED_RR \<and>
     ps32cabin b = Some [2, -3]"
proof -
  let ?argv = "[''lab02_main'', ''SCHED_RR'', ''100'', ''1000'', ''2'', '' -3x'']"
  let ?a = "\<lparr>s32pthpercore = 2, as32prio = [0, 0], s32sched_policy = 0, s32round = 0, s32iter = 0,
            s32cnt = 0, ps32cabin = None\<rparr>"
  have at: "atoi ''100'' = 100" "atoi ''1000'' = 1000" "atoi ''2'' = 2" "atoi '' -3x'' = -3" by code_simp+
  obtain b where b: "parsing_input (\<lambda>k. Some (replicate k 7)) ?argv ?a = (0, b)"
    by (simp add: parsing_input_def check_sched_policy_def at Let_def)
  note parsing_input_correct [OF _ b]
  then have "prof_arg_ok b" "map_of policies (?argv ! 1) = Some (s32sched_policy b)"
    "ps32cabin b = Some (map atoi (drop 4 ?argv))" by simp_all
  then show ?thesis using b by (simp add: at policies_def)
qed

text \<open>The search loop of \<open>geterrmsg\<close> is a lookup in the error table, with the entry of
  \<open>ERR_UNDEF\<close> for every unknown code, and the message fits the 40 bytes of \<open>acerrmsg\<close>.\<close>

theorem geterrmsg_lookup:
  "geterrmsg eno =
     (case map_of (map (\<lambda>e. (s32eno e, acerrmsg e)) gastrerrlist) eno of
        Some msg \<Rightarrow> msg | None \<Rightarrow> ''Undefined Error!'') \<and> length (geterrmsg eno) < 40"
proof (cases "\<exists>k < geterrlistlen. s32eno (gastrerrlist ! k) = eno")
  case True
  then obtain k where k: "k < geterrlistlen" "s32eno (gastrerrlist ! k) = eno" by blast
  then have "geterrmsg eno = acerrmsg (gastrerrlist ! k)"
    by (simp add: geterrmsg_def geterr_loop_known Let_def)
  moreover have "map_of (map (\<lambda>e. (s32eno e, acerrmsg e)) gastrerrlist) eno = Some (acerrmsg (gastrerrlist ! k))"
    using geterr_codes_distinct k
    by (intro map_of_is_SomeI) (auto simp: comp_def geterrlistlen_def image_iff intro!: bexI [of _ "gastrerrlist ! k"])
  moreover have "list_all (\<lambda>e. length (acerrmsg e) < 40) gastrerrlist" by (simp add: gastrerrlist_def)
  ultimately show ?thesis using k by (simp add: list_all_length geterrlistlen_def)
next
  case False
  then have no: "\<forall>e \<in> set gastrerrlist. s32eno e \<noteq> eno"
    by (auto simp: in_set_conv_nth geterrlistlen_def)
  then have "geterrmsg eno = ''Undefined Error!''"
    by (simp add: geterrmsg_def geterr_loop_unknown geterrlistlen_15 Let_def) (simp add: gastrerrlist_def)
  moreover have "map_of (map (\<lambda>e. (s32eno e, acerrmsg e)) gastrerrlist) eno = None"
    using no by (auto simp: map_of_eq_None_iff)
  ultimately show ?thesis by simp
qed

text \<open>C37: \<open>parsing_cfgfile\<close> reads back a configuration file written as three numbers with any white space
  before and between them: the threads per core and the two priorities, and nothing else, are set to those numbers,
  and only a missing file is an error. The result of \<open>fscanf\<close> is ignored: a file that has fewer numbers, or whose
  next word is no number, is accepted with return value 0, and what it does not give keeps the built-in default.\<close>

theorem parsing_cfgfile_reads:
  assumes "list_all is_int32 [n, p0, p1]" and "length (as32prio a) = 2"
    and "list_all (list_all is_space) [ws0, ws1, ws2]" and "ws1 \<noteq> []" and "ws2 \<noteq> []"
    and "\<forall>r \<in> {rest, junk}. r = [] \<or> \<not> is_digit (hd r)" and "scan_d junk = None"
  shows "parsing_cfgfile None a = (ERR_CFGFILE, a) \<and>
    parsing_cfgfile (Some (ws0 @ show_int n @ ws1 @ show_int p0 @ ws2 @ show_int p1 @ rest)) a
      = (0, a\<lparr>s32pthpercore := n, as32prio := [p0, p1]\<rparr>) \<and>
    parsing_cfgfile (Some (ws0 @ show_int n @ ws1 @ show_int p0 @ junk)) a
      = (0, a\<lparr>s32pthpercore := n, as32prio := [p0, as32prio a ! 1]\<rparr>) \<and>
    parsing_cfgfile (Some (ws0 @ show_int n @ junk)) a = (0, a\<lparr>s32pthpercore := n\<rparr>) \<and>
    parsing_cfgfile (Some junk) a = (0, a)"
proof -
  obtain x y where xy: "as32prio a = [x, y]" using assms(2) by (auto simp: length_Suc_conv numeral_2_eq_2)
  have sp: "ws @ t = [] \<or> \<not> is_digit (hd (ws @ t))" if "list_all is_space ws" "ws \<noteq> []" for ws t
    using that is_digit_not_special by (cases ws) auto
  have ws: "list_all is_space ws0" "list_all is_space ws1" "list_all is_space ws2"
    and z: "is_int32 n" "is_int32 p0" "is_int32 p1" using assms(1,3) by simp_all
  have r: "rest = [] \<or> \<not> is_digit (hd rest)" "junk = [] \<or> \<not> is_digit (hd junk)" using assms(6) by simp_all
  note read = scan_into_printed [OF ws(1) z(1) sp [OF ws(2) assms(4)]] scan_into_printed [OF ws(1) z(1) r(2)]
    scan_into_printed [OF ws(2) z(2) sp [OF ws(3) assms(5)]] scan_into_printed [OF ws(2) z(2) r(2)]
    scan_into_printed [OF ws(3) z(3) r(1)]
  show ?thesis unfolding parsing_cfgfile_def option.case read
    by (simp add: scan_into_fails assms(7) xy)
qed

theorem parsing_cfgfile_reads_witness:
  "let a = \<lparr>s32pthpercore = 2, as32prio = [0, 0], s32sched_policy = 0, s32round = 0, s32iter = 0,
            s32cnt = 0, ps32cabin = None\<rparr>
   in parsing_cfgfile (Some ([CHR ''4'', CHR 0x0A, CHR ''-'', CHR ''5'', CHR 0x09, CHR '' '', CHR ''1'', CHR ''0'', CHR 0x0A])) a
     = (0, a\<lparr>s32pthpercore := 4, as32prio := [-5, 10]\<rparr>)
   \<and> parsing_cfgfile (Some ''4, -5'') a = (0, a\<lparr>s32pthpercore := 4\<rparr>)"
proof -
  let ?a = "\<lparr>s32pthpercore = 2, as32prio = [0, 0], s32sched_policy = 0, s32round = 0, s32iter = 0,
            s32cnt = 0, ps32cabin = None\<rparr>"
  have s: "show_int 4 = ''4''" "show_int (-5) = ''-5''" "show_int 10 = ''10''" by code_simp+
  have j: "scan_d '', -5'' = None" "\<not> is_digit CHR '',''" "\<not> is_digit CHR 0x0A" by code_simp+
  have w: "is_space CHR 0x0A" "is_space CHR 0x09" "is_space CHR '' ''" by code_simp+
  have "parsing_cfgfile (Some ([] @ show_int 4 @ [CHR 0x0A] @ show_int (-5) @ [CHR 0x09, CHR '' ''] @ show_int 10 @ [CHR 0x0A])) ?a
      = (0, ?a\<lparr>s32pthpercore := 4, as32prio := [-5, 10]\<rparr>)
    \<and> parsing_cfgfile (Some ([] @ show_int 4 @ '', -5'')) ?a = (0, ?a\<lparr>s32pthpercore := 4\<rparr>)"
    using parsing_cfgfile_reads [of 4 "-5" 10 ?a "[]" "[CHR 0x0A]" "[CHR 0x09, CHR '' '']" "[CHR 0x0A]" "'', -5''"] j w
    by (simp add: is_int32_def)
  then show ?thesis by (simp add: s)
qed

end
