(* ===== verification/Lab02Worker.thy ===== *)
theory Lab02Worker
  imports Lab02Config
begin

text \<open>
  The worker threads of \<open>lab02/src/main.c\<close> (\<open>work_fxn\<close>, default build: \<open>pthread_barrier_t\<close> and a
  mutex): all threads meet at the barrier, then each takes the next number of the cabin in every
  round, round-robin under the mutex, and computes its cube \<open>s32iter\<close> times. Each access to shared
  state is a step; the barrier and the mutex block as POSIX says. \<open>picks\<close> is a history variable: the
  indices taken, in order. A division by zero, an access outside the cabin, and the conversion of a
  cube that \<open>int\<close> cannot hold end in \<open>WFault\<close>.
\<close>

section \<open>The program\<close>

datatype worker_pc =
  WStart | WBar | WLock | WRead | WWrite | WUnlock | WBase | WIter nat | WDone | WFault

record workers =
  gs32cabinidx :: int
  gmutex_cabinidx :: "nat option"
  arrived :: nat
  wpc :: "nat \<Rightarrow> worker_pc"
  s32idx :: "nat \<Rightarrow> int"
  s32base :: "nat \<Rightarrow> int"
  s32round_no :: "nat \<Rightarrow> nat"
  picks :: "int list"

definition worker_bar_arrive :: "nat \<Rightarrow> workers \<Rightarrow> workers" where
  "worker_bar_arrive i s = s\<lparr>arrived := Suc (arrived s), wpc := (wpc s)(i := WBar)\<rparr>"

definition worker_bar_leave :: "nat \<Rightarrow> nat \<Rightarrow> workers \<Rightarrow> workers option" where
  "worker_bar_leave n i s = (if arrived s = n then Some (s\<lparr>wpc := (wpc s)(i := WLock)\<rparr>) else None)"

text \<open>The head of the round loop, and \<open>pthread_mutex_lock\<close>.\<close>

definition worker_lock :: "prof_arg \<Rightarrow> nat \<Rightarrow> workers \<Rightarrow> workers option" where
  "worker_lock p i s =
     (if int (s32round_no s i) < s32round p then
        (if gmutex_cabinidx s = None
         then Some (s\<lparr>gmutex_cabinidx := Some i, wpc := (wpc s)(i := WRead)\<rparr>) else None)
      else Some (s\<lparr>wpc := (wpc s)(i := WDone)\<rparr>))"

definition worker_read :: "nat \<Rightarrow> workers \<Rightarrow> workers" where
  "worker_read i s = s\<lparr>s32idx := (s32idx s)(i := gs32cabinidx s), wpc := (wpc s)(i := WWrite)\<rparr>"

definition worker_write :: "prof_arg \<Rightarrow> nat \<Rightarrow> workers \<Rightarrow> workers" where
  "worker_write p i s =
     (if s32cnt p = 0 then s\<lparr>wpc := (wpc s)(i := WFault)\<rparr>
      else s\<lparr>gs32cabinidx := (gs32cabinidx s + 1) smod s32cnt p, picks := picks s @ [s32idx s i],
             wpc := (wpc s)(i := WUnlock)\<rparr>)"

definition worker_unlock :: "nat \<Rightarrow> workers \<Rightarrow> workers" where
  "worker_unlock i s = s\<lparr>gmutex_cabinidx := None, wpc := (wpc s)(i := WBase)\<rparr>"

definition worker_base :: "prof_arg \<Rightarrow> nat \<Rightarrow> workers \<Rightarrow> workers" where
  "worker_base p i s =
     (case ps32cabin p of
        None \<Rightarrow> s\<lparr>wpc := (wpc s)(i := WFault)\<rparr>
      | Some cabin \<Rightarrow>
          if 0 \<le> s32idx s i \<and> s32idx s i < int (length cabin)
          then s\<lparr>s32base := (s32base s)(i := cabin ! nat (s32idx s i)), wpc := (wpc s)(i := WIter 0)\<rparr>
          else s\<lparr>wpc := (wpc s)(i := WFault)\<rparr>)"

text \<open>\<open>(int)pow((double)s32base, 3.0)\<close>: the cube is exact in a double when it fits an \<open>int\<close>.\<close>

definition worker_iter :: "prof_arg \<Rightarrow> nat \<Rightarrow> nat \<Rightarrow> workers \<Rightarrow> workers" where
  "worker_iter p k i s =
     (if int k < s32iter p then
        s\<lparr>wpc := (wpc s)(i := if is_int32 (s32base s i ^ 3) then WIter (Suc k) else WFault)\<rparr>
      else s\<lparr>s32round_no := (s32round_no s)(i := Suc (s32round_no s i)), wpc := (wpc s)(i := WLock)\<rparr>)"

definition worker_next :: "prof_arg \<Rightarrow> nat \<Rightarrow> nat \<Rightarrow> unit \<Rightarrow> workers \<Rightarrow> workers option" where
  "worker_next p n i c s =
     (case wpc s i of
        WStart \<Rightarrow> Some (worker_bar_arrive i s)
      | WBar \<Rightarrow> worker_bar_leave n i s
      | WLock \<Rightarrow> worker_lock p i s
      | WRead \<Rightarrow> Some (worker_read i s)
      | WWrite \<Rightarrow> Some (worker_write p i s)
      | WUnlock \<Rightarrow> Some (worker_unlock i s)
      | WBase \<Rightarrow> Some (worker_base p i s)
      | WIter k \<Rightarrow> Some (worker_iter p k i s)
      | WDone \<Rightarrow> None
      | WFault \<Rightarrow> None)"

abbreviation worker_step :: "prof_arg \<Rightarrow> nat \<Rightarrow> workers \<Rightarrow> workers \<Rightarrow> bool" where
  "worker_step p n \<equiv> sched (worker_next p n) n"

text \<open>Numbers whose cube fits an \<open>int\<close>.\<close>

definition cabin_small :: "prof_arg \<Rightarrow> bool" where
  "cabin_small p \<longleftrightarrow> (case ps32cabin p of None \<Rightarrow> True | Some cabin \<Rightarrow> list_all (\<lambda>x. - 1290 \<le> x \<and> x \<le> 1290) cabin)"

definition worker_init :: "workers \<Rightarrow> bool" where
  "worker_init s \<longleftrightarrow> gs32cabinidx s = 0 \<and> gmutex_cabinidx s = None \<and> arrived s = 0 \<and>
     wpc s = (\<lambda>_. WStart) \<and> s32round_no s = (\<lambda>_. 0) \<and> picks s = []"

definition worker_finished :: "nat \<Rightarrow> workers \<Rightarrow> bool" where
  "worker_finished n s \<longleftrightarrow> list_all (\<lambda>i. wpc s i = WDone) [0..<n]"

section \<open>The invariant\<close>

fun holds :: "worker_pc \<Rightarrow> bool" where
  "holds WRead = True" | "holds WWrite = True" | "holds WUnlock = True" | "holds _ = False"

fun past_bar :: "worker_pc \<Rightarrow> bool" where
  "past_bar WStart = False" | "past_bar WBar = False" | "past_bar _ = True"

fun picked :: "worker_pc \<Rightarrow> nat" where
  "picked WUnlock = 1" | "picked WBase = 1" | "picked (WIter k) = 1" | "picked _ = 0"

fun wlocal :: "prof_arg \<Rightarrow> int \<Rightarrow> worker_pc \<Rightarrow> int \<Rightarrow> int \<Rightarrow> nat \<Rightarrow> bool" where
  "wlocal p c WStart idx base r \<longleftrightarrow> r = 0"
| "wlocal p c WBar idx base r \<longleftrightarrow> r = 0"
| "wlocal p c WLock idx base r \<longleftrightarrow> int r \<le> s32round p"
| "wlocal p c WRead idx base r \<longleftrightarrow> int r < s32round p"
| "wlocal p c WWrite idx base r \<longleftrightarrow> int r < s32round p \<and> idx = c"
| "wlocal p c WUnlock idx base r \<longleftrightarrow> int r < s32round p \<and> 0 \<le> idx \<and> idx < s32cnt p"
| "wlocal p c WBase idx base r \<longleftrightarrow> int r < s32round p \<and> 0 \<le> idx \<and> idx < s32cnt p"
| "wlocal p c (WIter k) idx base r \<longleftrightarrow> int r < s32round p \<and> int k \<le> s32iter p \<and> is_int32 (base ^ 3)"
| "wlocal p c WDone idx base r \<longleftrightarrow> int r = s32round p"
| "wlocal p c WFault idx base r \<longleftrightarrow> False"

lemma wlocal_cabinidx: "\<not> holds pc \<Longrightarrow> wlocal p c pc idx base r = wlocal p c' pc idx base r"
  by (cases pc) auto

definition round_robin :: "nat \<Rightarrow> nat \<Rightarrow> int list" where
  "round_robin cnt k = map (\<lambda>j. int (j mod cnt)) [0..<k]"

definition worker_inv :: "prof_arg \<Rightarrow> nat \<Rightarrow> workers \<Rightarrow> bool" where
  "worker_inv p n s \<longleftrightarrow>
     (\<forall>i<n. wlocal p (gs32cabinidx s) (wpc s i) (s32idx s i) (s32base s i) (s32round_no s i)) \<and>
     (\<forall>i<n. holds (wpc s i) \<longleftrightarrow> gmutex_cabinidx s = Some i) \<and>
     (\<forall>h. gmutex_cabinidx s = Some h \<longrightarrow> h < n) \<and>
     gs32cabinidx s = int (length (picks s) mod nat (s32cnt p)) \<and>
     picks s = round_robin (nat (s32cnt p)) (length (picks s)) \<and>
     arrived s = tally n (\<lambda>pc. pc \<noteq> WStart) (wpc s) \<and>
     (\<forall>i<n. past_bar (wpc s i) \<longrightarrow> arrived s = n) \<and>
     length (picks s) = (\<Sum>i<n. s32round_no s i + picked (wpc s i))"

lemma worker_invI:
  assumes "\<And>i. i < n \<Longrightarrow> wlocal p (gs32cabinidx s) (wpc s i) (s32idx s i) (s32base s i) (s32round_no s i)"
    and "\<And>i. i < n \<Longrightarrow> holds (wpc s i) \<longleftrightarrow> gmutex_cabinidx s = Some i"
    and "gs32cabinidx s = int (length (picks s) mod nat (s32cnt p))"
    and "picks s = round_robin (nat (s32cnt p)) (length (picks s))"
    and "arrived s = tally n (\<lambda>pc. pc \<noteq> WStart) (wpc s)"
    and "\<And>i. i < n \<Longrightarrow> past_bar (wpc s i) \<Longrightarrow> arrived s = n"
    and "length (picks s) = (\<Sum>i<n. s32round_no s i + picked (wpc s i))"
    and "\<And>h. gmutex_cabinidx s = Some h \<Longrightarrow> h < n"
  shows "worker_inv p n s"
  using assms unfolding worker_inv_def by blast

lemma worker_invD:
  assumes "worker_inv p n s"
  shows "i < n \<Longrightarrow> wlocal p (gs32cabinidx s) (wpc s i) (s32idx s i) (s32base s i) (s32round_no s i)"
    and "i < n \<Longrightarrow> holds (wpc s i) \<longleftrightarrow> gmutex_cabinidx s = Some i"
    and "gs32cabinidx s = int (length (picks s) mod nat (s32cnt p))"
    and "picks s = round_robin (nat (s32cnt p)) (length (picks s))"
    and "arrived s = tally n (\<lambda>pc. pc \<noteq> WStart) (wpc s)"
    and "i < n \<Longrightarrow> past_bar (wpc s i) \<Longrightarrow> arrived s = n"
    and "length (picks s) = (\<Sum>i<n. s32round_no s i + picked (wpc s i))"
    and "gmutex_cabinidx s = Some h \<Longrightarrow> h < n"
  using assms unfolding worker_inv_def by blast+

lemma sum2_upd:
  fixes n :: nat and f :: "nat \<Rightarrow> nat" and h :: "'p \<Rightarrow> nat"
  assumes "i < n"
  shows "(\<Sum>j<n. (f(i := a)) j + h ((g(i := x)) j)) + f i + h (g i) = (\<Sum>j<n. f j + h (g j)) + a + h x"
proof -
  have "(\<Sum>j<n. (f(i := a)) j) + f i = (\<Sum>j<n. f j) + a"
    using sum_upd_eq [OF assms, of "\<lambda>x. x" f a] by simp
  moreover have "(\<Sum>j<n. h ((g(i := x)) j)) + h (g i) = (\<Sum>j<n. h (g j)) + h x"
    by (rule sum_upd_eq [OF assms])
  ultimately show ?thesis by (simp add: sum.distrib)
qed

text \<open>One thread moves.\<close>

lemma worker_move:
  assumes inv: "worker_inv p n s" and i: "i < n"
    and t: "wpc t = (wpc s)(i := x)" "s32idx t = (s32idx s)(i := a)" "s32base t = (s32base s)(i := b)"
      "s32round_no t = (s32round_no s)(i := r)"
    and loc: "wlocal p (gs32cabinidx t) x a b r"
    and cab: "gs32cabinidx t = gs32cabinidx s \<or> holds (wpc s i)"
    and mut: "gmutex_cabinidx t = (if holds x then Some i else if holds (wpc s i) then None else gmutex_cabinidx s)"
      "holds x \<Longrightarrow> holds (wpc s i) \<or> gmutex_cabinidx s = None"
    and pk: "gs32cabinidx t = int (length (picks t) mod nat (s32cnt p))"
      "picks t = round_robin (nat (s32cnt p)) (length (picks t))"
    and arr: "arrived t = arrived s + (if wpc s i = WStart then 1 else 0)" "x \<noteq> WStart"
      "past_bar x \<Longrightarrow> arrived s = n"
    and cnt: "length (picks t) + s32round_no s i + picked (wpc s i) = length (picks s) + r + picked x"
  shows "worker_inv p n t"
proof (rule worker_invI)
  have free: "\<not> holds (wpc s j)" if "j < n" "j \<noteq> i" "holds (wpc s i) \<or> gmutex_cabinidx s = None" for j
    using that worker_invD(2) [OF inv that(1)] worker_invD(2) [OF inv i] by auto
  show "wlocal p (gs32cabinidx t) (wpc t j) (s32idx t j) (s32base t j) (s32round_no t j)" if "j < n" for j
  proof (cases "j = i")
    case True
    then show ?thesis using loc t by simp
  next
    case False
    have "wlocal p (gs32cabinidx s) (wpc s j) (s32idx s j) (s32base s j) (s32round_no s j)"
      by (rule worker_invD(1) [OF inv that])
    then show ?thesis using False t cab wlocal_cabinidx [OF free [OF that False]] by fastforce
  qed
  show "holds (wpc t j) \<longleftrightarrow> gmutex_cabinidx t = Some j" if "j < n" for j
    using worker_invD(2) [OF inv that] worker_invD(2) [OF inv i] free [OF that] mut t(1) by (cases "j = i") auto
  show tal: "arrived t = tally n (\<lambda>pc. pc \<noteq> WStart) (wpc t)"
    using tally_upd [OF i, of "\<lambda>pc. pc \<noteq> WStart" "wpc s" x] worker_invD(5) [OF inv] arr(1,2) t(1) by auto
  show "arrived t = n" if "j < n" "past_bar (wpc t j)" for j
  proof -
    have "arrived s = n" using that worker_invD(6) [OF inv that(1)] arr(3) t(1) by (cases "j = i") auto
    moreover have "arrived t \<le> n" using tal tally_le by metis
    ultimately show ?thesis using arr(1) by simp
  qed
  show "h < n" if "gmutex_cabinidx t = Some h" for h
    using that mut(1) i worker_invD(8) [OF inv] by (auto split: if_splits)
  show "length (picks t) = (\<Sum>j<n. s32round_no t j + picked (wpc t j))"
    using sum2_upd [OF i, of "s32round_no s" r picked "wpc s" x] worker_invD(7) [OF inv] cnt t(1,4) by simp
qed (use pk in simp_all)

lemma length_round_robin [simp]: "length (round_robin cnt k) = k"
  by (simp add: round_robin_def)

lemma round_robin_Suc: "round_robin cnt (Suc k) = round_robin cnt k @ [int (k mod cnt)]"
  by (simp add: round_robin_def)

lemma cube_small: "- 1290 \<le> x \<Longrightarrow> x \<le> 1290 \<Longrightarrow> is_int32 (x ^ 3)"
proof -
  assume "- 1290 \<le> x" "x \<le> 1290"
  then have "\<bar>x\<bar> ^ 3 \<le> 1290 ^ 3" by (intro power_mono) auto
  then have "\<bar>x ^ 3\<bar> \<le> 2146689000" by (simp add: power_abs)
  then show ?thesis by (simp add: is_int32_def abs_le_iff)
qed

lemma cabinidx_next:
  assumes "0 < cnt" and "c = int (k mod nat cnt)"
  shows "(c + 1) smod cnt = int (Suc k mod nat cnt)"
proof -
  have "0 \<le> c + 1" using assms(2) by simp
  then have "(c + 1) smod cnt = (c + 1) mod cnt"
    using assms(1) by (simp add: signed_modulo_int_def sgn_if)
  also have "\<dots> = (int (k mod nat cnt) + 1) mod int (nat cnt)" using assms by simp
  also have "\<dots> = int (Suc (k mod nat cnt) mod nat cnt)" by (simp add: zmod_int add.commute)
  finally show ?thesis by (simp add: mod_Suc_eq)
qed

lemma worker_inv_step:
  assumes ok: "prof_arg_ok p" "cabin_small p" and inv: "worker_inv p n s" and i: "i < n"
    and st: "worker_next p n i c s = Some t"
  shows "worker_inv p n t"
proof -
  note D = worker_invD [OF inv]
  note loc = D(1) [OF i]
  note move = worker_move [OF inv i]
  obtain cabin where cab: "ps32cabin p = Some cabin" "int (length cabin) = s32cnt p" "0 < s32cnt p"
    using ok(1) by (auto simp: prof_arg_ok_def)
  show ?thesis
  proof (cases "wpc s i")
    case WStart
    then show ?thesis using st loc D(3,4)
      by (intro move [of t WBar "s32idx s i" "s32base s i" 0]) (auto simp: worker_next_def worker_bar_arrive_def)
  next
    case WBar
    then show ?thesis using st loc D(3,4) ok(1)
      by (intro move [of t WLock "s32idx s i" "s32base s i" 0])
        (auto simp: worker_next_def worker_bar_leave_def prof_arg_ok_def split: if_splits)
  next
    case WLock
    note arr = D(6) [OF i]
    show ?thesis
    proof (cases "int (s32round_no s i) < s32round p")
      case True
      then show ?thesis using WLock st loc D(3,4) arr
        by (intro move [of t WRead "s32idx s i" "s32base s i" "s32round_no s i"])
          (auto simp: worker_next_def worker_lock_def split: if_splits)
    next
      case False
      then show ?thesis using WLock st loc D(3,4) arr
        by (intro move [of t WDone "s32idx s i" "s32base s i" "s32round_no s i"])
          (auto simp: worker_next_def worker_lock_def)
    qed
  next
    case WRead
    then show ?thesis using st loc D(3,4) D(6) [OF i] D(2) [OF i]
      by (intro move [of t WWrite "gs32cabinidx s" "s32base s i" "s32round_no s i"])
        (auto simp: worker_next_def worker_read_def)
  next
    case WWrite
    let ?k = "length (picks s)"
    have t: "t = s\<lparr>gs32cabinidx := int (Suc ?k mod nat (s32cnt p)), picks := picks s @ [s32idx s i], wpc := (wpc s)(i := WUnlock)\<rparr>"
      using WWrite st cab(3) cabinidx_next [OF cab(3) D(3)] by (simp add: worker_next_def worker_write_def)
    have idx: "s32idx s i = int (?k mod nat (s32cnt p))" using WWrite loc D(3) by simp
    then have "0 \<le> s32idx s i" "s32idx s i < s32cnt p"
      using cab(3) mod_less_divisor [of "nat (s32cnt p)" ?k] by (simp, linarith)
    moreover have "picks s @ [s32idx s i] = round_robin (nat (s32cnt p)) (Suc ?k)"
      using D(4) idx by (simp add: round_robin_Suc)
    ultimately show ?thesis using WWrite loc D(6) [OF i] D(2) [OF i]
      by (intro move [of t WUnlock "s32idx s i" "s32base s i" "s32round_no s i"]) (auto simp: t)
  next
    case WUnlock
    then show ?thesis using st loc D(3,4) D(6) [OF i]
      by (intro move [of t WBase "s32idx s i" "s32base s i" "s32round_no s i"])
        (auto simp: worker_next_def worker_unlock_def)
  next
    case WBase
    let ?x = "cabin ! nat (s32idx s i)"
    have r: "0 \<le> s32idx s i" "s32idx s i < int (length cabin)" "int (s32round_no s i) < s32round p"
      using WBase loc cab(2) by auto
    then have "?x \<in> set cabin" by (intro nth_mem) (simp add: nat_less_iff)
    then have "is_int32 (?x ^ 3)"
      using ok(2) cab(1) by (intro cube_small) (auto simp: cabin_small_def list_all_iff)
    moreover have "t = s\<lparr>s32base := (s32base s)(i := ?x), wpc := (wpc s)(i := WIter 0)\<rparr>"
      using WBase st cab(1) r by (simp add: worker_next_def worker_base_def)
    moreover have "0 < s32iter p" using ok(1) by (simp add: prof_arg_ok_def)
    ultimately show ?thesis using WBase r(3) D(3,4) D(6) [OF i]
      by (intro move [of t "WIter 0" "s32idx s i" ?x "s32round_no s i"]) auto
  next
    case (WIter k)
    note arr = D(6) [OF i]
    show ?thesis
    proof (cases "int k < s32iter p")
      case True
      then show ?thesis using WIter st loc D(3,4) arr
        by (intro move [of t "WIter (Suc k)" "s32idx s i" "s32base s i" "s32round_no s i"])
          (auto simp: worker_next_def worker_iter_def)
    next
      case False
      then show ?thesis using WIter st loc D(3,4) arr
        by (intro move [of t WLock "s32idx s i" "s32base s i" "Suc (s32round_no s i)"])
          (auto simp: worker_next_def worker_iter_def)
    qed
  qed (use st in \<open>simp_all add: worker_next_def\<close>)
qed

lemma worker_inv_init: "prof_arg_ok p \<Longrightarrow> worker_init s \<Longrightarrow> worker_inv p n s"
  by (rule worker_invI) (auto simp: worker_init_def round_robin_def tally_none prof_arg_ok_def)

interpretation workers: invariant_system "\<lambda>s. prof_arg_ok p \<and> cabin_small p \<and> worker_init s" "worker_step p n"
  "\<lambda>s. prof_arg_ok p \<and> cabin_small p \<and> worker_inv p n s" for p n
  by unfold_locales (auto elim!: schedE intro: worker_inv_init worker_inv_step)

section \<open>Progress\<close>

text \<open>The actions a thread has left, with \<open>s32iter\<close> turns of the inner loop in every round.\<close>

fun wrank :: "nat \<Rightarrow> nat \<Rightarrow> worker_pc \<Rightarrow> nat \<Rightarrow> nat" where
  "wrank R K WStart r = R * (K + 7) + 3"
| "wrank R K WBar r = R * (K + 7) + 2"
| "wrank R K WLock r = (R - r) * (K + 7) + 1"
| "wrank R K WRead r = (R - r) * (K + 7)"
| "wrank R K WWrite r = (R - r) * (K + 7) - 1"
| "wrank R K WUnlock r = (R - r) * (K + 7) - 2"
| "wrank R K WBase r = (R - r) * (K + 7) - 3"
| "wrank R K (WIter k) r = (R - r) * (K + 7) - 4 - k"
| "wrank R K WDone r = 0"
| "wrank R K WFault r = 0"

definition worker_rank :: "prof_arg \<Rightarrow> workers \<Rightarrow> nat \<Rightarrow> nat" where
  "worker_rank p s i = wrank (nat (s32round p)) (nat (s32iter p)) (wpc s i) (s32round_no s i)"

definition worker_work :: "prof_arg \<Rightarrow> nat \<Rightarrow> workers \<Rightarrow> nat" where
  "worker_work p n s = (\<Sum>i<n. worker_rank p s i)"

lemma worker_work_less:
  assumes "i < n" and "worker_rank p t i < worker_rank p s i"
    and "\<forall>j. j \<noteq> i \<longrightarrow> worker_rank p t j = worker_rank p s j"
  shows "worker_work p n t < worker_work p n s"
  unfolding worker_work_def
proof (rule sum_strict_mono_ex1)
  show "\<forall>j\<in>{..<n}. worker_rank p t j \<le> worker_rank p s j" using assms(2,3) by (metis le_less order_refl)
  show "\<exists>j\<in>{..<n}. worker_rank p t j < worker_rank p s j" using assms(1,2) by auto
qed simp

lemma rounds_left: "r < R \<Longrightarrow> (R - r) * m = (R - Suc r) * m + m" for r R m :: nat
  by (metis Suc_diff_Suc mult_Suc add.commute)

text \<open>A thread that is not blocked, done or lost moves, changing only its own pc, round and rank.\<close>

lemma worker_moves:
  assumes ok: "prof_arg_ok p" "cabin_small p" and inv: "worker_inv p n s" and i: "i < n"
    and "wpc s i \<noteq> WDone" and "wpc s i = WBar \<Longrightarrow> arrived s = n" and "wpc s i = WLock \<Longrightarrow> gmutex_cabinidx s = None"
  shows "\<exists>t. worker_next p n i () s = Some t \<and> worker_rank p t i < worker_rank p s i \<and>
    (\<forall>j. j \<noteq> i \<longrightarrow> worker_rank p t j = worker_rank p s j)"
proof -
  note loc = worker_invD(1) [OF inv i]
  have pos: "0 < s32cnt p" "0 < s32round p" "0 < s32iter p" using ok(1) by (auto simp: prof_arg_ok_def)
  show ?thesis
  proof (cases "wpc s i")
    case WLock
    then show ?thesis using loc assms(7) rounds_left [of "s32round_no s i" "nat (s32round p)"]
      by (auto simp: worker_next_def worker_lock_def worker_rank_def)
  next
    case WRead
    then have "s32round_no s i < nat (s32round p)" using loc by simp
    then show ?thesis using WRead rounds_left [of "s32round_no s i" "nat (s32round p)" "nat (s32iter p) + 7"]
      by (simp add: worker_next_def worker_read_def worker_rank_def)
  next
    case WWrite
    then have "s32round_no s i < nat (s32round p)" using loc by auto
    then show ?thesis using WWrite pos rounds_left [of "s32round_no s i" "nat (s32round p)" "nat (s32iter p) + 7"]
      by (simp add: worker_next_def worker_write_def worker_rank_def)
  next
    case WUnlock
    then have "s32round_no s i < nat (s32round p)" using loc by auto
    then show ?thesis using WUnlock rounds_left [of "s32round_no s i" "nat (s32round p)" "nat (s32iter p) + 7"]
      by (simp add: worker_next_def worker_unlock_def worker_rank_def)
  next
    case WBase
    then have "s32round_no s i < nat (s32round p)" "0 \<le> s32idx s i" "s32idx s i < s32cnt p" using loc by auto
    moreover obtain cabin where "ps32cabin p = Some cabin" "int (length cabin) = s32cnt p"
      using ok(1) by (auto simp: prof_arg_ok_def)
    ultimately show ?thesis using WBase rounds_left [of "s32round_no s i" "nat (s32round p)" "nat (s32iter p) + 7"]
      by (simp add: worker_next_def worker_base_def worker_rank_def)
  next
    case (WIter k)
    then have r: "s32round_no s i < nat (s32round p)" "k \<le> nat (s32iter p)" "is_int32 (s32base s i ^ 3)" using loc by auto
    define m where "m = (nat (s32round p) - Suc (s32round_no s i)) * (nat (s32iter p) + 7)"
    have e: "(nat (s32round p) - s32round_no s i) * (nat (s32iter p) + 7) = m + (nat (s32iter p) + 7)"
      unfolding m_def using r(1) by (rule rounds_left)
    show ?thesis
    proof (cases "int k < s32iter p")
      case True
      then have "k < nat (s32iter p)" by simp
      then show ?thesis using True WIter r(3) e by (simp add: worker_next_def worker_iter_def worker_rank_def)
    next
      case False
      then show ?thesis using WIter r(2) e
        by (simp add: worker_next_def worker_iter_def worker_rank_def flip: m_def)
    qed
  next
    case WFault
    then show ?thesis using loc by simp
  next
    case WStart
    then show ?thesis by (simp add: worker_next_def worker_bar_arrive_def worker_rank_def)
  next
    case WBar
    then show ?thesis using assms(6) loc by (simp add: worker_next_def worker_bar_leave_def worker_rank_def)
  next
    case WDone
    then show ?thesis using assms(5) by simp
  qed
qed

text \<open>In every unfinished state some thread is not blocked.\<close>

lemma worker_unblocked:
  assumes inv: "worker_inv p n s" and "\<not> worker_finished n s"
  shows "\<exists>i<n. wpc s i \<noteq> WDone \<and> (wpc s i = WBar \<longrightarrow> arrived s = n) \<and> (wpc s i = WLock \<longrightarrow> gmutex_cabinidx s = None)"
proof (cases "gmutex_cabinidx s")
  case (Some h)
  then have "h < n" "holds (wpc s h)" using worker_invD(2,8) [OF inv] by blast+
  then show ?thesis by (intro exI [of _ h]) auto
next
  case None
  obtain i where i: "i < n" "wpc s i \<noteq> WDone" using assms(2) by (auto simp: worker_finished_def list_all_iff)
  show ?thesis
  proof (cases "wpc s i = WBar \<and> arrived s \<noteq> n")
    case True
    then have "\<exists>j<n. wpc s j = WStart"
      using worker_invD(5) [OF inv] tally_full_iff [of n "\<lambda>pc. pc \<noteq> WStart" "wpc s"] by auto
    then obtain j where "j < n" "wpc s j = WStart" by blast
    then show ?thesis by (intro exI [of _ j]) simp
  qed (use i None in blast)
qed

interpretation workers: progress_system "worker_step p n"
  "\<lambda>s. prof_arg_ok p \<and> cabin_small p \<and> worker_inv p n s" "worker_finished n" "worker_work p n" for p n
proof unfold_locales
  fix s assume g: "prof_arg_ok p \<and> cabin_small p \<and> worker_inv p n s" and nf: "\<not> worker_finished n s"
  then obtain i where i: "i < n" "wpc s i \<noteq> WDone" "wpc s i = WBar \<longrightarrow> arrived s = n"
    "wpc s i = WLock \<longrightarrow> gmutex_cabinidx s = None"
    using worker_unblocked by blast
  then obtain t where t: "worker_next p n i () s = Some t" "worker_rank p t i < worker_rank p s i"
    "\<forall>j. j \<noteq> i \<longrightarrow> worker_rank p t j = worker_rank p s j"
    using worker_moves [of p n s i] g by blast
  have "worker_work p n t < worker_work p n s" using i(1) t(2,3) by (rule worker_work_less)
  moreover have "worker_step p n s t" using i(1) t(1) by (rule sched)
  moreover have "worker_inv p n t" using worker_inv_step [of p n s i] g i(1) t(1) by blast
  ultimately show "\<exists>t. worker_step p n s t \<and> (prof_arg_ok p \<and> cabin_small p \<and> worker_inv p n t) \<and> worker_work p n t < worker_work p n s"
    using g by blast
qed

text \<open>What holds of the threads in every state they reach.\<close>

definition round_robin_so_far :: "prof_arg \<Rightarrow> nat \<Rightarrow> workers \<Rightarrow> bool" where
  "round_robin_so_far p n s \<longleftrightarrow> list_all (\<lambda>i. wpc s i \<noteq> WFault) [0..<n] \<and>
     picks s = round_robin (nat (s32cnt p)) (length (picks s)) \<and>
     (worker_finished n s \<longrightarrow> length (picks s) = n * nat (s32round p))"

lemma worker_inv_round_robin:
  assumes inv: "worker_inv p n s"
  shows "round_robin_so_far p n s"
proof -
  have "wpc s i \<noteq> WFault" if "i < n" for i using worker_invD(1) [OF inv that] by auto
  moreover have "length (picks s) = n * nat (s32round p)" if fin: "worker_finished n s"
  proof -
    have "s32round_no s j + picked (wpc s j) = nat (s32round p)" if "j < n" for j
      using worker_invD(1) [OF inv that] fin that by (auto simp: worker_finished_def list_all_iff)
    then show ?thesis using worker_invD(7) [OF inv] by simp
  qed
  ultimately show ?thesis using worker_invD(4) [OF inv] by (simp add: round_robin_so_far_def list_all_iff)
qed

text \<open>The picks are spread evenly: how often number \<open>j\<close> of the cabin has been taken after \<open>k\<close> picks.\<close>

lemma round_robin_count:
  assumes "j < cnt"
  shows "count_list (round_robin cnt k) (int j) = k div cnt + (if j < k mod cnt then 1 else 0)"
proof (induction k)
  case 0
  then show ?case by (simp add: round_robin_def)
next
  case (Suc k)
  have "count_list (round_robin cnt (Suc k)) (int j)
      = count_list (round_robin cnt k) (int j) + (if k mod cnt = j then 1 else 0)"
    by (simp add: round_robin_Suc)
  moreover have "k mod cnt < cnt" using assms by (intro mod_less_divisor) simp
  ultimately show ?case using Suc assms by (auto simp: div_Suc mod_Suc)
qed

section \<open>Properties\<close>

text \<open>C6: in every reachable state of the worker threads, for a configuration that passed
  \<open>parsing_input\<close> and a list without a number above 1290 in size (whose cube would overflow): no thread has faulted; the numbers of the cabin have been taken round-robin,
  the \<open>k\<close>-th pick being number \<open>k mod s32cnt\<close>; nobody has picked before all threads had reached the
  barrier; and when all threads are done there were \<open>s32round\<close> picks for each of them.\<close>

theorem worker_picks_round_robin:
  assumes "prof_arg_ok p" and "cabin_small p"
    and "reach (\<lambda>s. prof_arg_ok p \<and> cabin_small p \<and> worker_init s) (worker_step p n) s"
  shows "list_all (\<lambda>i. wpc s i \<noteq> WFault) [0..<n] \<and>
    picks s = map (\<lambda>k. int (k mod nat (s32cnt p))) [0..<length (picks s)] \<and>
    (picks s \<noteq> [] \<longrightarrow> list_all (\<lambda>i. wpc s i \<noteq> WStart) [0..<n]) \<and>
    (worker_finished n s \<longrightarrow> length (picks s) = n * nat (s32round p))"
proof -
  have inv: "worker_inv p n s" using workers.reach_inv [OF assms(3)] by blast
  have "wpc s i \<noteq> WStart" if "picks s \<noteq> []" "i < n" for i
  proof -
    have "(\<Sum>j<n. s32round_no s j + picked (wpc s j)) \<noteq> 0" using worker_invD(7) [OF inv] that(1) by (metis length_0_conv)
    then have "\<exists>j<n. s32round_no s j + picked (wpc s j) \<noteq> 0" by (rule contrapos_np) simp
    then obtain j where j: "j < n" "s32round_no s j + picked (wpc s j) \<noteq> 0" by blast
    then have "past_bar (wpc s j)" using worker_invD(1) [OF inv j(1)] by (cases "wpc s j") auto
    then have "arrived s = n" by (rule worker_invD(6) [OF inv j(1)])
    then show ?thesis using worker_invD(5) [OF inv] that(2) tally_full_iff [of n "\<lambda>pc. pc \<noteq> WStart" "wpc s"] by auto
  qed
  then show ?thesis using worker_inv_round_robin [OF inv]
    by (simp add: round_robin_so_far_def round_robin_def list_all_iff)
qed

definition demo_arg :: prof_arg where
  "demo_arg = \<lparr>s32pthpercore = 2, as32prio = [0, 0], s32sched_policy = 0, s32round = 2, s32iter = 3,
     s32cnt = 3, ps32cabin = Some [5, -6, 7]\<rparr>"

definition demo_workers :: workers where
  "demo_workers = \<lparr>gs32cabinidx = 0, gmutex_cabinidx = None, arrived = 0, wpc = \<lambda>_. WStart,
     s32idx = \<lambda>_. 0, s32base = \<lambda>_. 0, s32round_no = \<lambda>_. 0, picks = []\<rparr>"

lemma demo_ok: "prof_arg_ok demo_arg" "cabin_small demo_arg" "worker_init demo_workers"
  by (simp_all add: prof_arg_ok_def demo_arg_def cabin_small_def worker_init_def demo_workers_def)

text \<open>From every such state the threads can all finish: there is no deadlock at the barrier or the
  mutex, and every loop ends.\<close>

theorem worker_can_finish:
  assumes "prof_arg_ok p" and "cabin_small p"
    and "reach (\<lambda>s. prof_arg_ok p \<and> cabin_small p \<and> worker_init s) (worker_step p n) s"
  shows "\<exists>t. (worker_step p n)\<^sup>*\<^sup>* s t \<and> worker_finished n t"
  using workers.can_finish [of p n s] workers.reach_inv [OF assms(3)] by blast

theorem worker_can_finish_witness:
  "\<exists>t. (worker_step demo_arg 4)\<^sup>*\<^sup>* demo_workers t \<and> worker_finished 4 t"
  by (rule worker_can_finish [OF demo_ok(1,2)]) (rule reach_init, use demo_ok in blast)

theorem worker_picks_round_robin_witness:
  "\<exists>t. (worker_step demo_arg 2)\<^sup>*\<^sup>* demo_workers t \<and> picks t = [0, 1, 2, 0]"
proof -
  let ?I = "\<lambda>s. prof_arg_ok demo_arg \<and> cabin_small demo_arg \<and> worker_init s"
  have i: "reach ?I (worker_step demo_arg 2) demo_workers" by (rule reach_init) (use demo_ok in blast)
  have inv: "worker_inv demo_arg 2 demo_workers" using workers.reach_inv [OF i] by blast
  obtain t where t: "(worker_step demo_arg 2)\<^sup>*\<^sup>* demo_workers t" "worker_finished 2 t"
    using workers.can_finish [of demo_arg 2 demo_workers] inv demo_ok(1,2) by blast
  have "reach ?I (worker_step demo_arg 2) t" using i t(1) by (rule reach_steps)
  note p = worker_picks_round_robin [OF demo_ok(1,2) this]
  have "length (picks t) = 4" using p t(2) by (simp add: demo_arg_def)
  moreover have "picks t = map (\<lambda>k. int (k mod 3)) [0..<length (picks t)]" using p by (simp add: demo_arg_def)
  ultimately have "picks t = map (\<lambda>k. int (k mod 3)) [0..<4]" by simp
  also have "\<dots> = [0, 1, 2, 0]" by (simp add: upt_conv_Cons)
  finally show ?thesis using t(1) by blast
qed

end
