(* ===== verification/Lab02Main.thy ===== *)
theory Lab02Main
  imports Lab02Worker
begin

text \<open>
  \<open>main\<close> of \<open>lab02/src/main.c\<close> and \<open>set_pthread_schedinfo_attr\<close>: parse, initialise the lock of the cabin
  and the barrier the program is built with, create \<open>s32pthpercore\<close> threads on each core with their
  priorities, join them, destroy everything. The answers of the operating system are a record of
  functions; the effects of the pthread calls are the number the barrier is set to, and the
  attributes and arguments that each thread is created with. The run of the threads themselves is in
  \<open>Lab02Worker\<close> and \<open>Lab02Builds\<close>.
\<close>

section \<open>The program\<close>

text \<open>The builds: \<open>pthread_barrier_t\<close> by default, \<open>CUSTOM_BARRIER\<close>, \<open>CUSTOM_SPIN_BARRIER\<close>.\<close>

datatype barrier_kind = PthreadBarrier | CustomBarrier | CustomSpinBarrier

text \<open>
  Which calls succeed. \<open>grants_array j bytes\<close> are the three \<open>malloc\<close> calls for the arrays of the threads: \<open>ppthread\<close>
  (0), \<open>pstrattr\<close> (1) and \<open>pstrworkarg\<close> (2), with the sizes of their elements and the width of \<open>size_t\<close>.
  \<open>cabin_lock_ok\<close> is \<open>pthread_mutex_init\<close> of \<open>gmutex_cabinidx\<close>, or \<open>pthread_spin_init\<close> of
  \<open>gspin_cabinidx\<close> under \<open>USE_SPINLOCK\<close>; both exit with the same code when they fail.
\<close>

record os =
  affinity_ok :: "int \<Rightarrow> bool"
  policy_ok :: "int \<Rightarrow> bool"
  param_ok :: "int \<Rightarrow> int \<Rightarrow> bool"
  create_ok :: "int \<Rightarrow> bool"
  size_t_bits :: nat
  elem_size :: "nat \<Rightarrow> nat"
  grants_array :: "nat \<Rightarrow> nat \<Rightarrow> bool"
  cabin_lock_ok :: bool
  bar_mutex_ok :: bool
  bar_cond_ok :: bool
  barrier_ok :: "int \<Rightarrow> bool"
  destroy_cond_ok :: bool
  destroy_bar_mutex_ok :: bool
  destroy_barrier_ok :: bool
  destroy_cabin_lock_ok :: bool

record thread_attr =
  at_core :: int
  at_policy :: int
  at_prio :: int

record work_arg =
  wa_prio :: int
  pstrprofarg :: prof_arg

text \<open>The process exits with a code after printing, or accesses an array out of bounds.\<close>

datatype main_end = Exit int string | OutOfBounds

definition error_exit :: "int \<Rightarrow> main_end" where
  "error_exit eno = Exit eno (print_error eno)"

definition useage :: string where
  "useage = ''Useage:'' @ [CHR 0x0A, CHR 0x09] @ ''./run <Sched> <Round> <Iter> <Data0> [Data1 ...]'' @ [CHR 0x0A]"

definition useage_cfg :: string where
  "useage_cfg = ''ext.cfg should be'' @ [CHR 0x0A, CHR 0x09] @ ''<Num of Threads per core> <Priority1> <Priority2>'' @ [CHR 0x0A]"

definition set_pthread_schedinfo_attr :: "os \<Rightarrow> int \<Rightarrow> int \<Rightarrow> int \<Rightarrow> main_end + thread_attr" where
  "set_pthread_schedinfo_attr os s32policy s32prio s32coreid =
     (if \<not> affinity_ok os s32coreid then Inl (error_exit ERR_PIN_CORE)
      else if s32policy \<notin> {SCHED_OTHER, SCHED_RR, SCHED_FIFO} then Inl (error_exit ERR_SET_POLICY)
      else
        let sched_priority = (if s32policy = SCHED_OTHER then 0 else s32prio) in
        if \<not> policy_ok os s32policy then Inl (error_exit ERR_SET_POLICY)
        else if \<not> param_ok os s32policy sched_priority then Inl (error_exit ERR_SET_PRIORITY)
        else Inr \<lparr>at_core = s32coreid, at_policy = s32policy, at_prio = sched_priority\<rparr>)"

text \<open>A loop that may end the process.\<close>

primrec loop_e :: "('x \<Rightarrow> 's \<Rightarrow> 'e + 's) \<Rightarrow> 'x list \<Rightarrow> 's \<Rightarrow> 'e + 's" where
  "loop_e f [] s = Inr s"
| "loop_e f (x # xs) s = (case f x s of Inl e \<Rightarrow> Inl e | Inr t \<Rightarrow> loop_e f xs t)"

text \<open>The elements of \<open>ppthread\<close>: argument and attributes of the threads created so far.\<close>

type_synonym threads = "(work_arg \<times> thread_attr) option list"

definition threadcnt :: "prof_arg \<Rightarrow> int \<Rightarrow> int" where
  "threadcnt p s32PCPUcnt = wrap32 (s32PCPUcnt * s32pthpercore p)"

text \<open>
  The elements that array \<open>j\<close> gets: \<open>s32threadcnt\<close> is converted to \<open>size_t\<close>, the product wraps around, and
  nobody looks at the result of \<open>malloc\<close>.
\<close>

definition thread_block :: "os \<Rightarrow> nat \<Rightarrow> int \<Rightarrow> nat" where
  "thread_block os j s32threadcnt =
     mem_block (size_t_bits os) (grants_array os j) (elem_size os j) (nat (s32threadcnt mod 2 ^ size_t_bits os))"

definition in_block :: "os \<Rightarrow> nat \<Rightarrow> prof_arg \<Rightarrow> int \<Rightarrow> int \<Rightarrow> bool" where
  "in_block os j p s32PCPUcnt k \<longleftrightarrow> 0 \<le> k \<and> k < int (thread_block os j (threadcnt p s32PCPUcnt))"

text \<open>\<open>pthread_create\<close> stores the handle in \<open>ppthread\<close> when it succeeds.\<close>

definition create_thread :: "os \<Rightarrow> prof_arg \<Rightarrow> int \<Rightarrow> int \<Rightarrow> int \<Rightarrow> threads \<Rightarrow> main_end + threads" where
  "create_thread os p s32PCPUcnt s32i s32j ts =
     (let s32idx = s32i * s32PCPUcnt + s32j;
          prio = (if s32i < s32pthpercore p sdiv 2 then as32prio p ! 0 else as32prio p ! 1)
      in
      if \<not> (in_block os 2 p s32PCPUcnt s32idx \<and> in_block os 1 p s32PCPUcnt s32idx) then Inl OutOfBounds
      else
        case set_pthread_schedinfo_attr os (s32sched_policy p) prio s32j of
          Inl e \<Rightarrow> Inl e
        | Inr attr \<Rightarrow>
            if \<not> create_ok os s32idx then Inl (error_exit ERR_THREAD_CREATE)
            else if \<not> in_block os 0 p s32PCPUcnt s32idx then Inl OutOfBounds
            else Inr (ts[nat s32idx := Some (\<lparr>wa_prio = prio, pstrprofarg = p\<rparr>, attr)]))"

definition create_threads :: "os \<Rightarrow> prof_arg \<Rightarrow> int \<Rightarrow> threads \<Rightarrow> main_end + threads" where
  "create_threads os p s32PCPUcnt =
     loop_e (\<lambda>s32i. loop_e (\<lambda>s32j. create_thread os p s32PCPUcnt s32i s32j) [0..s32PCPUcnt - 1])
       [0..s32pthpercore p - 1]"

text \<open>\<open>gstrArg\<close> before the parsing.\<close>

definition gstrArg0 :: prof_arg where
  "gstrArg0 = \<lparr>s32pthpercore = 2, as32prio = [0, 0], s32sched_policy = SCHED_OTHER, s32round = 0, s32iter = 0,
     s32cnt = 0, ps32cabin = None\<rparr>"

text \<open>The barrier of the build: an error code, or success.\<close>

definition init_barrier :: "barrier_kind \<Rightarrow> os \<Rightarrow> int \<Rightarrow> int option" where
  "init_barrier kind os s32threadcnt =
     (case kind of
        CustomBarrier \<Rightarrow>
          if \<not> bar_mutex_ok os then Some ERR_INIT_MUTEX
          else if \<not> bar_cond_ok os then Some ERR_INIT_MUTEX
          else None
      | CustomSpinBarrier \<Rightarrow> None
      | PthreadBarrier \<Rightarrow> if \<not> barrier_ok os s32threadcnt then Some ERR_SET_BARRIER else None)"

definition destroy_barrier :: "barrier_kind \<Rightarrow> os \<Rightarrow> int option" where
  "destroy_barrier kind os =
     (case kind of
        CustomBarrier \<Rightarrow>
          if \<not> destroy_cond_ok os then Some ERR_DES_MUTEX
          else if \<not> destroy_bar_mutex_ok os then Some ERR_DES_MUTEX
          else None
      | CustomSpinBarrier \<Rightarrow> None
      | PthreadBarrier \<Rightarrow> if \<not> destroy_barrier_ok os then Some ERR_DES_BARRIER else None)"

text \<open>
  On success: the parsed record, the number the barrier has been set to (\<open>gs32remain\<close>, \<open>gs32MAX_THREAD\<close>
  or the count of \<open>gstrbar\<close>), and the threads.
\<close>

definition lab02_main :: "barrier_kind \<Rightarrow> os \<Rightarrow> (nat \<Rightarrow> int list option) \<Rightarrow> string option \<Rightarrow> int \<Rightarrow> string list \<Rightarrow>
    main_end + (prof_arg \<times> int \<times> threads)" where
  "lab02_main kind os malloc cfg s32PCPUcnt argv =
     (case parsing_input malloc argv gstrArg0 of (s32ret, a) \<Rightarrow>
        if s32ret \<noteq> 0 then Inl (Exit s32ret (print_error s32ret @ useage))
        else case parsing_cfgfile cfg a of (s32ret, p) \<Rightarrow>
        if s32ret \<noteq> 0 then Inl (Exit s32ret (print_error s32ret @ useage_cfg))
        else
          let s32threadcnt = threadcnt p s32PCPUcnt;
              ts = replicate (thread_block os 0 s32threadcnt) None in
          if \<not> cabin_lock_ok os then Inl (error_exit ERR_INIT_MUTEX)
          else case init_barrier kind os s32threadcnt of
            Some e \<Rightarrow> Inl (error_exit e)
          | None \<Rightarrow>
          case create_threads os p s32PCPUcnt ts of
            Inl e \<Rightarrow> Inl e
          | Inr ts \<Rightarrow>
          case destroy_barrier kind os of
            Some e \<Rightarrow> Inl (error_exit e)
          | None \<Rightarrow>
              if \<not> destroy_cabin_lock_ok os then Inl (error_exit ERR_DES_MUTEX)
              else Inr (p, s32threadcnt, ts))"

section \<open>Facts\<close>

definition os_fine :: "os \<Rightarrow> bool" where
  "os_fine os \<longleftrightarrow> (\<forall>c. affinity_ok os c) \<and> (\<forall>x. policy_ok os x) \<and> (\<forall>x y. param_ok os x y) \<and>
     (\<forall>k. create_ok os k) \<and> cabin_lock_ok os \<and> bar_mutex_ok os \<and> bar_cond_ok os \<and> (\<forall>n. 0 < n \<longrightarrow> barrier_ok os n) \<and>
     destroy_cond_ok os \<and> destroy_bar_mutex_ok os \<and> destroy_barrier_ok os \<and> destroy_cabin_lock_ok os"

text \<open>The number of threads is an \<open>int\<close>, and there is memory for the three arrays.\<close>

definition arrays_fit :: "os \<Rightarrow> nat \<Rightarrow> bool" where
  "arrays_fit os n \<longleftrightarrow> int n \<le> INT_MAX \<and> list_all (\<lambda>j. n \<le> thread_block os j (int n)) [0, 1, 2]"

lemma thread_block_le: "thread_block os j (int n) \<le> n"
proof -
  have "int n mod 2 ^ w \<le> int n" for w by (rule zmod_le_nonneg_dividend) simp
  then have "nat (int n mod 2 ^ size_t_bits os) \<le> n" by (simp add: nat_le_iff)
  then show ?thesis unfolding thread_block_def by (rule le_trans [OF mem_block_le])
qed

lemma arrays_fit_block:
  assumes "arrays_fit os n"
  shows "thread_block os 0 (int n) = n" "thread_block os (Suc 0) (int n) = n" "thread_block os 2 (int n) = n"
  using assms thread_block_le [of os 0 n] thread_block_le [of os 1 n] thread_block_le [of os 2 n]
  by (simp_all add: arrays_fit_def)

lemma threadcnt_fits:
  assumes "arrays_fit os n" and "int n = s32PCPUcnt * s32pthpercore p"
  shows "threadcnt p s32PCPUcnt = int n"
  unfolding threadcnt_def assms(2) [symmetric]
  by (rule wrap32_id) (use assms(1) in \<open>simp_all add: arrays_fit_def\<close>)

lemma barrier_fine:
  assumes "os_fine os" and "0 < n"
  shows "init_barrier kind os n = None" and "destroy_barrier kind os = None"
  using assms by (cases kind; simp add: os_fine_def init_barrier_def destroy_barrier_def)+

text \<open>The thread that index \<open>k\<close> stands for: its core and its half of the priorities.\<close>

definition planned :: "prof_arg \<Rightarrow> nat \<Rightarrow> nat \<Rightarrow> work_arg \<times> thread_attr" where
  "planned p cpus k =
     (let prio = (if int (k div cpus) < s32pthpercore p div 2 then as32prio p ! 0 else as32prio p ! 1) in
      (\<lparr>wa_prio = prio, pstrprofarg = p\<rparr>,
       \<lparr>at_core = int (k mod cpus), at_policy = s32sched_policy p,
        at_prio = (if s32sched_policy p = SCHED_OTHER then 0 else prio)\<rparr>))"

text \<open>After \<open>k\<close> threads have been created.\<close>

definition created_upto :: "prof_arg \<Rightarrow> nat \<Rightarrow> nat \<Rightarrow> nat \<Rightarrow> threads" where
  "created_upto p cpus tot k = map (\<lambda>j. if j < k then Some (planned p cpus j) else None) [0..<tot]"

lemma created_upto_upd:
  "k < tot \<Longrightarrow> (created_upto p cpus tot k)[k := Some (planned p cpus k)] = created_upto p cpus tot (Suc k)"
  by (rule nth_equalityI) (auto simp: created_upto_def nth_list_update less_Suc_eq)

lemma create_thread_planned:
  assumes "os_fine os" and "s32sched_policy p \<in> {SCHED_OTHER, SCHED_RR, SCHED_FIFO}" and "0 \<le> s32pthpercore p"
    and "j < cpus" and "i * cpus + j < tot" and "arrays_fit os tot" and "int tot = int cpus * s32pthpercore p"
  shows "create_thread os p (int cpus) (int i) (int j) (created_upto p cpus tot (i * cpus + j)) =
    Inr (created_upto p cpus tot (Suc (i * cpus + j)))"
proof -
  define k where "k = i * cpus + j"
  define prio where "prio = (if int i < s32pthpercore p div 2 then as32prio p ! 0 else as32prio p ! 1)"
  define attr where "attr = \<lparr>at_core = int j, at_policy = s32sched_policy p,
    at_prio = (if s32sched_policy p = 0 then 0 else prio)\<rparr>"
  have idx: "int i * int cpus + int j = int k" by (simp add: k_def)
  have "k div cpus = i" "k mod cpus = j" using assms(4) by (simp_all add: k_def)
  then have pl: "planned p cpus k = (\<lparr>wa_prio = prio, pstrprofarg = p\<rparr>, attr)"
    by (simp add: planned_def prio_def attr_def Let_def)
  have half: "s32pthpercore p sdiv 2 = s32pthpercore p div 2"
    using assms(3) by (simp add: signed_divide_int_def sgn_if)
  have at: "set_pthread_schedinfo_attr os (s32sched_policy p) prio (int j) = Inr attr"
    using assms(1,2) by (simp add: set_pthread_schedinfo_attr_def os_fine_def Let_def attr_def)
  have blk: "in_block os 0 p (int cpus) (int k)" "in_block os 1 p (int cpus) (int k)" "in_block os 2 p (int cpus) (int k)"
    using assms(5) arrays_fit_block [OF assms(6)] unfolding in_block_def threadcnt_fits [OF assms(6,7)] k_def [symmetric]
    by simp_all
  have "create_ok os (int k)" using assms(1) by (simp add: os_fine_def)
  moreover have "k < tot" using assms(5) by (simp add: k_def)
  ultimately show ?thesis
    unfolding create_thread_def half Let_def idx k_def [symmetric] prio_def [symmetric]
    using at blk created_upto_upd [of k tot p cpus] pl by simp
qed

lemma loop_e_upto:
  assumes "\<And>j. j < n \<Longrightarrow> f (int j) (S j) = Inr (S (Suc j))"
  shows "loop_e f [0..int n - 1] (S 0) = Inr (S n)"
proof -
  have "loop_e f (map int [k..<n]) (S k) = Inr (S n)" if "k \<le> n" for k
    using that
  proof (induction "n - k" arbitrary: k)
    case (Suc m)
    then have "[k..<n] = k # [Suc k..<n]" by (simp add: upt_conv_Cons)
    then show ?case using Suc assms [of k] by simp
  qed simp
  from this [of 0] have "loop_e f (map int [0..<n]) (S 0) = Inr (S n)" by simp
  moreover have "[0..int n - 1] = map int [0..<n]" by (rule nth_equalityI) (simp_all add: nth_upto)
  ultimately show ?thesis by simp
qed

lemma create_threads_planned:
  assumes "os_fine os" and "s32sched_policy p \<in> {SCHED_OTHER, SCHED_RR, SCHED_FIFO}" and "s32pthpercore p = int m"
    and fit: "arrays_fit os (cpus * m)"
  shows "create_threads os p (int cpus) (replicate (cpus * m) None) = Inr (created_upto p cpus (cpus * m) (cpus * m))"
proof -
  let ?tot = "cpus * m"
  let ?S = "created_upto p cpus ?tot"
  have inner: "loop_e (create_thread os p (int cpus) (int i)) [0..int cpus - 1] (?S (i * cpus)) = Inr (?S (Suc i * cpus))"
    if "i < m" for i
  proof -
    have "Suc i * cpus \<le> m * cpus" using that by (intro mult_le_mono1) simp
    then have lt: "i * cpus + j < ?tot" if "j < cpus" for j using that by (simp add: mult.commute)
    have "loop_e (create_thread os p (int cpus) (int i)) [0..int cpus - 1] (?S (i * cpus + 0)) = Inr (?S (i * cpus + cpus))"
      by (rule loop_e_upto [where S = "\<lambda>j. ?S (i * cpus + j)"])
        (use create_thread_planned [OF assms(1,2) _ _ lt fit] assms(3) in simp)
    then show ?thesis by (simp add: add.commute)
  qed
  have "loop_e (\<lambda>i. loop_e (create_thread os p (int cpus) i) [0..int cpus - 1]) [0..int m - 1] (?S (0 * cpus)) = Inr (?S (m * cpus))"
    by (rule loop_e_upto [where S = "\<lambda>i. ?S (i * cpus)"]) (rule inner)
  moreover have "replicate ?tot None = ?S 0" by (rule nth_equalityI) (simp_all add: created_upto_def)
  ultimately show ?thesis using assms(3) by (simp add: create_threads_def mult.commute)
qed

text \<open>The threads of a core, as \<open>main\<close> has created them, in the order of their indices.\<close>

definition on_core :: "int \<Rightarrow> threads \<Rightarrow> (work_arg \<times> thread_attr) list" where
  "on_core core ts = filter (\<lambda>t. at_core (snd t) = core) (map the (filter (\<lambda>t. t \<noteq> None) ts))"

lemma filter_upt_eq: "c < n \<Longrightarrow> filter (\<lambda>j. j = c) [0..<n] = [c]"
  by (induction n) (auto simp: less_Suc_eq filter_empty_conv)

lemma core_indices:
  assumes "core < cpus"
  shows "filter (\<lambda>k. k mod cpus = core) [0..<cpus * m] = map (\<lambda>i. i * cpus + core) [0..<m]"
proof (induction m)
  case (Suc m)
  have "[0..<cpus * Suc m] = [0..<cpus * m] @ map (\<lambda>j. j + cpus * m) [0..<cpus]"
    using upt_add_eq_append [of 0 "cpus * m" cpus] by (simp add: map_add_upt add.commute)
  moreover have "filter (\<lambda>j. j mod cpus = core) [0..<cpus] = [core]"
  proof -
    have "filter (\<lambda>j. j mod cpus = core) [0..<cpus] = filter (\<lambda>j. j = core) [0..<cpus]"
      by (rule filter_cong) simp_all
    then show ?thesis using filter_upt_eq [OF assms] by simp
  qed
  ultimately show ?case using Suc by (simp add: filter_map comp_def)
qed simp

lemma on_core_created:
  assumes "core < cpus" and "s32pthpercore p = int m"
  shows "map (\<lambda>t. wa_prio (fst t)) (on_core (int core) (created_upto p cpus (cpus * m) (cpus * m))) =
    replicate (m div 2) (as32prio p ! 0) @ replicate (m - m div 2) (as32prio p ! 1)"
proof -
  have c: "created_upto p cpus (cpus * m) (cpus * m) = map (\<lambda>k. Some (planned p cpus k)) [0..<cpus * m]"
    by (simp add: created_upto_def)
  have at: "at_core (snd (planned p cpus k)) = int core \<longleftrightarrow> k mod cpus = core" for k
    by (simp add: planned_def Let_def)
  have "on_core (int core) (created_upto p cpus (cpus * m) (cpus * m)) = map (planned p cpus) (filter (\<lambda>k. k mod cpus = core) [0..<cpus * m])"
    by (simp add: on_core_def c filter_map comp_def at)
  also have "map (\<lambda>t. wa_prio (fst t)) \<dots> = map (\<lambda>i. if i < m div 2 then as32prio p ! 0 else as32prio p ! 1) [0..<m]"
  proof -
    have half: "int i < s32pthpercore p div 2 \<longleftrightarrow> i < m div 2" for i
      unfolding assms(2) by presburger
    have "wa_prio (fst (planned p cpus (i * cpus + core))) = (if i < m div 2 then as32prio p ! 0 else as32prio p ! 1)" for i
      using assms(1) half [of i] by (simp add: planned_def Let_def)
    then show ?thesis unfolding core_indices [OF assms(1)] map_map comp_def by simp
  qed
  also have "\<dots> = replicate (m div 2) (as32prio p ! 0) @ replicate (m - m div 2) (as32prio p ! 1)"
    by (rule nth_equalityI) (simp_all add: nth_append)
  finally show ?thesis .
qed

lemma lab02_main_succeeds:
  assumes "os_fine os" and "\<And>k b. malloc k = Some b \<Longrightarrow> length b = k"
    and "parsing_input malloc argv gstrArg0 = (0, a)" and "parsing_cfgfile cfg a = (0, p)"
    and "s32pthpercore p = int m" and "0 < m" and "0 < cpus" and "arrays_fit os (cpus * m)"
  shows "lab02_main kind os malloc cfg (int cpus) argv =
      Inr (p, int (cpus * m), created_upto p cpus (cpus * m) (cpus * m))" and "prof_arg_ok p"
proof -
  show ok: "prof_arg_ok p"
    by (rule parsing_cfgfile_arg_ok [OF assms(4)]) (rule parsing_input_arg_ok [OF assms(2,3)])
  then have pol: "s32sched_policy p \<in> {0, 2, 1}" by (auto simp: prof_arg_ok_def)
  have cnt: "threadcnt p (int cpus) = int (cpus * m)" using assms(5,8) by (intro threadcnt_fits) simp_all
  have "0 < int (cpus * m)" using assms(6,7) by simp
  note bar = barrier_fine [OF assms(1) this]
  show "lab02_main kind os malloc cfg (int cpus) argv =
      Inr (p, int (cpus * m), created_upto p cpus (cpus * m) (cpus * m))"
    using assms(1,3,4) create_threads_planned [OF assms(1) pol assms(5,8)] bar arrays_fit_block(1) [OF assms(8)]
    by (simp add: lab02_main_def cnt Let_def os_fine_def del: of_nat_mult)
qed

text \<open>Every exit on the way to the threads and after them is that of an error of the table.\<close>

definition reports :: "main_end \<Rightarrow> bool" where
  "reports e \<longleftrightarrow> e = OutOfBounds \<or> (\<exists>c \<in> error_codes. e = error_exit c)"

lemma loop_e_Inl:
  "loop_e f xs s = Inl e \<Longrightarrow> (\<And>x s e. f x s = Inl e \<Longrightarrow> P e) \<Longrightarrow> P e"
  by (induction xs arbitrary: s) (auto split: sum.splits)

lemma create_threads_reports:
  assumes "create_threads os p n ts = Inl e"
  shows "reports e"
proof (rule loop_e_Inl [OF assms [unfolded create_threads_def]], erule loop_e_Inl)
  fix i j us e
  assume "create_thread os p n i j us = Inl e"
  then show "reports e"
    by (auto simp: create_thread_def set_pthread_schedinfo_attr_def reports_def Let_def
        split: if_splits sum.splits)
qed

lemma lab02_main_reports:
  assumes "parsing_input malloc argv gstrArg0 = (0, a)" and "parsing_cfgfile cfg a = (0, p)"
    and "lab02_main kind os malloc cfg cpus argv = Inl e"
  shows "reports e"
proof -
  have "init_barrier kind os n = Some c \<or> destroy_barrier kind os = Some c \<Longrightarrow> c \<in> error_codes" for n c
    by (cases kind) (auto simp: init_barrier_def destroy_barrier_def split: if_splits)
  then have bar: "init_barrier kind os n = Some c \<Longrightarrow> reports (error_exit c)"
    "destroy_barrier kind os = Some c \<Longrightarrow> reports (error_exit c)" for n c
    by (auto simp: reports_def)
  have mx: "reports (error_exit ERR_INIT_MUTEX)" "reports (error_exit ERR_DES_MUTEX)"
    by (auto simp: reports_def)
  show ?thesis using assms mx bar create_threads_reports
    by (auto simp: lab02_main_def Let_def split: if_splits option.splits sum.splits)
qed

section \<open>Properties\<close>

text \<open>C20: when every call of \<open>main\<close> succeeds (affinity, policy, priority, creation, barrier, lock and
  memory), the command line is accepted, and the configuration asks for \<open>m > 0\<close> threads per core, \<open>main\<close>
  succeeds in every build exactly with the parsed arguments, has set the barrier to the number of threads, and has
  created every thread once: thread \<open>k\<close> is pinned to core \<open>k mod\<close> the number of cores (and has priority 0 in its
  attributes under \<open>SCHED_OTHER\<close>), and each core gets \<open>m\<close> threads, the lower half with the first priority of the
  configuration, the others with the second.\<close>

theorem lab02_main_creates_plan:
  assumes "os_fine os" and "\<And>k b. malloc k = Some b \<Longrightarrow> length b = k"
    and "parsing_input malloc argv gstrArg0 = (0, a)" and "parsing_cfgfile cfg a = (0, p)"
    and "s32pthpercore p = int m" and "0 < m" and "0 < cpus" and "arrays_fit os (cpus * m)"
  shows "\<exists>ts. lab02_main kind os malloc cfg (int cpus) argv = Inr (p, int (length ts), ts) \<and> prof_arg_ok p \<and>
    length ts = cpus * m \<and> (\<forall>k < cpus * m. ts ! k = Some (planned p cpus k)) \<and>
    (\<forall>core < cpus. map (\<lambda>t. wa_prio (fst t)) (on_core (int core) ts) =
      replicate (m div 2) (as32prio p ! 0) @ replicate (m - m div 2) (as32prio p ! 1))"
  using lab02_main_succeeds(1) [OF assms, of kind] lab02_main_succeeds(2) [OF assms] on_core_created [OF _ assms(5), of _ cpus]
  by (intro exI [of _ "created_upto p cpus (cpus * m) (cpus * m)"]) (simp add: created_upto_def)

text \<open>Without the arrays the first store of \<open>main\<close> goes through a null pointer.\<close>

theorem lab02_main_null_arrays:
  assumes "parsing_input malloc argv gstrArg0 = (0, a)" and "parsing_cfgfile cfg a = (0, p)"
    and "s32pthpercore p = int (Suc m)" and "cabin_lock_ok os" and "init_barrier kind os (threadcnt p (int (Suc c))) = None"
    and "\<forall>bytes. \<not> grants_array os 2 bytes"
  shows "lab02_main kind os malloc cfg (int (Suc c)) argv = Inl OutOfBounds"
proof -
  have up: "[0..int k] = 0 # [1..int k]" for k by (subst upto_rec1) simp_all
  have "\<not> in_block os 2 p (int (Suc c)) k" for k
    using assms(6) by (simp add: in_block_def thread_block_def mem_block_def Let_def)
  then have "create_threads os p (int (Suc c)) ts = Inl OutOfBounds" for ts
    using assms(3) by (simp add: create_threads_def create_thread_def up Let_def)
  then show ?thesis using assms by (simp add: lab02_main_def Let_def)
qed

definition fine_os :: os where
  "fine_os = \<lparr>affinity_ok = \<lambda>_. True, policy_ok = \<lambda>_. True, param_ok = \<lambda>_ _. True, create_ok = \<lambda>_. True,
     size_t_bits = 64, elem_size = (!) [8, 56, 16], grants_array = \<lambda>_ _. True, cabin_lock_ok = True, bar_mutex_ok = True, bar_cond_ok = True, barrier_ok = \<lambda>n. 0 < n, destroy_cond_ok = True,
     destroy_bar_mutex_ok = True, destroy_barrier_ok = True, destroy_cabin_lock_ok = True\<rparr>"

lemma fine_os_block:
  assumes "int n \<le> INT_MAX"
  shows "thread_block fine_os 0 (int n) = n" "thread_block fine_os (Suc 0) (int n) = n" "thread_block fine_os 2 (int n) = n"
proof -
  have k: "nat (int n mod 2 ^ 64) = n" using assms by simp
  have "n \<le> mem_block 64 (\<lambda>_. True) sz n" if "sz \<in> {8, 56, 16}" for sz
    using assms that by (subst mem_block_full) auto
  then have "n \<le> thread_block fine_os 0 (int n)" "n \<le> thread_block fine_os (Suc 0) (int n)" "n \<le> thread_block fine_os 2 (int n)"
    using k by (simp_all add: thread_block_def fine_os_def)
  then show "thread_block fine_os 0 (int n) = n" "thread_block fine_os (Suc 0) (int n) = n" "thread_block fine_os 2 (int n) = n"
    using thread_block_le by (simp_all add: le_antisym)
qed

lemma fine_os_fit: "int n \<le> INT_MAX \<Longrightarrow> arrays_fit fine_os n"
  by (simp add: arrays_fit_def fine_os_block)

text \<open>C21: whatever fails, in every build, \<open>main\<close> exits with the code of that error, which is in the table and
  not 0, after printing its message; the usage is added for a rejected command line, and that of the
  configuration file for a missing one.\<close>

theorem lab02_main_error_exits:
  assumes "lab02_main kind os malloc cfg cpus argv = Inl (Exit c out)"
  shows "c \<in> error_codes \<and> c \<noteq> 0 \<and>
    out = print_error c @
      (if fst (parsing_input malloc argv gstrArg0) \<noteq> 0 then useage
       else if fst (parsing_cfgfile cfg (snd (parsing_input malloc argv gstrArg0))) \<noteq> 0 then useage_cfg else [])"
proof -
  obtain r a where in': "parsing_input malloc argv gstrArg0 = (r, a)" by (cases "parsing_input malloc argv gstrArg0")
  obtain q p where cf: "parsing_cfgfile cfg a = (q, p)" by (cases "parsing_cfgfile cfg a")
  have codes: "r = 0 \<or> r \<in> error_codes" "q = 0 \<or> q \<in> error_codes"
    using parsers_codes(1) [of malloc argv gstrArg0] parsers_codes(2) [of cfg a] in' cf by auto
  consider "r \<noteq> 0" | "r = 0" "q \<noteq> 0" | "r = 0" "q = 0" by blast
  then have "c \<in> error_codes \<and> out = print_error c @ (if r \<noteq> 0 then useage else if q \<noteq> 0 then useage_cfg else [])"
  proof cases
    case 3
    have "reports (Exit c out)" using in' cf assms unfolding 3 by (rule lab02_main_reports)
    then show ?thesis using 3 by (auto simp: reports_def error_exit_def)
  qed (use assms codes in' cf in \<open>auto simp: lab02_main_def\<close>)
  then show ?thesis using in' cf by auto
qed

theorem lab02_main_error_exits_witness:
  "\<exists>out. lab02_main CustomSpinBarrier (fine_os\<lparr>create_ok := \<lambda>k. k < 5\<rparr>) (\<lambda>k. Some (replicate k 7)) (Some ''3 10 20'') 2
      [''lab02_main'', ''SCHED_RR'', ''1'', ''1'', ''2''] = Inl (Exit ERR_THREAD_CREATE out) \<and>
     out = print_error ERR_THREAD_CREATE"
proof -
  let ?argv = "[''lab02_main'', ''SCHED_RR'', ''1'', ''1'', ''2'']"
  let ?os = "fine_os\<lparr>create_ok := \<lambda>k. k < 5\<rparr>" and ?malloc = "\<lambda>k. Some (replicate k (7 :: int))"
  have at: "atoi ''1'' = 1" "atoi ''2'' = 2" by code_simp+
  have sc: "scan_d ''3 10 20'' = Some (3, '' 10 20'')" "scan_d '' 10 20'' = Some (10, '' 20'')" "scan_d '' 20'' = Some (20, [])"
    by code_simp+
  let ?p = "\<lparr>s32pthpercore = 3, as32prio = [10, 20], s32sched_policy = 2, s32round = 1, s32iter = 1,
     s32cnt = 1, ps32cabin = Some [2]\<rparr>"
  obtain a where a: "parsing_input ?malloc ?argv gstrArg0 = (0, a)" and p: "parsing_cfgfile (Some ''3 10 20'') a = (0, ?p)"
    by (simp add: parsing_input_def check_sched_policy_def at Let_def gstrArg0_def fill_cabin_def
        parsing_cfgfile_def scan_into_def sc)
  have cnt: "threadcnt ?p 2 = int 6" by (simp add: threadcnt_def wrap32_id)
  have tb: "thread_block ?os j c = thread_block fine_os j c" for j c by (simp add: thread_block_def)
  have blk: "in_block ?os 0 ?p 2 k \<longleftrightarrow> 0 \<le> k \<and> k < 6" "in_block ?os (Suc 0) ?p 2 k \<longleftrightarrow> 0 \<le> k \<and> k < 6"
    "in_block ?os 2 ?p 2 k \<longleftrightarrow> 0 \<le> k \<and> k < 6" for k
    unfolding in_block_def cnt tb by (subst fine_os_block; simp)+
  have up: "[0..2] = [0, 1, 2 :: int]" "[0..1] = [0, 1 :: int]" by code_simp+
  have "set_pthread_schedinfo_attr ?os 2 z c = Inr \<lparr>at_core = c, at_policy = 2, at_prio = z\<rparr>" for z c
    by (simp add: set_pthread_schedinfo_attr_def fine_os_def Let_def)
  moreover have "create_ok ?os k \<longleftrightarrow> k < 5" for k by simp
  ultimately have "create_threads ?os ?p 2 ts = Inl (error_exit ERR_THREAD_CREATE)" for ts
    by (simp add: create_threads_def create_thread_def up blk Let_def)
  moreover have "cabin_lock_ok ?os" by (simp add: fine_os_def)
  ultimately obtain out where o: "lab02_main CustomSpinBarrier ?os ?malloc (Some ''3 10 20'') 2 ?argv = Inl (Exit ERR_THREAD_CREATE out)"
    using a p by (simp add: lab02_main_def init_barrier_def error_exit_def Let_def)
  from lab02_main_error_exits [OF this] show ?thesis using a p o by simp
qed

theorem lab02_main_creates_plan_witness:
  "\<exists>p ts. lab02_main CustomBarrier fine_os (\<lambda>k. Some (replicate k 7)) (Some ''3 10 20'') 4
      [''lab02_main'', ''SCHED_RR'', ''100'', ''1000'', ''2''] = Inr (p, 12, ts) \<and> length ts = 12 \<and>
    ts ! 9 = Some (\<lparr>wa_prio = 20, pstrprofarg = p\<rparr>, \<lparr>at_core = 1, at_policy = 2, at_prio = 20\<rparr>)"
proof -
  let ?argv = "[''lab02_main'', ''SCHED_RR'', ''100'', ''1000'', ''2'']"
  let ?malloc = "\<lambda>k. Some (replicate k (7 :: int))"
  let ?p = "\<lparr>s32pthpercore = 3, as32prio = [10, 20], s32sched_policy = 2, s32round = 100, s32iter = 1000,
     s32cnt = 1, ps32cabin = Some [2]\<rparr>"
  have at: "atoi ''100'' = 100" "atoi ''1000'' = 1000" "atoi ''2'' = 2" by code_simp+
  obtain a where a: "parsing_input ?malloc ?argv gstrArg0 = (0, a)"
    and av: "a = \<lparr>s32pthpercore = 2, as32prio = [0, 0], s32sched_policy = 2, s32round = 100, s32iter = 1000,
     s32cnt = 1, ps32cabin = Some [2]\<rparr>"
    by (simp add: parsing_input_def check_sched_policy_def at Let_def gstrArg0_def fill_cabin_def)
  have sc: "scan_d ''3 10 20'' = Some (3, '' 10 20'')" "scan_d '' 10 20'' = Some (10, '' 20'')" "scan_d '' 20'' = Some (20, [])"
    by code_simp+
  have p: "parsing_cfgfile (Some ''3 10 20'') a = (0, ?p)" by (simp add: parsing_cfgfile_def scan_into_def sc av)
  have fine: "os_fine fine_os" by (simp add: os_fine_def fine_os_def)
  obtain ts where ts: "lab02_main CustomBarrier fine_os ?malloc (Some ''3 10 20'') (int 4) ?argv = Inr (?p, int (length ts), ts)" "length ts = 4 * 3"
    "\<forall>k < 4 * 3. ts ! k = Some (planned ?p 4 k)"
    using lab02_main_creates_plan [OF fine _ a p, of 3 4 CustomBarrier] fine_os_fit [of 12] by auto
  then have "ts ! 9 = Some (planned ?p 4 9)" by simp
  also have "planned ?p 4 9 = (\<lparr>wa_prio = 20, pstrprofarg = ?p\<rparr>, \<lparr>at_core = 1, at_policy = 2, at_prio = 20\<rparr>)"
    by (simp add: planned_def)
  finally show ?thesis using ts(1) ts(2) by (intro exI [of _ ?p] exI [of _ ts]) simp
qed

end
