(* ===== verification/Lab02Builds.thy ===== *)
theory Lab02Builds
  imports Lab02Worker SpinBarrier SleepBarrier
begin

text \<open>
  \<open>work_fxn\<close> of \<open>lab02/src/main.c\<close> as it is built with \<open>CUSTOM_SPIN_BARRIER\<close> or \<open>CUSTOM_BARRIER\<close>: where
  the default build calls \<open>pthread_barrier_wait\<close>, the thread runs the code of \<open>SpinBarrier\<close> or of
  \<open>SleepBarrier\<close>, action by action, while the others go on. The interface \<open>barrier_build\<close> says what the
  worker threads need of a barrier; with it, every run of such a build is a run of the default build
  once the actions inside the barrier are erased, and all threads can finish.
\<close>

section \<open>The builds\<close>

text \<open>
  The state is that of the worker threads and that of the barrier. A thread at \<open>WStart\<close> is in the
  barrier code; when \<open>returns\<close>, it goes on to the round loop. \<open>arrived\<close> and \<open>WBar\<close>, which belong to
  \<open>pthread_barrier_t\<close>, are not used.
\<close>

definition build_next ::
    "(nat \<Rightarrow> 'c \<Rightarrow> 'b \<Rightarrow> 'b option) \<Rightarrow> (nat \<Rightarrow> 'b \<Rightarrow> 'b \<Rightarrow> bool) \<Rightarrow> prof_arg \<Rightarrow> nat \<Rightarrow> nat \<Rightarrow> 'c \<Rightarrow>
     workers \<times> 'b \<Rightarrow> (workers \<times> 'b) option" where
  "build_next bnxt returns p n i c x =
     (case x of (s, b) \<Rightarrow>
        if wpc s i = WStart then
          (case bnxt i c b of
             None \<Rightarrow> None
           | Some b' \<Rightarrow> Some (if returns i b b' then s\<lparr>wpc := (wpc s)(i := WLock)\<rparr> else s, b'))
        else
          (case worker_next p n i () s of None \<Rightarrow> None | Some s' \<Rightarrow> Some (s', b)))"

text \<open>The return from \<open>barrier_wait\<close>, and the last line of the \<open>CUSTOM_BARRIER\<close> branch.\<close>

definition bar_returns :: "nat \<Rightarrow> bar_state \<Rightarrow> bar_state \<Rightarrow> bool" where
  "bar_returns i b b' \<longleftrightarrow> bpc b i \<noteq> BRead \<and> bpc b' i = BRead"

definition cond_returns :: "nat \<Rightarrow> cond_state \<Rightarrow> cond_state \<Rightarrow> bool" where
  "cond_returns i b b' \<longleftrightarrow> cpc b i = CUnlock \<and> cpc b' i = CPast"

definition spin_build_next :: "prof_arg \<Rightarrow> nat \<Rightarrow> nat \<Rightarrow> unit \<Rightarrow> workers \<times> bar_state \<Rightarrow> (workers \<times> bar_state) option" where
  "spin_build_next p n = build_next (bar_next n) bar_returns p n"

definition sleep_build_next :: "prof_arg \<Rightarrow> nat \<Rightarrow> nat \<Rightarrow> bool \<Rightarrow> workers \<times> cond_state \<Rightarrow> (workers \<times> cond_state) option" where
  "sleep_build_next p n = build_next cond_next cond_returns p n"

section \<open>What the default build sees\<close>

text \<open>The barrier's calls, each thread calling once, as the state of the \<open>pthread_barrier_t\<close>.\<close>

definition seen_as :: "nat \<Rightarrow> barrier \<Rightarrow> workers \<Rightarrow> workers" where
  "seen_as n q s = s\<lparr>arrived := tally n (\<lambda>a. a \<noteq> 0) (fst q),
     wpc := (\<lambda>i. if wpc s i = WStart \<and> fst q i \<noteq> 0 then WBar else wpc s i)\<rparr>"

definition linked :: "barrier \<Rightarrow> workers \<Rightarrow> bool" where
  "linked q s \<longleftrightarrow> (\<forall>i. fst q i \<le> 1 \<and> snd q i \<le> fst q i \<and> (wpc s i = WStart \<longleftrightarrow> snd q i = 0) \<and> wpc s i \<noteq> WBar)"

lemma linkedD:
  assumes "linked q s"
  shows "fst q i \<le> 1" and "snd q i \<le> fst q i" and "wpc s i = WStart \<longleftrightarrow> snd q i = 0" and "wpc s i \<noteq> WBar"
  using assms unfolding linked_def by blast+

lemma linked_init: "worker_init s \<Longrightarrow> linked no_calls s"
  by (simp add: linked_def worker_init_def)

lemma seen_as_init: "worker_init s \<Longrightarrow> seen_as n no_calls s = s"
  by (simp add: seen_as_def worker_init_def tally_def)

lemma picks_seen_as [simp]: "picks (seen_as n q s) = picks s"
  by (simp add: seen_as_def)

text \<open>Past the barrier a thread does the same in both builds.\<close>

lemmas worker_defs = worker_next_def worker_lock_def worker_read_def worker_write_def
  worker_unlock_def worker_base_def worker_iter_def

lemma worker_next_past:
  assumes "wpc s i \<notin> {WStart, WBar}"
  shows "worker_next p n i () (seen_as n q s) = map_option (seen_as n q) (worker_next p n i () s)"
  using assms by (cases "wpc s i")
    (auto simp: worker_defs seen_as_def fun_eq_iff intro!: workers.equality split: if_splits option.splits)

lemma worker_next_pc:
  assumes "wpc s i \<notin> {WStart, WBar}" and "worker_next p n i () s = Some t"
  shows "\<exists>x. wpc t = (wpc s)(i := x) \<and> x \<notin> {WStart, WBar}"
  using assms by (cases "wpc s i") (auto simp: worker_defs split: if_splits option.splits)

text \<open>
  A barrier for the worker threads: it refines the abstract barrier, a thread's actions make only
  its own events, \<open>returns\<close> is its departure, and while some thread has not passed, some such thread
  can move and has less to do afterwards.
\<close>

locale barrier_build = refinement_system bnxt n good ev "barrier_step n" calls
  for bnxt :: "nat \<Rightarrow> 'c \<Rightarrow> 'b \<Rightarrow> 'b option" and n :: nat and good :: "'b \<Rightarrow> bool"
    and ev :: "nat \<Rightarrow> 'b \<Rightarrow> 'b \<Rightarrow> barrier_event list" and calls :: "'b \<Rightarrow> barrier" +
  fixes returns :: "nat \<Rightarrow> 'b \<Rightarrow> 'b \<Rightarrow> bool"
    and todo :: "'b \<Rightarrow> nat"
  assumes own: "bnxt i c b = Some b' \<Longrightarrow> ev i b b' \<in> {[], [Arrive i], [Depart i]}"
    and returns_iff: "bnxt i c b = Some b' \<Longrightarrow> returns i b b' \<longleftrightarrow> ev i b b' = [Depart i]"
    and moves: "good b \<Longrightarrow> \<exists>i<n. snd (calls b) i = 0 \<Longrightarrow>
      \<exists>i<n. snd (calls b) i = 0 \<and> (\<exists>c b'. bnxt i c b = Some b' \<and> todo b' < todo b)"
begin

definition seen :: "workers \<times> 'b \<Rightarrow> workers" where
  "seen x = seen_as n (calls (snd x)) (fst x)"

definition built :: "workers \<times> 'b \<Rightarrow> bool" where
  "built x \<longleftrightarrow> good (snd x) \<and> linked (calls (snd x)) (fst x)"

lemma picks_seen [simp]: "picks (seen x) = picks (fst x)"
  by (simp add: seen_def)

lemma inside_step:
  assumes x: "built (s, b)" and i: "i < n" and pc: "wpc s i = WStart" and nx: "bnxt i c b = Some b'"
    and s': "s' = (if returns i b b' then s\<lparr>wpc := (wpc s)(i := WLock)\<rparr> else s)"
  shows "built (s', b') \<and> (seen (s', b') = seen (s, b) \<or> worker_next p n i () (seen (s, b)) = Some (seen (s', b')))"
proof -
  have b: "good b" and l: "linked (calls b) s" using x by (simp_all add: built_def)
  obtain a d where q: "calls b = (a, d)" by (cases "calls b")
  obtain a' d' where q': "calls b' = (a', d')" by (cases "calls b'")
  note L = linkedD [OF l, unfolded q fst_conv snd_conv]
  have d0: "d i = 0" using L(3) pc by blast
  note sim = simulates [OF b i nx, unfolded q q']
  have g': "good b'" by (rule good_nxt [OF b i nx])
  from own [OF nx] consider "ev i b b' = []" | "ev i b b' = [Arrive i]" | "ev i b b' = [Depart i]" by blast
  then show ?thesis
  proof cases
    case 1
    then have "calls b' = calls b" "s' = s" using sim q q' s' returns_iff [OF nx] by auto
    then show ?thesis using l g' by (simp add: built_def seen_def)
  next
    case 2
    then have n': "\<not> returns i b b'" and cl: "a i = d i" "a' = a(i := Suc (a i))" "d' = d"
      using sim returns_iff [OF nx] by (auto split: if_splits)
    have s: "s' = s" using s' n' by simp
    have "linked (calls b') s'"
      unfolding linked_def q' s using L cl d0 by auto
    moreover have "worker_next p n i () (seen (s, b)) = Some (seen (s', b'))"
    proof -
      have "tally n (\<lambda>a. a \<noteq> 0) (a(i := Suc 0)) = Suc (tally n (\<lambda>a. a \<noteq> 0) a)"
        using tally_upd [OF i, of "\<lambda>a. a \<noteq> 0" a "Suc 0"] cl(1) d0 by simp
      moreover have "(\<lambda>j. if wpc s j = WStart \<and> 0 < (a(i := Suc 0)) j then WBar else wpc s j)
        = (\<lambda>j. if wpc s j = WStart \<and> 0 < a j then WBar else wpc s j)(i := WBar)"
        using pc by (simp add: fun_eq_iff)
      ultimately show ?thesis
        using pc cl d0 by (simp add: seen_def seen_as_def q q' s worker_next_def worker_bar_arrive_def)
    qed
    ultimately show ?thesis using g' by (simp add: built_def)
  next
    case 3
    then have n': "returns i b b'" and cl: "\<forall>j<n. 0 < a j" "a' = a" "d' = d(i := Suc 0)"
      using sim returns_iff [OF nx] d0 by (auto split: if_splits)
    have s: "s' = s\<lparr>wpc := (wpc s)(i := WLock)\<rparr>" using s' n' by simp
    have ai: "a i = 1" using cl(1) i L(1) [of i] by (metis le_antisym less_eq_Suc_le One_nat_def)
    have "linked (calls b') s'"
      unfolding linked_def q' s using L cl(2,3) ai by auto
    moreover have "worker_next p n i () (seen (s, b)) = Some (seen (s', b'))"
    proof -
      have "tally n (\<lambda>a. a \<noteq> 0) a = n" using cl(1) unfolding tally_full_iff by auto
      moreover have q2: "calls b' = (a, d')" using q' cl(2) by simp
      ultimately show ?thesis using pc ai
        by (auto simp: seen_def seen_as_def q q2 s worker_next_def worker_bar_leave_def fun_eq_iff intro!: workers.equality)
    qed
    ultimately show ?thesis using g' by (simp add: built_def)
  qed
qed

lemma outside_step:
  assumes x: "built (s, b)" and pc: "wpc s i \<noteq> WStart" and nx: "worker_next p n i () s = Some s'"
  shows "built (s', b) \<and> worker_next p n i () (seen (s, b)) = Some (seen (s', b))"
proof -
  have l: "linked (calls b) s" using x by (simp add: built_def)
  have pc': "wpc s i \<notin> {WStart, WBar}" using pc linkedD(4) [OF l] by simp
  obtain y where y: "wpc s' = (wpc s)(i := y)" "y \<notin> {WStart, WBar}" using worker_next_pc [OF pc' nx] by blast
  have "linked (calls b) s'" unfolding linked_def y(1) using linkedD [OF l] y(2) pc by auto
  then show ?thesis using x nx worker_next_past [OF pc', of p n] by (simp add: built_def seen_def)
qed

lemma build_step:
  assumes x: "built x" and i: "i < n" and nx: "build_next bnxt returns p n i c x = Some y"
  shows "built y" and "seen y = seen x \<or> worker_next p n i () (seen x) = Some (seen y)"
proof -
  obtain s b where x': "x = (s, b)" by (cases x)
  have "built y \<and> (seen y = seen x \<or> worker_next p n i () (seen x) = Some (seen y))"
  proof (cases "wpc s i = WStart")
    case True
    with nx obtain b' where b': "bnxt i c b = Some b'"
      "y = (if returns i b b' then s\<lparr>wpc := (wpc s)(i := WLock)\<rparr> else s, b')"
      by (auto simp: build_next_def x' split: option.splits)
    from inside_step [OF x [unfolded x'] i True b'(1) refl, of p] show ?thesis
      unfolding x' b'(2) by blast
  next
    case False
    with nx obtain s' where "worker_next p n i () s = Some s'" "y = (s', b)"
      by (auto simp: build_next_def x' split: option.splits)
    then show ?thesis using outside_step [OF x [unfolded x'] False] by (auto simp: x')
  qed
  then show "built y" and "seen y = seen x \<or> worker_next p n i () (seen x) = Some (seen y)" by blast+
qed

text \<open>A run of the build, seen from outside the barrier, is a run of the default build.\<close>

lemma build_run:
  "built x \<Longrightarrow> \<forall>(i, c) \<in> set es. i < n \<Longrightarrow> run (build_next bnxt returns p n) es x = Some y \<Longrightarrow>
   built y \<and> (\<exists>fs. (\<forall>(i, c) \<in> set fs. i < n) \<and> run (worker_next p n) fs (seen x) = Some (seen y))"
proof (induction es arbitrary: x)
  case Nil
  then show ?case by (auto intro: exI [of _ "[]"])
next
  case (Cons e es)
  obtain i c where e: "e = (i, c)" by (cases e)
  from Cons.prems e obtain z where z: "build_next bnxt returns p n i c x = Some z"
    and r: "run (build_next bnxt returns p n) es z = Some y" and i: "i < n"
    by (auto split: option.splits)
  note st = build_step [OF Cons.prems(1) i z]
  obtain fs where y: "built y" "\<forall>(i, c) \<in> set fs. i < n" "run (worker_next p n) fs (seen z) = Some (seen y)"
    using Cons.IH [OF st(1) _ r] Cons.prems(2) by auto
  from st(2) show ?case
  proof
    assume "seen z = seen x"
    with y show ?thesis by auto
  next
    assume "worker_next p n i () (seen x) = Some (seen z)"
    with y i have "run (worker_next p n) ((i, ()) # fs) (seen x) = Some (seen y)" "\<forall>(i, c) \<in> set ((i, ()) # fs). i < n"
      by auto
    with y(1) show ?thesis by blast
  qed
qed

text \<open>All threads can finish: the barrier lets every thread pass, and then the default build does.\<close>

definition runs_ok :: "prof_arg \<Rightarrow> workers \<times> 'b \<Rightarrow> bool" where
  "runs_ok p x \<longleftrightarrow> prof_arg_ok p \<and> cabin_small p \<and> built x \<and> worker_inv p n (seen x)"

definition build_work :: "prof_arg \<Rightarrow> workers \<times> 'b \<Rightarrow> nat" where
  "build_work p x = todo (snd x) + worker_work p n (seen x)"

lemma runs_ok_step:
  assumes "runs_ok p x" and "i < n" and "build_next bnxt returns p n i c x = Some y"
  shows "runs_ok p y"
  using assms build_step [OF _ assms(2,3)] worker_inv_step [of p n "seen x" i "()"]
  unfolding runs_ok_def by metis

lemma entering_moves:
  assumes ok: "runs_ok p x" and "\<exists>i<n. wpc (fst x) i = WStart"
  shows "\<exists>i<n. \<exists>c y. build_next bnxt returns p n i c x = Some y \<and> build_work p y < build_work p x"
proof -
  obtain s b where x: "x = (s, b)" by (cases x)
  have bt: "built (s, b)" and l: "linked (calls b) s" and g: "good b"
    using ok by (simp_all add: runs_ok_def built_def x)
  from assms(2) have "\<exists>i<n. snd (calls b) i = 0" using linkedD(3) [OF l] by (simp add: x)
  from moves [OF g this] obtain i c b' where i: "i < n" "snd (calls b) i = 0"
    and b': "bnxt i c b = Some b'" "todo b' < todo b" by blast
  have pc: "wpc s i = WStart" using linkedD(3) [OF l] i(2) by simp
  let ?s' = "if returns i b b' then s\<lparr>wpc := (wpc s)(i := WLock)\<rparr> else s"
  have nx: "build_next bnxt returns p n i c x = Some (?s', b')" using pc b'(1) by (simp add: build_next_def x)
  have "worker_work p n (seen (?s', b')) \<le> worker_work p n (seen x)"
  proof (cases "seen (?s', b') = seen x")
    case False
    then have st: "worker_next p n i () (seen x) = Some (seen (?s', b'))"
      using inside_step [OF bt i(1) pc b'(1) refl, of p] by (simp add: x)
    have at: "wpc (seen x) i = WStart \<or> wpc (seen x) i = WBar" using pc by (simp add: seen_def seen_as_def x)
    then have "wpc (seen x) i = WBar \<Longrightarrow> arrived (seen x) = n"
      using st by (auto simp: worker_next_def worker_bar_leave_def split: if_splits)
    then obtain t where t: "worker_next p n i () (seen x) = Some t" "worker_rank p t i < worker_rank p (seen x) i"
      "\<forall>j. j \<noteq> i \<longrightarrow> worker_rank p t j = worker_rank p (seen x) j"
      using worker_moves [of p n "seen x" i] ok i(1) at unfolding runs_ok_def by auto
    from worker_work_less [OF i(1) t(2,3)] show ?thesis using st t(1) by simp
  qed simp
  then have "build_work p (?s', b') < build_work p x" using b'(2) by (simp add: build_work_def x)
  with i(1) nx show ?thesis by blast
qed

lemma entered_moves:
  assumes ok: "runs_ok p x" and past: "\<forall>i<n. wpc (fst x) i \<noteq> WStart" and "\<not> worker_finished n (fst x)"
  shows "\<exists>i<n. \<exists>c y. build_next bnxt returns p n i c x = Some y \<and> build_work p y < build_work p x"
proof -
  obtain s b where x: "x = (s, b)" by (cases x)
  have l: "linked (calls b) s" using ok by (simp add: runs_ok_def built_def x)
  have same: "wpc (seen x) i = wpc s i" if "i < n" for i using past that by (simp add: seen_def seen_as_def x)
  have "\<not> worker_finished n (seen x)"
    using assms(3) same by (auto simp: worker_finished_def list_all_iff x)
  then obtain i where i: "i < n" "wpc (seen x) i \<noteq> WDone" "wpc (seen x) i = WBar \<longrightarrow> arrived (seen x) = n"
    "wpc (seen x) i = WLock \<longrightarrow> gmutex_cabinidx (seen x) = None"
    using worker_unblocked [of p n "seen x"] ok unfolding runs_ok_def by blast
  obtain t where t: "worker_next p n i () (seen x) = Some t" "worker_rank p t i < worker_rank p (seen x) i"
    "\<forall>j. j \<noteq> i \<longrightarrow> worker_rank p t j = worker_rank p (seen x) j"
    using worker_moves [of p n "seen x" i] ok i unfolding runs_ok_def by blast
  have pc: "wpc s i \<notin> {WStart, WBar}" using past i(1) linkedD(4) [OF l] by (simp add: x)
  obtain s' where s': "worker_next p n i () s = Some s'" "t = seen (s', b)"
    using t(1) worker_next_past [OF pc, of p n "calls b"] by (auto simp: seen_def x)
  have "build_next bnxt returns p n i c x = Some (s', b)" for c using pc s'(1) by (simp add: build_next_def x)
  moreover have "build_work p (s', b) < build_work p x"
    using worker_work_less [OF i(1) t(2,3)] by (simp add: build_work_def s'(2) x)
  ultimately show ?thesis using i(1) by blast
qed

end

sublocale barrier_build \<subseteq> builds: progress_system "sched (build_next bnxt returns p n) n" "runs_ok p"
  "\<lambda>x. worker_finished n (fst x)" "build_work p" for p
proof unfold_locales
  fix x assume ok: "runs_ok p x" and nf: "\<not> worker_finished n (fst x)"
  have "\<exists>i<n. \<exists>c y. build_next bnxt returns p n i c x = Some y \<and> build_work p y < build_work p x"
    using entering_moves [OF ok] entered_moves [OF ok _ nf] by blast
  then obtain i c y where "i < n" "build_next bnxt returns p n i c x = Some y" "build_work p y < build_work p x" by blast
  then show "\<exists>y. sched (build_next bnxt returns p n) n x y \<and> runs_ok p y \<and> build_work p y < build_work p x"
    using runs_ok_step [OF ok] by (blast intro: sched)
qed

context barrier_build
begin

lemma runs_ok_init:
  assumes "prof_arg_ok p" and "cabin_small p" and "worker_init s" and "good b" and "calls b = no_calls"
  shows "runs_ok p (s, b)" and "seen (s, b) = s"
proof -
  show "seen (s, b) = s" using assms(3,5) by (simp add: seen_def seen_as_init)
  then show "runs_ok p (s, b)"
    using assms worker_inv_init [of p s n] linked_init [of s] by (simp add: runs_ok_def built_def)
qed

end

section \<open>Both barriers are such barriers\<close>

lemma bar_own:
  "bar_next n i c b = Some b' \<Longrightarrow> bar_events i b b' \<in> {[], [Arrive i], [Depart i]}"
  "bar_next n i c b = Some b' \<Longrightarrow> bar_returns i b b' \<longleftrightarrow> bar_events i b b' = [Depart i]"
  by (auto simp: bar_events_def bar_returns_def bar_next_def bar_add_def split: if_splits)

lemma bar_moves:
  assumes "bar_inv n b" and "\<exists>i<n. left b i = 0"
  shows "\<exists>i<n. left b i = 0 \<and> (\<exists>c b'. bar_next n i c b = Some b' \<and> bar_work n 1 b' < bar_work n 1 b)"
proof -
  obtain P where inv: "bar_inv_at n P b" using assms(1) by (auto simp: bar_inv_def)
  have "\<not> bar_rounds n 1 b" using assms(2) by (auto simp: bar_rounds_def)
  then obtain i where i: "i < n" "left b i < 1" "bpc b i = BSpin \<longrightarrow> gs32passed b \<noteq> s32passed_old b i"
    using bar_some_ready [OF inv] by blast
  then show ?thesis using bar_ready_work [OF i] by auto
qed

lemma cond_own:
  "cond_next i c b = Some b' \<Longrightarrow> cond_events i b b' \<in> {[], [Arrive i], [Depart i]}"
  "cond_next i c b = Some b' \<Longrightarrow> cond_returns i b b' \<longleftrightarrow> cond_events i b b' = [Depart i]"
  by (auto simp: cond_events_def cond_returns_def cond_next_def cond_defs)

lemma cond_moves:
  assumes inv: "cond_inv n b" and "\<exists>i<n. snd (cond_calls b) i = 0"
  shows "\<exists>i<n. snd (cond_calls b) i = 0 \<and> (\<exists>c b'. cond_next i c b = Some b' \<and> cond_work n b' < cond_work n b)"
proof -
  have "\<not> cond_finished n b" using assms(2) by (auto simp: cond_finished_def cond_calls_def split: if_splits)
  then obtain i b' where i: "i < n" "cond_next i False b = Some b'" "cond_work n b' < cond_work n b"
    using cond_move [OF inv] by blast
  then have "cpc b i \<noteq> CPast" by (auto simp: cond_next_def)
  with i show ?thesis by (auto simp: cond_calls_def)
qed

interpretation spin_build: barrier_build "bar_next n" n "bar_inv n" bar_events "\<lambda>b. (entered b, left b)"
  bar_returns "bar_work n 1" for n
  by unfold_locales (use bar_own bar_moves in simp_all)

interpretation sleep_build: barrier_build cond_next n "cond_inv n" cond_events cond_calls
  cond_returns "cond_work n" for n
  by unfold_locales (use cond_own cond_moves in simp_all)

text \<open>The initial states.\<close>

definition spin_build_init :: "nat \<Rightarrow> workers \<times> bar_state \<Rightarrow> bool" where
  "spin_build_init n x \<longleftrightarrow> worker_init (fst x) \<and> bar_init n (snd x)"

definition sleep_build_init :: "nat \<Rightarrow> workers \<times> cond_state \<Rightarrow> bool" where
  "sleep_build_init n x \<longleftrightarrow> worker_init (fst x) \<and> cond_init n (snd x)"

lemma round_robin_seen_as:
  assumes "round_robin_so_far p n (seen_as n q s)"
  shows "round_robin_so_far p n s"
  using assms unfolding round_robin_so_far_def
  by (auto simp: list_all_iff seen_as_def worker_finished_def split: if_splits)

lemma spin_build_reach:
  assumes "prof_arg_ok p" and "cabin_small p" and "reach (spin_build_init n) (sched (spin_build_next p n) n) x"
  shows "spin_build.runs_ok n p x"
  using assms(3)
proof (induction rule: reach.induct)
  case (reach_init x)
  then have "bar_inv n (snd x)" "(entered (snd x), left (snd x)) = no_calls"
    using bar_inv_init [of n "snd x"] by (auto simp: spin_build_init_def bar_inv_def bar_init_def)
  then show ?case
    using spin_build.runs_ok_init [OF assms(1,2), of "fst x" n "snd x"] reach_init by (simp add: spin_build_init_def)
next
  case (reach_step x y)
  then show ?case by (auto elim!: schedE simp: spin_build_next_def intro: spin_build.runs_ok_step)
qed

lemma sleep_build_reach:
  assumes "prof_arg_ok p" and "cabin_small p" and "reach (sleep_build_init n) (sched (sleep_build_next p n) n) x"
  shows "sleep_build.runs_ok n p x"
  using assms(3)
proof (induction rule: reach.induct)
  case (reach_init x)
  then have "cond_inv n (snd x)" "cond_calls (snd x) = no_calls"
    using cond_inv_init [of n "snd x"] by (auto simp: sleep_build_init_def cond_init_def cond_calls_def)
  then show ?case
    using sleep_build.runs_ok_init [OF assms(1,2), of "fst x" n "snd x"] reach_init by (simp add: sleep_build_init_def)
next
  case (reach_step x y)
  then show ?case by (auto elim!: schedE simp: sleep_build_next_def intro: sleep_build.runs_ok_step)
qed

text \<open>In every state a build reaches: the picks are round-robin so far, and all threads can finish.\<close>

lemma spin_build_outcome:
  assumes "prof_arg_ok p" and "cabin_small p" and "reach (spin_build_init n) (sched (spin_build_next p n) n) x"
  shows "round_robin_so_far p n (fst x)"
    and "\<exists>y. (sched (spin_build_next p n) n)\<^sup>*\<^sup>* x y \<and> worker_finished n (fst y)"
proof -
  note ok = spin_build_reach [OF assms]
  show "round_robin_so_far p n (fst x)"
    using ok worker_inv_round_robin round_robin_seen_as by (fastforce simp: spin_build.runs_ok_def spin_build.seen_def)
  show "\<exists>y. (sched (spin_build_next p n) n)\<^sup>*\<^sup>* x y \<and> worker_finished n (fst y)"
    using spin_build.builds.can_finish [OF ok] by (auto simp: spin_build_next_def)
qed

lemma sleep_build_outcome:
  assumes "prof_arg_ok p" and "cabin_small p" and "reach (sleep_build_init n) (sched (sleep_build_next p n) n) x"
  shows "round_robin_so_far p n (fst x)"
    and "\<exists>y. (sched (sleep_build_next p n) n)\<^sup>*\<^sup>* x y \<and> worker_finished n (fst y)"
proof -
  note ok = sleep_build_reach [OF assms]
  show "round_robin_so_far p n (fst x)"
    using ok worker_inv_round_robin round_robin_seen_as by (fastforce simp: sleep_build.runs_ok_def sleep_build.seen_def)
  show "\<exists>y. (sched (sleep_build_next p n) n)\<^sup>*\<^sup>* x y \<and> worker_finished n (fst y)"
    using sleep_build.builds.can_finish [OF ok] by (auto simp: sleep_build_next_def)
qed

section \<open>Properties\<close>

text \<open>C4: whichever barrier \<open>lab02\<close> is built with, the worker threads do the same: every run of a build
  with a custom barrier is, with the actions inside the barrier erased, a run of the default build with
  \<open>pthread_barrier_t\<close>, ending in the same state of the cabin, the mutex and the threads.\<close>

theorem lab02_builds_refine_default:
  assumes "worker_init s" and "bar_init n b" and "cond_init n d"
    and "\<forall>(i, c) \<in> set es. i < n" and "run (spin_build_next p n) es (s, b) = Some (t, b')"
    and "\<forall>(i, c) \<in> set fs. i < n" and "run (sleep_build_next p n) fs (s, d) = Some (u, d')"
  shows "(\<exists>gs. (\<forall>(i, c) \<in> set gs. i < n) \<and>
      run (worker_next p n) gs s = Some (seen_as n (entered b', left b') t)) \<and>
    (\<exists>gs. (\<forall>(i, c) \<in> set gs. i < n) \<and> run (worker_next p n) gs s = Some (seen_as n (cond_calls d') u))"
proof -
  have b: "spin_build.built n (s, b)" "spin_build.seen n (s, b) = s"
    using assms(1,2) bar_inv_init [OF assms(2)] linked_init [OF assms(1)] seen_as_init [OF assms(1)]
    by (auto simp: spin_build.built_def spin_build.seen_def bar_inv_def bar_init_def)
  have d: "sleep_build.built n (s, d)" "sleep_build.seen n (s, d) = s"
    using assms(1,3) cond_inv_init [OF assms(3)] linked_init [OF assms(1)] seen_as_init [OF assms(1)]
    by (auto simp: sleep_build.built_def sleep_build.seen_def cond_init_def cond_calls_def)
  show ?thesis
    using spin_build.build_run [OF b(1) assms(4)] sleep_build.build_run [OF d(1) assms(6)] assms(5,7) b(2) d(2)
    by (auto simp: spin_build_next_def sleep_build_next_def spin_build.seen_def sleep_build.seen_def)
qed

text \<open>With either custom barrier, in every reachable state of the worker threads of a parsed command
  line whose numbers have cubes that fit an \<open>int\<close>, nobody has faulted, the numbers have been taken
  round-robin, all threads can still finish, and when they have there were \<open>s32round\<close> picks for each.\<close>

theorem lab02_builds_finish:
  assumes "prof_arg_ok p" and "cabin_small p"
    and "reach (spin_build_init n) (sched (spin_build_next p n) n) (s, b)"
    and "reach (sleep_build_init n) (sched (sleep_build_next p n) n) (u, d)"
  shows "round_robin_so_far p n s \<and> round_robin_so_far p n u \<and>
    (\<exists>t b'. (sched (spin_build_next p n) n)\<^sup>*\<^sup>* (s, b) (t, b') \<and> worker_finished n t) \<and>
    (\<exists>t d'. (sched (sleep_build_next p n) n)\<^sup>*\<^sup>* (u, d) (t, d') \<and> worker_finished n t)"
  using spin_build_outcome [OF assms(1-3)] sleep_build_outcome [OF assms(1,2,4)] by auto

definition cond_start :: "nat \<Rightarrow> cond_state" where
  "cond_start n = \<lparr>gs32remain = int n, gmutex_barrier = None, cpc = (\<lambda>_. CLock)\<rparr>"

lemma cond_start_init: "int n \<le> INT_MAX \<Longrightarrow> cond_init n (cond_start n)"
  by (simp add: cond_init_def cond_start_def)

theorem lab02_builds_refine_default_witness:
  "\<exists>t (b' :: bar_state) u (d' :: cond_state) gs hs. run (worker_next demo_arg 2) gs demo_workers = Some (seen_as 2 (entered b', left b') t) \<and>
     wpc t 1 = WLock \<and> wpc t 0 = WStart \<and>
     run (worker_next demo_arg 2) hs demo_workers = Some (seen_as 2 (cond_calls d') u) \<and> wpc u 1 = WLock \<and> wpc u 0 = WStart"
proof -
  let ?es = "[(0, ()), (0, ()), (1, ()), (1, ()), (1, ()), (1, ()), (1, ())]"
  let ?fs = "map (\<lambda>i. (i, False)) [0, 0, 0, 0, 0, 1, 1, 1, 1, 1 :: nat]"
  obtain t b' where t: "run (spin_build_next demo_arg 2) ?es (demo_workers, bar_start) = Some (t, b')" "wpc t 1 = WLock" "wpc t 0 = WStart"
    by (simp add: spin_build_next_def build_next_def bar_returns_def bar_run_defs demo_workers_def)
  obtain u d' where u: "run (sleep_build_next demo_arg 2) ?fs (demo_workers, cond_start 2) = Some (u, d')" "wpc u 1 = WLock" "wpc u 0 = WStart"
    by (simp add: sleep_build_next_def build_next_def cond_returns_def cond_next_def cond_defs cond_start_def wrap32_id demo_workers_def)
  have "bar_init 2 bar_start" "cond_init 2 (cond_start 2)" by (simp_all add: bar_start_init cond_start_init)
  from lab02_builds_refine_default [OF demo_ok(3) this _ t(1) _ u(1)]
  obtain gs hs where "run (worker_next demo_arg 2) gs demo_workers = Some (seen_as 2 (entered b', left b') t)"
    "run (worker_next demo_arg 2) hs demo_workers = Some (seen_as 2 (cond_calls d') u)" by auto
  with t(2,3) u(2,3) show ?thesis by blast
qed

theorem lab02_builds_finish_witness:
  "\<exists>t b' u d'. (sched (spin_build_next demo_arg 4) 4)\<^sup>*\<^sup>* (demo_workers, bar_start) (t, b') \<and> worker_finished 4 t \<and>
     (sched (sleep_build_next demo_arg 4) 4)\<^sup>*\<^sup>* (demo_workers, cond_start 4) (u, d') \<and> worker_finished 4 u"
proof -
  have "spin_build_init 4 (demo_workers, bar_start)" "sleep_build_init 4 (demo_workers, cond_start 4)"
    by (simp_all add: spin_build_init_def sleep_build_init_def demo_ok bar_start_init cond_start_init)
  then have "reach (spin_build_init 4) (sched (spin_build_next demo_arg 4) 4) (demo_workers, bar_start)"
    "reach (sleep_build_init 4) (sched (sleep_build_next demo_arg 4) 4) (demo_workers, cond_start 4)"
    by (auto intro: reach_init)
  from lab02_builds_finish [OF demo_ok(1,2) this] show ?thesis by blast
qed

end
