(* ===== verification/Lab02Process.thy ===== *)
theory Lab02Process
  imports Lab02Main Lab02Builds
begin

text \<open>
  The life of the \<open>lab02\<close> process: \<open>main\<close> creates the threads one after the other while those it has
  created already run, joins them, and destroys and frees what they share. The threads are any of the
  three builds of \<open>work_fxn\<close>: the interface \<open>thread_team\<close> says what is needed of them. It follows that
  nothing is destroyed or freed before its last user is gone, and that the process can end with
  nothing left.
\<close>

section \<open>The program\<close>

datatype heap_block = WorkArgs | Attrs | Handles | Cabin

text \<open>
  Where \<open>main\<close> is, after the initialisation of the lock and the barrier: the loops count
  \<open>k = s32i * s32PCPUcnt + s32j\<close>, the index of the thread that they visit.
\<close>

datatype lab_place =
  LabCreate nat | LabJoin nat | LabBarrier | LabLock | LabAttr nat | LabFree "heap_block list" | LabReturn | LabExit main_end

text \<open>\<open>made\<close> are the elements of \<open>ppthread\<close>: the process is followed from where it has been allocated.\<close>

record 's process =
  lab_pc :: lab_place
  made :: threads
  crew :: 's
  bar_live :: bool
  lock_live :: bool
  attrs_live :: "nat set"
  blocks_live :: "heap_block set"

definition process_start :: "nat \<Rightarrow> 's \<Rightarrow> 's process" where
  "process_start n s = \<lparr>lab_pc = LabCreate 0, made = replicate n None, crew = s, bar_live = True, lock_live = True,
     attrs_live = {}, blocks_live = {WorkArgs, Attrs, Handles, Cabin}\<rparr>"

text \<open>\<open>fin s k\<close>: thread \<open>k\<close> has returned from \<open>work_fxn\<close>. A join waits for it.\<close>

definition main_next ::
    "barrier_kind \<Rightarrow> os \<Rightarrow> prof_arg \<Rightarrow> nat \<Rightarrow> ('s \<Rightarrow> nat \<Rightarrow> bool) \<Rightarrow> nat \<Rightarrow> 's process \<Rightarrow> 's process option" where
  "main_next kind os p cpus fin n x =
     (case lab_pc x of
        LabCreate k \<Rightarrow>
          if k < n then
            (case create_thread os p (int cpus) (int (k div cpus)) (int (k mod cpus)) (made x) of
               Inl e \<Rightarrow> Some (x\<lparr>lab_pc := LabExit e\<rparr>)
             | Inr ts \<Rightarrow> Some (x\<lparr>made := ts, attrs_live := insert k (attrs_live x), lab_pc := LabCreate (Suc k)\<rparr>))
          else Some (x\<lparr>lab_pc := LabJoin 0\<rparr>)
      | LabJoin k \<Rightarrow>
          if k < n then (if fin (crew x) k then Some (x\<lparr>lab_pc := LabJoin (Suc k)\<rparr>) else None)
          else Some (x\<lparr>lab_pc := LabBarrier\<rparr>)
      | LabBarrier \<Rightarrow>
          (case destroy_barrier kind os of
             Some e \<Rightarrow> Some (x\<lparr>lab_pc := LabExit (error_exit e)\<rparr>)
           | None \<Rightarrow> Some (x\<lparr>bar_live := False, lab_pc := LabLock\<rparr>))
      | LabLock \<Rightarrow>
          Some (if \<not> destroy_cabin_lock_ok os then x\<lparr>lab_pc := LabExit (error_exit ERR_DES_MUTEX)\<rparr>
                else x\<lparr>lock_live := False, lab_pc := LabAttr 0\<rparr>)
      | LabAttr k \<Rightarrow>
          Some (if k < n then x\<lparr>attrs_live := attrs_live x - {k}, lab_pc := LabAttr (Suc k)\<rparr>
                else x\<lparr>lab_pc := LabFree [WorkArgs, Attrs, Handles, Cabin]\<rparr>)
      | LabFree [] \<Rightarrow> Some (x\<lparr>lab_pc := LabReturn\<rparr>)
      | LabFree (b # bs) \<Rightarrow> Some (x\<lparr>blocks_live := blocks_live x - {b}, lab_pc := LabFree bs\<rparr>)
      | LabReturn \<Rightarrow> None
      | LabExit e \<Rightarrow> None)"

text \<open>A thread that has been created runs until the process ends.\<close>

definition running :: "'s process \<Rightarrow> nat \<Rightarrow> bool" where
  "running x k \<longleftrightarrow> k < length (made x) \<and> made x ! k \<noteq> None \<and>
     (case lab_pc x of LabReturn \<Rightarrow> False | LabExit e \<Rightarrow> False | _ \<Rightarrow> True)"

text \<open>Actor 0 is \<open>main\<close>, actor \<open>k + 1\<close> the thread with index \<open>k\<close>.\<close>

definition process_next ::
    "barrier_kind \<Rightarrow> os \<Rightarrow> prof_arg \<Rightarrow> nat \<Rightarrow> (nat \<Rightarrow> 'c \<Rightarrow> 's \<Rightarrow> 's option) \<Rightarrow> ('s \<Rightarrow> nat \<Rightarrow> bool) \<Rightarrow> nat \<Rightarrow>
     nat \<Rightarrow> 'c \<Rightarrow> 's process \<Rightarrow> 's process option" where
  "process_next kind os p cpus nxt fin n i c x =
     (case i of
        0 \<Rightarrow> main_next kind os p cpus fin n x
      | Suc k \<Rightarrow>
          if running x k then map_option (\<lambda>s. x\<lparr>crew := s\<rparr>) (nxt k c (crew x)) else None)"

definition process_init :: "nat \<Rightarrow> ('s \<Rightarrow> bool) \<Rightarrow> 's process \<Rightarrow> bool" where
  "process_init n init x \<longleftrightarrow> init (crew x) \<and> x = process_start n (crew x)"

section \<open>Nothing is released too early\<close>

text \<open>What is alive, by the place of \<open>main\<close>; \<open>sp\<close> and \<open>dn\<close> are the threads created and returned.\<close>

fun alive_ok :: "nat \<Rightarrow> lab_place \<Rightarrow> nat set \<Rightarrow> nat set \<Rightarrow> bool \<Rightarrow> bool \<Rightarrow> nat set \<Rightarrow> heap_block set \<Rightarrow> bool" where
  "alive_ok n (LabCreate k) sp dn b l att bl \<longleftrightarrow> k \<le> n \<and> sp = {..<k} \<and> b \<and> l \<and> att = {..<k} \<and> bl = UNIV"
| "alive_ok n (LabJoin k) sp dn b l att bl \<longleftrightarrow>
     k \<le> n \<and> sp = {..<n} \<and> {..<k} \<subseteq> dn \<and> b \<and> l \<and> att = {..<n} \<and> bl = UNIV"
| "alive_ok n LabBarrier sp dn b l att bl \<longleftrightarrow> sp = {..<n} \<and> {..<n} \<subseteq> dn \<and> b \<and> l \<and> att = {..<n} \<and> bl = UNIV"
| "alive_ok n LabLock sp dn b l att bl \<longleftrightarrow> sp = {..<n} \<and> {..<n} \<subseteq> dn \<and> \<not> b \<and> l \<and> att = {..<n} \<and> bl = UNIV"
| "alive_ok n (LabAttr k) sp dn b l att bl \<longleftrightarrow>
     k \<le> n \<and> sp = {..<n} \<and> {..<n} \<subseteq> dn \<and> \<not> b \<and> \<not> l \<and> att = {k..<n} \<and> bl = UNIV"
| "alive_ok n (LabFree bs) sp dn b l att bl \<longleftrightarrow>
     sp = {..<n} \<and> {..<n} \<subseteq> dn \<and> \<not> b \<and> \<not> l \<and> att = {} \<and> bl = set bs \<and> distinct bs"
| "alive_ok n LabReturn sp dn b l att bl \<longleftrightarrow> sp = {..<n} \<and> {..<n} \<subseteq> dn \<and> \<not> b \<and> \<not> l \<and> att = {} \<and> bl = {}"
| "alive_ok n (LabExit e) sp dn b l att bl \<longleftrightarrow> True"

lemma alive_ok_mono: "alive_ok n pc sp dn b l att bl \<Longrightarrow> dn \<subseteq> dn' \<Longrightarrow> alive_ok n pc sp dn' b l att bl"
  by (cases pc) auto

definition spawned :: "'s process \<Rightarrow> nat set" where
  "spawned x = {k. k < length (made x) \<and> made x ! k \<noteq> None}"

definition process_ok :: "('s \<Rightarrow> nat \<Rightarrow> bool) \<Rightarrow> nat \<Rightarrow> 's process \<Rightarrow> bool" where
  "process_ok fin n x \<longleftrightarrow> length (made x) = n \<and>
     alive_ok n (lab_pc x) (spawned x) {k. fin (crew x) k} (bar_live x) (lock_live x) (attrs_live x) (blocks_live x)"

lemma heap_block_UNIV: "UNIV = {WorkArgs, Attrs, Handles, Cabin}"
proof -
  have "b \<in> {WorkArgs, Attrs, Handles, Cabin}" for b by (cases b) simp_all
  then show ?thesis by blast
qed

lemma create_thread_adds:
  assumes "create_thread os p (int cpus) (int (k div cpus)) (int (k mod cpus)) ts = Inr us"
  shows "\<exists>y. us = ts[k := Some y]"
proof -
  have "int (k div cpus) * int cpus + int (k mod cpus) = int k"
    unfolding of_nat_mult [symmetric] of_nat_add [symmetric] div_mult_mod_eq by (rule refl)
  then show ?thesis using assms by (auto simp: create_thread_def Let_def split: if_splits sum.splits)
qed

lemma spawned_upd: "spawned (x\<lparr>made := (made x)[k := Some v]\<rparr>) =
    (if k < length (made x) then insert k (spawned x) else spawned x)"
  by (auto simp: spawned_def nth_list_update)

lemma spawned_same [simp]:
  "spawned (x\<lparr>lab_pc := pc\<rparr>) = spawned x" "spawned (x\<lparr>crew := s\<rparr>) = spawned x"
  "spawned (x\<lparr>bar_live := b\<rparr>) = spawned x" "spawned (x\<lparr>lock_live := b\<rparr>) = spawned x"
  "spawned (x\<lparr>attrs_live := a\<rparr>) = spawned x" "spawned (x\<lparr>blocks_live := h\<rparr>) = spawned x"
  by (simp_all add: spawned_def)

lemma process_ok_main:
  assumes ok: "process_ok fin n x" and st: "main_next kind os p cpus fin n x = Some y"
  shows "process_ok fin n y"
proof (cases "lab_pc x")
  case (LabCreate k)
  show ?thesis
  proof (cases "k < n")
    case True
    show ?thesis
    proof (cases "create_thread os p (int cpus) (int (k div cpus)) (int (k mod cpus)) (made x)")
      case (Inl e)
      then show ?thesis using st ok LabCreate True by (clarsimp simp: main_next_def process_ok_def)
    next
      case (Inr us)
      then obtain v where us: "us = (made x)[k := Some v]" using create_thread_adds by blast
      show ?thesis using st LabCreate True Inr ok
        by (clarsimp simp: main_next_def process_ok_def us spawned_upd lessThan_Suc)
    qed
  qed (use st LabCreate ok in \<open>clarsimp simp: main_next_def process_ok_def\<close>)
next
  case (LabFree bs)
  then show ?thesis using ok st
    by (cases bs) (clarsimp simp: main_next_def process_ok_def)+
next
  case (LabAttr k)
  then show ?thesis using ok st
    by (cases "k < n") (clarsimp simp: main_next_def process_ok_def heap_block_UNIV; force)+
next
  case (LabJoin k)
  then show ?thesis using ok st
    by (cases "k < n") (clarsimp simp: main_next_def process_ok_def lessThan_Suc split: if_splits)+
next
  case LabBarrier
  then show ?thesis using ok st
    by (cases "destroy_barrier kind os") (clarsimp simp: main_next_def process_ok_def)+
next
  case LabLock
  then show ?thesis using ok st
    by (cases "destroy_cabin_lock_ok os") (clarsimp simp: main_next_def process_ok_def atLeast0LessThan)+
qed (use ok st in \<open>simp_all add: main_next_def\<close>)

lemma process_ok_start: "process_ok fin n (process_start n s)"
  by (auto simp: process_ok_def process_start_def spawned_def heap_block_UNIV)

text \<open>
  A team of threads: what has returned stays so, and from every state the whole team can finish.
\<close>

locale thread_team =
  fixes nxt :: "nat \<Rightarrow> 'c \<Rightarrow> 's \<Rightarrow> 's option" and n :: nat and init :: "'s \<Rightarrow> bool" and fin :: "'s \<Rightarrow> nat \<Rightarrow> bool"
  assumes fin_stays: "nxt i c s = Some t \<Longrightarrow> fin s j \<Longrightarrow> fin t j"
    and team_finishes: "reach init (sched nxt n) s \<Longrightarrow> \<exists>t. (sched nxt n)\<^sup>*\<^sup>* s t \<and> (\<forall>j<n. fin t j)"
begin

text \<open>The threads of the process make a run of the team.\<close>

definition live_inv :: "'s process \<Rightarrow> bool" where
  "live_inv x \<longleftrightarrow> process_ok fin n x \<and> reach init (sched nxt n) (crew x)"

lemma live_inv_init: "process_init n init x \<Longrightarrow> live_inv x"
  using process_ok_start [of fin n "crew x"] by (auto simp: live_inv_def process_init_def intro: reach_init)

lemma live_inv_step:
  assumes "live_inv x" and "sched (process_next kind os p cpus nxt fin n) (Suc n) x y"
  shows "live_inv y"
proof -
  obtain i c where nx: "process_next kind os p cpus nxt fin n i c x = Some y" using assms(2) by (auto elim: schedE)
  show ?thesis
  proof (cases i)
    case 0
    then have st: "main_next kind os p cpus fin n x = Some y" using nx by (simp add: process_next_def)
    moreover have "crew y = crew x"
      using st by (auto simp: main_next_def split: lab_place.splits if_splits sum.splits option.splits list.splits)
    ultimately show ?thesis using assms(1) process_ok_main unfolding live_inv_def by metis
  next
    case (Suc k)
    then obtain s where s: "nxt k c (crew x) = Some s" "y = x\<lparr>crew := s\<rparr>" and r: "running x k"
      using nx by (auto simp: process_next_def split: if_splits)
    have "k < n" using r assms(1) by (simp add: running_def live_inv_def process_ok_def)
    then have "reach init (sched nxt n) s"
      using assms(1) s(1) by (auto simp: live_inv_def intro: reach_step sched)
    moreover have "{j. fin (crew x) j} \<subseteq> {j. fin s j}" using fin_stays [OF s(1)] by auto
    ultimately show ?thesis
      using assms(1) alive_ok_mono by (auto simp: live_inv_def process_ok_def s(2) spawned_def)
  qed
qed

end

sublocale thread_team \<subseteq> life: invariant_system "process_init n init"
  "sched (process_next kind os p cpus nxt fin n) (Suc n)" live_inv for kind os p cpus
  by unfold_locales (auto intro: live_inv_init live_inv_step)

text \<open>What a thread that has not returned uses is alive; at the return of \<open>main\<close> nothing is.\<close>

definition releases_last :: "('s \<Rightarrow> nat \<Rightarrow> bool) \<Rightarrow> nat \<Rightarrow> 's process \<Rightarrow> bool" where
  "releases_last fin n x \<longleftrightarrow>
     (\<forall>k. running x k \<and> \<not> fin (crew x) k \<longrightarrow>
        bar_live x \<and> lock_live x \<and> k \<in> attrs_live x \<and> blocks_live x = {WorkArgs, Attrs, Handles, Cabin}) \<and>
     (lab_pc x = LabReturn \<longrightarrow> (\<forall>k<n. made x ! k \<noteq> None \<and> fin (crew x) k) \<and>
        \<not> bar_live x \<and> \<not> lock_live x \<and> attrs_live x = {} \<and> blocks_live x = {})"

lemma process_ok_releases_last:
  assumes "process_ok fin n x"
  shows "releases_last fin n x"
proof -
  have "bar_live x \<and> lock_live x \<and> k \<in> attrs_live x \<and> blocks_live x = UNIV"
    if r: "running x k" "\<not> fin (crew x) k" for k
  proof -
    have k: "k \<in> spawned x" "k < n" using r(1) assms by (simp_all add: running_def spawned_def process_ok_def)
    have late: "\<not> {..<n} \<subseteq> {k. fin (crew x) k}" using k(2) r(2) by auto
    show ?thesis using assms [unfolded process_ok_def] k r(1) late
      by (cases "lab_pc x") (simp_all add: running_def)
  qed
  moreover have "(\<forall>k<n. made x ! k \<noteq> None \<and> fin (crew x) k) \<and> \<not> bar_live x \<and> \<not> lock_live x \<and>
      attrs_live x = {} \<and> blocks_live x = {}" if "lab_pc x = LabReturn"
  proof -
    have sp: "spawned x = {..<n}" and fi: "{..<n} \<subseteq> {k. fin (crew x) k}"
      using assms that by (simp_all add: process_ok_def)
    have "made x ! k \<noteq> None \<and> fin (crew x) k" if "k < n" for k
    proof -
      have "k \<in> spawned x" using sp that by simp
      then show ?thesis using fi that by (auto simp: spawned_def)
    qed
    then show ?thesis using assms that by (simp add: process_ok_def)
  qed
  ultimately show ?thesis unfolding releases_last_def heap_block_UNIV by blast
qed

section \<open>The process can end\<close>

definition fine_plan :: "os \<Rightarrow> prof_arg \<Rightarrow> nat \<Rightarrow> nat \<Rightarrow> bool" where
  "fine_plan os p cpus n \<longleftrightarrow> os_fine os \<and> s32sched_policy p \<in> {SCHED_OTHER, SCHED_RR, SCHED_FIFO} \<and>
     arrays_fit os n \<and> 0 < n \<and> 0 < cpus \<and> int n = int cpus * s32pthpercore p"

text \<open>\<open>main\<close> has created the threads of the plan so far and has met no error.\<close>

fun made_by :: "nat \<Rightarrow> lab_place \<Rightarrow> nat" where
  "made_by n (LabCreate k) = k" | "made_by n _ = n"

definition on_plan :: "prof_arg \<Rightarrow> nat \<Rightarrow> nat \<Rightarrow> 's process \<Rightarrow> bool" where
  "on_plan p cpus n x \<longleftrightarrow> made x = created_upto p cpus n (made_by n (lab_pc x)) \<and> (\<forall>e. lab_pc x \<noteq> LabExit e)"

fun lab_rank :: "nat \<Rightarrow> lab_place \<Rightarrow> nat" where
  "lab_rank n (LabCreate k) = 2 * n + 10 + (n - k)"
| "lab_rank n (LabJoin k) = n + 9 + (n - k)"
| "lab_rank n LabBarrier = n + 8"
| "lab_rank n LabLock = n + 7"
| "lab_rank n (LabAttr k) = 6 + (n - k)"
| "lab_rank n (LabFree bs) = 1 + length bs"
| "lab_rank n LabReturn = 0"
| "lab_rank n (LabExit e) = 0"

definition waits :: "('s \<Rightarrow> nat \<Rightarrow> bool) \<Rightarrow> nat \<Rightarrow> 's process \<Rightarrow> bool" where
  "waits fin n x \<longleftrightarrow> (\<exists>k<n. lab_pc x = LabJoin k \<and> \<not> fin (crew x) k)"

lemma create_on_plan:
  assumes "fine_plan os p cpus n" and "k < n"
  shows "create_thread os p (int cpus) (int (k div cpus)) (int (k mod cpus)) (created_upto p cpus n k) =
    Inr (created_upto p cpus n (Suc k))"
proof -
  have "0 < int cpus * s32pthpercore p" using assms(1) unfolding fine_plan_def by linarith
  then have "0 \<le> s32pthpercore p" by (simp add: zero_less_mult_iff)
  then show ?thesis
    using create_thread_planned [of os p "k mod cpus" cpus "k div cpus" n] assms by (simp add: fine_plan_def)
qed

lemma main_on_plan:
  assumes "fine_plan os p cpus n" and "on_plan p cpus n x" and "main_next kind os p cpus fin n x = Some y"
    and "process_ok fin n x"
  shows "on_plan p cpus n y"
proof (cases "lab_pc x")
  case (LabCreate k)
  then have "k < n \<or> k = n" using assms(4) by (auto simp: process_ok_def)
  then show ?thesis using assms create_on_plan [OF assms(1), of k] LabCreate
    by (auto simp: main_next_def on_plan_def)
next
  case (LabFree bs)
  then show ?thesis using assms by (cases bs) (auto simp: main_next_def on_plan_def)
next
  case LabBarrier
  then show ?thesis using assms barrier_fine(2) [of os "int n" kind] by (auto simp: main_next_def on_plan_def fine_plan_def)
next
  case LabLock
  then show ?thesis using assms by (auto simp: main_next_def on_plan_def fine_plan_def os_fine_def)
qed (use assms in \<open>auto simp: main_next_def on_plan_def split: if_splits\<close>)

definition main_good :: "barrier_kind \<Rightarrow> os \<Rightarrow> prof_arg \<Rightarrow> nat \<Rightarrow> ('s \<Rightarrow> nat \<Rightarrow> bool) \<Rightarrow> nat \<Rightarrow> 's \<Rightarrow> 's process \<Rightarrow> bool" where
  "main_good kind os p cpus fin n s x \<longleftrightarrow> fine_plan os p cpus n \<and> on_plan p cpus n x \<and> process_ok fin n x \<and> crew x = s"

lemma main_moves:
  assumes good: "main_good kind os p cpus fin n s x" and "\<not> (lab_pc x = LabReturn \<or> waits fin n x)"
  shows "\<exists>y. main_next kind os p cpus fin n x = Some y \<and> crew y = crew x \<and> lab_rank n (lab_pc y) < lab_rank n (lab_pc x)"
proof (cases "lab_pc x")
  case (LabCreate k)
  then show ?thesis using good create_on_plan [of os p cpus n k]
    by (cases "k < n") (auto simp: main_next_def main_good_def on_plan_def process_ok_def)
next
  case (LabFree bs)
  then show ?thesis by (cases bs) (simp_all add: main_next_def)
next
  case LabBarrier
  then show ?thesis using good barrier_fine(2) [of os "int n" kind] by (simp add: main_next_def main_good_def fine_plan_def)
next
  case LabLock
  then show ?thesis using good by (simp add: main_next_def main_good_def fine_plan_def os_fine_def)
next
  case (LabJoin k)
  then show ?thesis using assms(2) by (auto simp: main_next_def waits_def)
qed (use assms in \<open>auto simp: main_next_def main_good_def on_plan_def\<close>)

interpretation lab_main: progress_system "\<lambda>x y. main_next kind os p cpus fin n x = Some y"
  "main_good kind os p cpus fin n s" "\<lambda>x. lab_pc x = LabReturn \<or> waits fin n x" "\<lambda>x. lab_rank n (lab_pc x)"
  for kind os p cpus fin n s
proof unfold_locales
  fix x assume good: "main_good kind os p cpus fin n s x" and nf: "\<not> (lab_pc x = LabReturn \<or> waits fin n x)"
  from main_moves [OF this] obtain y where y: "main_next kind os p cpus fin n x = Some y" "crew y = crew x"
    "lab_rank n (lab_pc y) < lab_rank n (lab_pc x)" by blast
  have "main_good kind os p cpus fin n s y"
    using good main_on_plan [of os p cpus n x kind fin y] process_ok_main [of fin n x kind os p cpus y] y(1,2)
    by (simp add: main_good_def)
  with y show "\<exists>y. main_next kind os p cpus fin n x = Some y \<and> main_good kind os p cpus fin n s y \<and>
      lab_rank n (lab_pc y) < lab_rank n (lab_pc x)" by blast
qed

lemma main_run:
  assumes "(\<lambda>x y. main_next kind os p cpus fin n x = Some y)\<^sup>*\<^sup>* x y"
  shows "(sched (process_next kind os p cpus nxt fin n) (Suc n))\<^sup>*\<^sup>* x y"
  using assms
proof (induction rule: rtranclp_induct)
  case (step y z)
  from step.hyps(2) have "process_next kind os p cpus nxt fin n 0 c y = Some z" for c by (simp add: process_next_def)
  then have "sched (process_next kind os p cpus nxt fin n) (Suc n) y z" by (rule sched [where i = 0, rotated]) simp
  with step.IH show ?case by (rule rtranclp.rtrancl_into_rtrancl)
qed simp

text \<open>While \<open>main\<close> waits in a join all threads are there and run on.\<close>

lemma team_run:
  assumes "(sched nxt n)\<^sup>*\<^sup>* s t" and "\<And>k. k < n \<Longrightarrow> running x k" and "crew x = s"
  shows "(sched (process_next kind os p cpus nxt fin n) (Suc n))\<^sup>*\<^sup>* x (x\<lparr>crew := t\<rparr>)"
  using assms(1)
proof (induction rule: rtranclp_induct)
  case base
  have "x\<lparr>crew := s\<rparr> = x" using assms(3) by (intro process.equality) simp_all
  then show ?case by simp
next
  case (step t u)
  from step.hyps(2) obtain i c where i: "i < n" "nxt i c t = Some u" by (auto elim: schedE)
  have "running (x\<lparr>crew := t\<rparr>) i" using assms(2) [OF i(1)] by (simp add: running_def)
  then have "process_next kind os p cpus nxt fin n (Suc i) c (x\<lparr>crew := t\<rparr>) = Some (x\<lparr>crew := u\<rparr>)"
    using i(2) by (simp add: process_next_def)
  then have "sched (process_next kind os p cpus nxt fin n) (Suc n) (x\<lparr>crew := t\<rparr>) (x\<lparr>crew := u\<rparr>)"
    by (rule sched [rotated]) (use i(1) in simp)
  with step.IH show ?case by (rule rtranclp.rtrancl_into_rtrancl)
qed

context thread_team
begin

lemma plan_inv:
  assumes "fine_plan os p cpus n" and "reach (process_init n init) (sched (process_next kind os p cpus nxt fin n) (Suc n)) x"
  shows "on_plan p cpus n x"
  using assms(2)
proof (induction rule: reach.induct)
  case (reach_init x)
  have "replicate n None = created_upto p cpus n 0" by (rule nth_equalityI) (simp_all add: created_upto_def)
  moreover have "made x = replicate n None \<and> lab_pc x = LabCreate 0"
    using reach_init by (metis process_init_def process_start_def process.select_convs(1,2))
  ultimately show ?case by (simp add: on_plan_def)
next
  case (reach_step x y)
  have ok: "process_ok fin n x" using life.reach_inv [OF reach_step.hyps(1)] by (simp add: live_inv_def)
  from reach_step.hyps(2) obtain i c where "process_next kind os p cpus nxt fin n i c x = Some y" by (auto elim: schedE)
  then show ?case using main_on_plan [OF assms(1) reach_step.IH _ ok] reach_step.IH
    by (cases i) (auto simp: process_next_def on_plan_def split: if_splits)
qed

lemma can_return:
  assumes plan: "fine_plan os p cpus n"
    and r: "reach (process_init n init) (sched (process_next kind os p cpus nxt fin n) (Suc n)) x"
  shows "\<exists>y. (sched (process_next kind os p cpus nxt fin n) (Suc n))\<^sup>*\<^sup>* x y \<and> lab_pc y = LabReturn \<and>
    made y = created_upto p cpus n n"
proof -
  let ?steps = "(sched (process_next kind os p cpus nxt fin n) (Suc n))\<^sup>*\<^sup>*"
  have inv: "live_inv x" by (rule life.reach_inv [OF r])
  then have "main_good kind os p cpus fin n (crew x) x"
    using plan plan_inv [OF plan r] by (simp add: main_good_def live_inv_def)
  from lab_main.can_finish [OF this] obtain y where y: "?steps x y" "main_good kind os p cpus fin n (crew x) y"
    "lab_pc y = LabReturn \<or> waits fin n y" using main_run by blast
  have ret: "lab_pc z = LabReturn \<Longrightarrow> main_good kind os p cpus fin n s z \<Longrightarrow> made z = created_upto p cpus n n" for s z
    by (simp add: main_good_def on_plan_def)
  show ?thesis
  proof (cases "lab_pc y = LabReturn")
    case True
    then show ?thesis using y(1,2) ret by blast
  next
    case False
    then obtain k where k: "lab_pc y = LabJoin k" using y(3) by (auto simp: waits_def)
    have ok: "process_ok fin n y" "crew y = crew x" using y(2) by (simp_all add: main_good_def)
    have all: "running y j" if "j < n" for j
    proof -
      have "j \<in> spawned y" using ok(1) k that by (simp add: process_ok_def)
      then show ?thesis by (simp add: running_def spawned_def k)
    qed
    obtain t where t: "(sched nxt n)\<^sup>*\<^sup>* (crew y) t" "\<forall>j<n. fin t j"
      using team_finishes [of "crew y"] inv ok(2) by (auto simp: live_inv_def)
    have st: "?steps y (y\<lparr>crew := t\<rparr>)" by (rule team_run [OF t(1) all refl])
    have "live_inv (y\<lparr>crew := t\<rparr>)"
      by (rule life.steps_inv [OF st]) (rule life.steps_inv [OF y(1) inv])
    then have "main_good kind os p cpus fin n t (y\<lparr>crew := t\<rparr>)"
      using y(2) by (simp add: main_good_def on_plan_def live_inv_def)
    from lab_main.can_finish [OF this] obtain z where z: "?steps (y\<lparr>crew := t\<rparr>) z"
      "main_good kind os p cpus fin n t z" "lab_pc z = LabReturn \<or> waits fin n z" using main_run by blast
    have "lab_pc z = LabReturn" using z(2,3) t(2) by (auto simp: main_good_def waits_def)
    moreover have "?steps x z" using y(1) st z(1) by (blast intro: rtranclp_trans)
    ultimately show ?thesis using z(2) ret by blast
  qed
qed

lemma life_outcome:
  assumes "reach (process_init n init) (sched (process_next kind os p cpus nxt fin n) (Suc n)) x"
  shows "releases_last fin n x" and "reach init (sched nxt n) (crew x)"
  using life.reach_inv [OF assms] process_ok_releases_last by (auto simp: live_inv_def)

end

section \<open>The three builds\<close>

definition thread_done :: "workers \<Rightarrow> nat \<Rightarrow> bool" where
  "thread_done s k \<longleftrightarrow> wpc s k = WDone"

lemma worker_done_stays:
  assumes "worker_next p n i c s = Some t" and "thread_done s j"
  shows "thread_done t j"
  using assms unfolding thread_done_def
  by (cases "wpc s i"; clarsimp simp: worker_defs worker_next_def worker_bar_arrive_def worker_bar_leave_def
      split: if_splits option.splits)

lemma build_done_stays:
  assumes "build_next bnxt returns p n i c x = Some y" and "thread_done (fst x) j"
  shows "thread_done (fst y) j"
proof (cases "wpc (fst x) i = WStart")
  case True
  then show ?thesis using assms by (cases x) (auto simp: build_next_def thread_done_def split: option.splits if_splits)
next
  case False
  then show ?thesis using assms worker_done_stays [of p n i "()" "fst x" "fst y" j]
    by (cases x) (auto simp: build_next_def split: option.splits)
qed

lemma all_done: "worker_finished n s \<longleftrightarrow> (\<forall>j<n. thread_done s j)"
  by (auto simp: worker_finished_def thread_done_def list_all_iff)

text \<open>Everything is as the worker threads need it.\<close>

definition arg_fine :: "prof_arg \<Rightarrow> bool" where
  "arg_fine p \<longleftrightarrow> prof_arg_ok p \<and> cabin_small p"

lemma reach_under: "reach (\<lambda>s. P \<and> init s) step s \<Longrightarrow> P \<and> reach init step s"
  by (induction rule: reach.induct) (auto intro: reach.intros)

interpretation default_team: thread_team "worker_next p n" n "\<lambda>s. arg_fine p \<and> worker_init s" thread_done for p n
proof unfold_locales
  fix s assume "reach (\<lambda>s. arg_fine p \<and> worker_init s) (worker_step p n) s"
  then have "worker_inv p n s \<and> arg_fine p"
    using workers.reach_inv [of p n s] by (simp add: arg_fine_def conj_assoc)
  then show "\<exists>t. (worker_step p n)\<^sup>*\<^sup>* s t \<and> (\<forall>j<n. thread_done t j)"
    using workers.can_finish [of p n s] by (auto simp: arg_fine_def all_done)
qed (rule worker_done_stays)

interpretation spin_team: thread_team "spin_build_next p n" n "\<lambda>x. arg_fine p \<and> spin_build_init n x" "\<lambda>x. thread_done (fst x)" for p n
proof unfold_locales
  fix x assume "reach (\<lambda>x. arg_fine p \<and> spin_build_init n x) (sched (spin_build_next p n) n) x"
  from reach_under [OF this] show "\<exists>y. (sched (spin_build_next p n) n)\<^sup>*\<^sup>* x y \<and> (\<forall>j<n. thread_done (fst y) j)"
    using spin_build_outcome(2) [of p n x] by (auto simp: arg_fine_def all_done)
qed (auto simp: spin_build_next_def intro: build_done_stays)

interpretation sleep_team: thread_team "sleep_build_next p n" n "\<lambda>x. arg_fine p \<and> sleep_build_init n x" "\<lambda>x. thread_done (fst x)" for p n
proof unfold_locales
  fix x assume "reach (\<lambda>x. arg_fine p \<and> sleep_build_init n x) (sched (sleep_build_next p n) n) x"
  from reach_under [OF this] show "\<exists>y. (sched (sleep_build_next p n) n)\<^sup>*\<^sup>* x y \<and> (\<forall>j<n. thread_done (fst y) j)"
    using sleep_build_outcome(2) [of p n x] by (auto simp: arg_fine_def all_done)
qed (auto simp: sleep_build_next_def intro: build_done_stays)

section \<open>Properties\<close>

abbreviation default_process :: "os \<Rightarrow> prof_arg \<Rightarrow> nat \<Rightarrow> nat \<Rightarrow> workers process \<Rightarrow> workers process \<Rightarrow> bool" where
  "default_process os p cpus n \<equiv> sched (process_next PthreadBarrier os p cpus (worker_next p n) thread_done n) (Suc n)"

abbreviation spin_process ::
    "os \<Rightarrow> prof_arg \<Rightarrow> nat \<Rightarrow> nat \<Rightarrow> (workers \<times> bar_state) process \<Rightarrow> (workers \<times> bar_state) process \<Rightarrow> bool" where
  "spin_process os p cpus n \<equiv>
     sched (process_next CustomSpinBarrier os p cpus (spin_build_next p n) (\<lambda>x. thread_done (fst x)) n) (Suc n)"

abbreviation sleep_process ::
    "os \<Rightarrow> prof_arg \<Rightarrow> nat \<Rightarrow> nat \<Rightarrow> (workers \<times> cond_state) process \<Rightarrow> (workers \<times> cond_state) process \<Rightarrow> bool" where
  "sleep_process os p cpus n \<equiv>
     sched (process_next CustomBarrier os p cpus (sleep_build_next p n) (\<lambda>x. thread_done (fst x)) n) (Suc n)"

text \<open>The outcome for each build.\<close>

lemma default_process_outcome:
  assumes "prof_arg_ok p" and "cabin_small p" and "reach (process_init n worker_init) (default_process os p cpus n) x"
  shows "releases_last thread_done n x" and "round_robin_so_far p n (crew x)"
    and "fine_plan os p cpus n \<Longrightarrow>
      \<exists>u. (default_process os p cpus n)\<^sup>*\<^sup>* x u \<and> lab_pc u = LabReturn \<and> made u = created_upto p cpus n n"
proof -
  have i: "(\<lambda>s. arg_fine p \<and> worker_init s) = worker_init" using assms(1,2) by (simp add: arg_fine_def)
  note d = default_team.life_outcome [of n p PthreadBarrier os p cpus x, unfolded i, OF assms(3)]
  show "releases_last thread_done n x" by (rule d(1))
  have "(\<lambda>s. prof_arg_ok p \<and> cabin_small p \<and> worker_init s) = worker_init" using assms(1,2) by simp
  then show "round_robin_so_far p n (crew x)"
    using workers.reach_inv [of p n "crew x"] d(2) worker_inv_round_robin by simp
  show "fine_plan os p cpus n \<Longrightarrow>
      \<exists>u. (default_process os p cpus n)\<^sup>*\<^sup>* x u \<and> lab_pc u = LabReturn \<and> made u = created_upto p cpus n n"
    by (rule default_team.can_return [of os p cpus n p PthreadBarrier x, unfolded i, OF _ assms(3)])
qed

lemma spin_process_outcome:
  assumes "prof_arg_ok p" and "cabin_small p"
    and "reach (process_init n (spin_build_init n)) (spin_process os p cpus n) x"
  shows "releases_last (\<lambda>s. thread_done (fst s)) n x" and "round_robin_so_far p n (fst (crew x))"
    and "fine_plan os p cpus n \<Longrightarrow>
      \<exists>u. (spin_process os p cpus n)\<^sup>*\<^sup>* x u \<and> lab_pc u = LabReturn \<and> made u = created_upto p cpus n n"
proof -
  have i: "(\<lambda>s. arg_fine p \<and> spin_build_init n s) = spin_build_init n" using assms(1,2) by (simp add: arg_fine_def)
  note s = spin_team.life_outcome [of n p CustomSpinBarrier os p cpus x, unfolded i, OF assms(3)]
  show "releases_last (\<lambda>s. thread_done (fst s)) n x" "round_robin_so_far p n (fst (crew x))"
    using s(1) spin_build_outcome(1) [OF assms(1,2) s(2)] .
  show "fine_plan os p cpus n \<Longrightarrow>
      \<exists>u. (spin_process os p cpus n)\<^sup>*\<^sup>* x u \<and> lab_pc u = LabReturn \<and> made u = created_upto p cpus n n"
    by (rule spin_team.can_return [of os p cpus n p CustomSpinBarrier x, unfolded i, OF _ assms(3)])
qed

lemma sleep_process_outcome:
  assumes "prof_arg_ok p" and "cabin_small p"
    and "reach (process_init n (sleep_build_init n)) (sleep_process os p cpus n) x"
  shows "releases_last (\<lambda>s. thread_done (fst s)) n x" and "round_robin_so_far p n (fst (crew x))"
    and "fine_plan os p cpus n \<Longrightarrow>
      \<exists>u. (sleep_process os p cpus n)\<^sup>*\<^sup>* x u \<and> lab_pc u = LabReturn \<and> made u = created_upto p cpus n n"
proof -
  have i: "(\<lambda>s. arg_fine p \<and> sleep_build_init n s) = sleep_build_init n" using assms(1,2) by (simp add: arg_fine_def)
  note s = sleep_team.life_outcome [of n p CustomBarrier os p cpus x, unfolded i, OF assms(3)]
  show "releases_last (\<lambda>s. thread_done (fst s)) n x" "round_robin_so_far p n (fst (crew x))"
    using s(1) sleep_build_outcome(1) [OF assms(1,2) s(2)] .
  show "fine_plan os p cpus n \<Longrightarrow>
      \<exists>u. (sleep_process os p cpus n)\<^sup>*\<^sup>* x u \<and> lab_pc u = LabReturn \<and> made u = created_upto p cpus n n"
    by (rule sleep_team.can_return [of os p cpus n p CustomBarrier x, unfolded i, OF _ assms(3)])
qed

text \<open>C3: for a configuration that passed \<open>parsing_input\<close> and a list without a number above 1290 in size (whose
  cube would overflow), in every build, with threads that run while others are still being created: as long as a
  created thread has not returned, the barrier, the lock, its attributes, its argument and the cabin are alive,
  whichever call fails; when \<open>main\<close> returns all threads have, and everything is destroyed and freed; no
  thread has faulted, and the picks are round-robin; and when every call succeeds, there is memory for the arrays and
  a positive number of threads is asked for, the process can come to that return from every state it reaches, with all
  threads of the plan created.\<close>

theorem lab02_process_life:
  assumes "prof_arg_ok p" and "cabin_small p"
    and "reach (process_init n worker_init) (default_process os p cpus n) x"
    and "reach (process_init n (spin_build_init n)) (spin_process os p cpus n) y"
    and "reach (process_init n (sleep_build_init n)) (sleep_process os p cpus n) z"
  shows "(releases_last thread_done n x \<and> round_robin_so_far p n (crew x)) \<and>
    (releases_last (\<lambda>s. thread_done (fst s)) n y \<and> round_robin_so_far p n (fst (crew y))) \<and>
    (releases_last (\<lambda>s. thread_done (fst s)) n z \<and> round_robin_so_far p n (fst (crew z))) \<and>
    (fine_plan os p cpus n \<longrightarrow>
      (\<exists>u. (default_process os p cpus n)\<^sup>*\<^sup>* x u \<and> lab_pc u = LabReturn \<and> made u = created_upto p cpus n n) \<and>
      (\<exists>u. (spin_process os p cpus n)\<^sup>*\<^sup>* y u \<and> lab_pc u = LabReturn \<and> made u = created_upto p cpus n n) \<and>
      (\<exists>u. (sleep_process os p cpus n)\<^sup>*\<^sup>* z u \<and> lab_pc u = LabReturn \<and> made u = created_upto p cpus n n))"
  using default_process_outcome [OF assms(1-3)] spin_process_outcome [OF assms(1,2,4)]
    sleep_process_outcome [OF assms(1,2,5)] by simp

theorem lab02_process_life_witness:
  "\<exists>x y z. (default_process fine_os demo_arg 1 2)\<^sup>*\<^sup>* (process_start 2 demo_workers) x \<and> lab_pc x = LabReturn \<and>
     (spin_process fine_os demo_arg 1 2)\<^sup>*\<^sup>* (process_start 2 (demo_workers, bar_start)) y \<and> lab_pc y = LabReturn \<and>
     (sleep_process fine_os demo_arg 1 2)\<^sup>*\<^sup>* (process_start 2 (demo_workers, cond_start 2)) z \<and> lab_pc z = LabReturn"
proof -
  have st: "crew (process_start k s) = s" for k and s :: 's by (simp add: process_start_def)
  have "spin_build_init 2 (demo_workers, bar_start)" "sleep_build_init 2 (demo_workers, cond_start 2)"
    by (simp_all add: spin_build_init_def sleep_build_init_def demo_ok bar_start_init cond_start_init)
  then have "reach (process_init 2 worker_init) (default_process fine_os demo_arg 1 2) (process_start 2 demo_workers)"
    "reach (process_init 2 (spin_build_init 2)) (spin_process fine_os demo_arg 1 2) (process_start 2 (demo_workers, bar_start))"
    "reach (process_init 2 (sleep_build_init 2)) (sleep_process fine_os demo_arg 1 2) (process_start 2 (demo_workers, cond_start 2))"
    using demo_ok(3) by (auto intro!: reach_init simp: process_init_def st)
  note life = lab02_process_life [OF demo_ok(1,2) this]
  have "os_fine fine_os" by (simp add: os_fine_def fine_os_def)
  then have "fine_plan fine_os demo_arg 1 2" using fine_os_fit [of 2] by (simp add: fine_plan_def demo_arg_def)
  with life show ?thesis by blast
qed

end
