(* ===== verification/Lab02Program.thy ===== *)
theory Lab02Program
  imports Lab02Process
begin

text \<open>
  \<open>lab02\<close> as a whole: the command line is parsed by \<open>main\<close> (\<open>Lab02Main\<close>), the threads it creates run
  \<open>work_fxn\<close> (\<open>Lab02Worker\<close>), with any of the three barriers (\<open>Lab02Builds\<close>).
\<close>

text \<open>The outcome for \<open>n\<close> threads, \<open>R\<close> rounds and \<open>cnt\<close> numbers: no fault, and even picks in the end.\<close>

definition even_picks :: "nat \<Rightarrow> nat \<Rightarrow> nat \<Rightarrow> workers \<Rightarrow> bool" where
  "even_picks n R cnt s \<longleftrightarrow> list_all (\<lambda>i. wpc s i \<noteq> WFault) [0..<n] \<and>
     (worker_finished n s \<longrightarrow>
        list_all (\<lambda>j. count_list (picks s) (int j) = n * R div cnt + (if j < n * R mod cnt then 1 else 0)) [0..<cnt])"

lemma even_picks:
  assumes "round_robin_so_far p n s" and "s32cnt p = int cnt"
  shows "even_picks n (nat (s32round p)) cnt s"
proof -
  have "count_list (picks s) (int j) = n * nat (s32round p) div cnt + (if j < n * nat (s32round p) mod cnt then 1 else 0)"
    if "worker_finished n s" "j < cnt" for j
    using assms that round_robin_count [of j cnt "length (picks s)"]
    unfolding round_robin_so_far_def assms(2) nat_int by metis
  then show ?thesis using assms(1) by (simp add: even_picks_def round_robin_so_far_def list_all_iff)
qed

text \<open>
  In state \<open>x\<close> of the process: the picks are even, when \<open>main\<close> has returned all threads have taken their
  picks, and that return, with the threads \<open>ts\<close> created, can be reached.
\<close>

definition ends_evenly ::
    "('s process \<Rightarrow> 's process \<Rightarrow> bool) \<Rightarrow> ('s \<Rightarrow> workers) \<Rightarrow> nat \<Rightarrow> nat \<Rightarrow> nat \<Rightarrow> threads \<Rightarrow> 's process \<Rightarrow> bool" where
  "ends_evenly step workers_of n R cnt ts x \<longleftrightarrow> even_picks n R cnt (workers_of (crew x)) \<and>
     (lab_pc x = LabReturn \<longrightarrow> worker_finished n (workers_of (crew x))) \<and>
     (\<exists>y. step\<^sup>*\<^sup>* x y \<and> lab_pc y = LabReturn \<and> made y = ts)"

lemma ends_evenlyI:
  assumes "releases_last (\<lambda>s. thread_done (w s)) n x" and "round_robin_so_far p n (w (crew x))" and "s32cnt p = int cnt"
    and "\<exists>y. step\<^sup>*\<^sup>* x y \<and> lab_pc y = LabReturn \<and> made y = ts"
  shows "ends_evenly step w n (nat (s32round p)) cnt ts x"
  using assms even_picks [OF assms(2,3)] by (simp add: ends_evenly_def releases_last_def all_done)

text \<open>C2: \<open>lab02\<close> as a whole, when the command line is accepted, \<open>exp.cfg\<close> asks for at least one thread per core,
  every call of the operating system succeeds (affinity, policy, priority, creation, lock, barrier, and the memory
  for the list and the three arrays), and no number of the list exceeds 1290 in size, so that its cube fits an \<open>int\<close>:
  \<open>main\<close> creates as many threads as its barrier has been set to, all with the parsed record; and in
  every state that the process reaches, with the barrier of POSIX, the spinning or the sleeping one,
  no thread has faulted and \<open>main\<close> can still return, and when it has, each number of the command line has
  been taken equally often, up to one.\<close>

theorem lab02_end_to_end:
  assumes "os_fine os" and "\<And>k b. malloc k = Some b \<Longrightarrow> length b = k"
    and "parsing_input malloc argv gstrArg0 = (0, a)" and "parsing_cfgfile cfg a = (0, p)"
    and "s32pthpercore p = int m" and "0 < m" and "0 < cpus" and "arrays_fit os (cpus * m)"
    and "list_all (\<lambda>x. - 1290 \<le> atoi x \<and> atoi x \<le> 1290) (drop 4 argv)"
    and "n = cpus * m" and "R = nat (atoi (argv ! 2))" and "cnt = length argv - 4"
  shows "\<exists>ts. lab02_main kind os malloc cfg (int cpus) argv = Inr (p, int n, ts) \<and> length ts = n \<and>
      list_all (\<lambda>t. \<exists>wa attr. t = Some (wa, attr) \<and> pstrprofarg wa = p) ts \<and>
      (\<forall>x. reach (process_init n worker_init) (default_process os p cpus n) x \<longrightarrow>
        ends_evenly (default_process os p cpus n) (\<lambda>s. s) n R cnt ts x) \<and>
      (\<forall>x. reach (process_init n (spin_build_init n)) (spin_process os p cpus n) x \<longrightarrow>
        ends_evenly (spin_process os p cpus n) fst n R cnt ts x) \<and>
      (\<forall>x. reach (process_init n (sleep_build_init n)) (sleep_process os p cpus n) x \<longrightarrow>
        ends_evenly (sleep_process os p cpus n) fst n R cnt ts x)"
proof -
  let ?ts = "created_upto p cpus n n"
  have main: "lab02_main kind os malloc cfg (int cpus) argv = Inr (p, int n, ?ts)" and ok: "prof_arg_ok p"
    using lab02_main_succeeds [OF assms(1-8)] unfolding assms(10) by blast+
  note a = parsing_input_success [OF assms(2,3)]
  have p: "nat (s32round p) = R" "s32cnt p = int cnt" "ps32cabin p = Some (map atoi (drop 4 argv))"
    using parsing_cfgfile_keeps [OF assms(4)] a(5) assms(11,12) by simp_all
  have small: "cabin_small p" using assms(9) p(3) by (simp add: cabin_small_def list_all_iff)
  have plan: "fine_plan os p cpus n" using assms(1,5-8,10) ok by (auto simp: fine_plan_def prof_arg_ok_def)
  note evenly = ends_evenlyI [OF _ _ p(2), unfolded p(1)]
  have "list_all (\<lambda>t. \<exists>wa attr. t = Some (wa, attr) \<and> pstrprofarg wa = p) ?ts" "length ?ts = n"
    by (auto simp: created_upto_def planned_def Let_def list_all_iff)
  moreover have "ends_evenly (default_process os p cpus n) (\<lambda>s. s) n R cnt ?ts x"
    if "reach (process_init n worker_init) (default_process os p cpus n) x" for x
    using default_process_outcome [OF ok small that] plan by (intro evenly) simp_all
  moreover have "ends_evenly (spin_process os p cpus n) fst n R cnt ?ts x"
    if "reach (process_init n (spin_build_init n)) (spin_process os p cpus n) x" for x
    using spin_process_outcome [OF ok small that] plan by (intro evenly) simp_all
  moreover have "ends_evenly (sleep_process os p cpus n) fst n R cnt ?ts x"
    if "reach (process_init n (sleep_build_init n)) (sleep_process os p cpus n) x" for x
    using sleep_process_outcome [OF ok small that] plan by (intro evenly) simp_all
  ultimately show ?thesis using main by blast
qed

lemma ex_left: "\<exists>ts. P ts \<and> A ts \<and> B ts \<and> C ts \<and> D ts \<and> E ts \<Longrightarrow> \<exists>ts. P ts \<and> D ts"
  by blast

theorem lab02_end_to_end_witness:
  "\<exists>p ts x. lab02_main CustomSpinBarrier fine_os (\<lambda>k. Some (replicate k 7)) (Some ''1'') 2
      [''lab02_main'', ''SCHED_RR'', ''100'', ''1000'', ''5'', ''2'', ''5''] = Inr (p, 2, ts) \<and>
    (spin_process fine_os p 2 2)\<^sup>*\<^sup>* (process_start 2 (demo_workers, bar_start)) x \<and>
    lab_pc x = LabReturn \<and> made x = ts \<and>
    count_list (picks (fst (crew x))) 0 = 67 \<and> count_list (picks (fst (crew x))) 2 = 66"
proof -
  let ?argv = "[''lab02_main'', ''SCHED_RR'', ''100'', ''1000'', ''5'', ''2'', ''5'']"
  let ?malloc = "\<lambda>k. Some (replicate k (7 :: int))"
  let ?p = "\<lparr>s32pthpercore = 1, as32prio = [0, 0], s32sched_policy = 2, s32round = 100, s32iter = 1000,
     s32cnt = 3, ps32cabin = Some [5, 2, 5]\<rparr>"
  let ?init = "process_init 2 (spin_build_init 2)" and ?step = "spin_process fine_os ?p 2 2"
  let ?x = "process_start 2 (demo_workers, bar_start)"
  have at: "atoi ''100'' = 100" "atoi ''1000'' = 1000" "atoi ''2'' = 2" "atoi ''5'' = 5" by code_simp+
  have sc: "scan_d ''1'' = Some (1, [])" "scan_d [] = None" by code_simp+
  obtain a where a: "parsing_input ?malloc ?argv gstrArg0 = (0, a)" and p: "parsing_cfgfile (Some ''1'') a = (0, ?p)"
    by (simp add: parsing_input_def check_sched_policy_def at Let_def gstrArg0_def fill_cabin_def
        parsing_cfgfile_def scan_into_def sc upt_rec)
  have fine: "os_fine fine_os" by (simp add: os_fine_def fine_os_def)
  have fit: "arrays_fit fine_os 2" by (rule fine_os_fit) simp
  have init: "reach ?init ?step ?x"
    by (rule reach_init) (simp add: process_init_def process_start_def spin_build_init_def demo_ok bar_start_init)
  have "\<exists>ts. lab02_main CustomSpinBarrier fine_os ?malloc (Some ''1'') (int 2) ?argv = Inr (?p, int 2, ts) \<and>
      (\<forall>x. reach ?init ?step x \<longrightarrow> ends_evenly ?step fst 2 100 3 ts x)"
    by (rule ex_left [OF lab02_end_to_end [OF fine _ a p, where kind = CustomSpinBarrier and m = 1 and cpus = 2 and n = 2 and R = 100 and cnt = 3]])
      (simp_all add: at fit)
  then obtain ts where ts: "lab02_main CustomSpinBarrier fine_os ?malloc (Some ''1'') 2 ?argv = Inr (?p, 2, ts)"
    and all: "\<forall>x. reach ?init ?step x \<longrightarrow> ends_evenly ?step fst 2 100 3 ts x"
    unfolding of_nat_numeral by blast
  obtain y where y: "?step\<^sup>*\<^sup>* ?x y" "lab_pc y = LabReturn" "made y = ts"
    using all init unfolding ends_evenly_def by blast
  have "ends_evenly ?step fst 2 100 3 ts y" using all reach_steps [OF init y(1)] by blast
  then have "even_picks 2 100 3 (fst (crew y))" "worker_finished 2 (fst (crew y))"
    using y(2) unfolding ends_evenly_def by blast+
  then have c: "\<forall>j \<in> set [0..<3]. count_list (picks (fst (crew y))) (int j) = 66 + (if j < 2 then 1 else 0)"
    by (simp add: even_picks_def list_all_iff)
  have "count_list (picks (fst (crew y))) 0 = 67" "count_list (picks (fst (crew y))) 2 = 66"
    using bspec [OF c, of 0] bspec [OF c, of 2] by simp_all
  then show ?thesis using ts y by blast
qed

end
