(* ===== verification/QuickSort.thy ===== *)
theory QuickSort
  imports Complex_Main Prelude CStrings "HOL-Library.Multiset"
begin

text \<open>
  The randomised quicksort of \<open>studio03/test_programs/sort.c\<close> (the copy under
  \<open>studio04/test_programs\<close> is the same file). A finite \<open>double\<close> is the rational number it
  stands for. An access outside the array, and a conversion of a \<open>double\<close> that \<open>unsigned\<close>
  cannot hold, are undefined behaviour: the value \<open>None\<close>. The \<open>unsigned\<close> indices are natural
  numbers; the one subtraction that could wrap is written with its wrap-around. \<open>rand\<close> is a
  parameter, the sequence of its results, and \<open>k\<close> counts its calls.
\<close>

section \<open>The program\<close>

text \<open>The conversion \<open>temp = *a\<close> from \<open>double\<close> to \<open>unsigned\<close> drops the fraction.\<close>

definition d2u :: "rat \<Rightarrow> rat option" where
  "d2u x = (if - 1 < x \<and> x < 4294967296 then Some (if x < 0 then 0 else of_int \<lfloor>x\<rfloor>) else None)"

definition swap :: "rat list \<Rightarrow> nat \<Rightarrow> nat \<Rightarrow> rat list option" where
  "swap A a b =
     (if a < length A \<and> b < length A then
        case d2u (A ! a) of
          None \<Rightarrow> None
        | Some temp \<Rightarrow> Some ((A[a := A ! b])[b := temp])
      else None)"

text \<open>The walk through the partition: the array and the final \<open>target\<close>.\<close>

function part_loop :: "rat list \<Rightarrow> rat \<Rightarrow> nat \<Rightarrow> nat \<Rightarrow> nat \<Rightarrow> (rat list \<times> nat) option" where
  "part_loop A pivot_val index end target =
     (if index < end then
        if index < length A then
          if A ! index \<le> pivot_val then
            case swap A target index of
              None \<Rightarrow> None
            | Some A' \<Rightarrow> part_loop A' pivot_val (index + 1) end (target + 1)
          else part_loop A pivot_val (index + 1) end target
        else None
      else Some (A, target))"
  by pat_completeness auto
termination by (relation "measure (\<lambda>(A, v, index, end, target). end - index)") auto

declare part_loop.simps [simp del]

definition partition ::
    "(nat \<Rightarrow> nat) \<Rightarrow> rat list \<Rightarrow> nat \<Rightarrow> nat \<Rightarrow> nat \<Rightarrow> (rat list \<times> nat \<times> nat) option" where
  "partition rand A start end k =
     (let range = (end + 4294967296 - start) mod 4294967296 in
      if range = 0 then None
      else
        let pivot = rand k mod range + start in
        case swap A pivot end of
          None \<Rightarrow> None
        | Some A1 \<Rightarrow>
            (case d2u (A1 ! end) of
               None \<Rightarrow> None
             | Some pivot_val \<Rightarrow>
                 (case part_loop A1 pivot_val start end start of
                    None \<Rightarrow> None
                  | Some (A2, target) \<Rightarrow>
                      (case swap A2 target end of
                         None \<Rightarrow> None
                       | Some A3 \<Rightarrow> Some (A3, target, Suc k)))))"

lemma part_loop_target:
  "part_loop A v index e target = Some (A', t) \<Longrightarrow> target \<le> index \<Longrightarrow> index \<le> e \<Longrightarrow>
   target \<le> t \<and> t \<le> e"
proof (induction A v index e target rule: part_loop.induct)
  case (1 A v index e target)
  show ?case
  proof (cases "index < e \<and> index < length A")
    case True
    show ?thesis
    proof (cases "A ! index \<le> v")
      case le: True
      with True 1(3) obtain B where "swap A target index = Some B"
        "part_loop B v (index + 1) e (target + 1) = Some (A', t)"
        by (subst (asm) part_loop.simps) (auto split: option.splits)
      with True le 1(1) [of B] 1(4) show ?thesis by simp
    next
      case False
      with True 1(3) have "part_loop A v (index + 1) e target = Some (A', t)"
        by (subst (asm) part_loop.simps) auto
      with True False 1(2) 1(4) show ?thesis by simp
    qed
  next
    case False
    with 1(3-5) show ?thesis by (subst (asm) part_loop.simps) (auto split: if_splits)
  qed
qed

lemma partition_target:
  "partition rand A s e k = Some (A', t, k') \<Longrightarrow> s \<le> e \<Longrightarrow> s \<le> t \<and> t \<le> e"
  by (auto simp: partition_def Let_def split: if_splits option.splits dest: part_loop_target)

function quicksort ::
    "(nat \<Rightarrow> nat) \<Rightarrow> rat list \<Rightarrow> nat \<Rightarrow> nat \<Rightarrow> nat \<Rightarrow> (rat list \<times> nat) option" where
  "quicksort rand A start end k =
     (if start < end then
        case partition rand A start end k of
          None \<Rightarrow> None
        | Some (A1, pivot, k1) \<Rightarrow>
            (case (if pivot > start then quicksort rand A1 start (pivot - 1) k1 else Some (A1, k1)) of
               None \<Rightarrow> None
             | Some (A2, k2) \<Rightarrow>
                 if pivot < end then quicksort rand A2 (pivot + 1) end k2 else Some (A2, k2))
      else Some (A, k))"
  by pat_completeness auto
termination
  by (relation "measure (\<lambda>(rand, A, start, end, k). end - start)")
    (auto dest: partition_target)

declare quicksort.simps [simp del]

text \<open>
  The loop that \<open>VERIFY_CORRECT\<close> adds: it reads outside the array (\<open>None\<close>), finds the place that it
  passes to \<open>error_quit\<close>, or nothing.
\<close>

function verify_loop :: "rat list \<Rightarrow> nat \<Rightarrow> nat \<Rightarrow> nat option option" where
  "verify_loop A index bound =
     (if index < bound then
        if index + 1 < length A then
          if \<not> A ! index \<le> A ! (index + 1) then Some (Some index) else verify_loop A (index + 1) bound
        else None
      else Some None)"
  by pat_completeness auto
termination by (relation "measure (\<lambda>(A, index, bound). bound - index)") auto

declare verify_loop.simps [simp del]

text \<open>How \<open>main\<close> ends: with an exit code, by undefined behaviour, in \<open>error_quit\<close>, or with its array.\<close>

datatype sort_end = Exits int | Faults | Aborts nat | Sorted "rat list"

text \<open>
  \<open>main\<close>: fill the array with \<open>array_size\<close> random numbers, sort, verify if built so. Nothing checks that
  \<open>malloc\<close> returned an array of \<open>array_size\<close> elements; \<open>behind\<close> is what follows it in memory and can be
  accessed, nothing as far as the language goes. The result is the array without what is behind it.
\<close>

definition sort_main ::
    "nat \<Rightarrow> (nat \<Rightarrow> bool) \<Rightarrow> bool \<Rightarrow> rat list \<Rightarrow> (nat \<Rightarrow> nat) \<Rightarrow> string list \<Rightarrow> sort_end" where
  "sort_main w ok verify_correct behind rand argv =
     (if length argv \<noteq> 2 then Exits (- 1)
      else
        let array_size = nat (wrapu32 (atoi (argv ! 1)));
            A = map (\<lambda>index. of_nat (rand index)) [0..<array_size] @ behind
        in
        if mem_block w ok 8 array_size < array_size then Faults
        else case quicksort rand A 0 array_size array_size of
          None \<Rightarrow> Faults
        | Some (A', k) \<Rightarrow>
            if verify_correct then
              (case verify_loop A' 0 (nat (wrapu32 (int array_size - 1))) of
                 None \<Rightarrow> Faults
               | Some (Some index) \<Rightarrow> Aborts index
               | Some None \<Rightarrow> Sorted (take array_size A'))
            else Sorted (take array_size A'))"

section \<open>Exchanges\<close>

text \<open>The values that survive the trip through \<open>unsigned temp\<close>.\<close>

definition uint_double :: "rat \<Rightarrow> bool" where
  "uint_double x \<longleftrightarrow> 0 \<le> x \<and> x < 4294967296 \<and> of_int \<lfloor>x\<rfloor> = x"

lemma d2u_uint: "uint_double x \<Longrightarrow> d2u x = Some x"
  by (simp add: d2u_def uint_double_def)

lemma d2u_exact: "d2u x = Some x \<longleftrightarrow> uint_double x"
  by (auto simp: d2u_def uint_double_def split: if_splits)

text \<open>\<open>A'\<close> is \<open>A\<close> with the elements of the slice from \<open>s\<close> to \<open>e\<close> rearranged.\<close>

definition rearr :: "nat \<Rightarrow> nat \<Rightarrow> rat list \<Rightarrow> rat list \<Rightarrow> bool" where
  "rearr s e A A' \<longleftrightarrow> length A' = length A \<and> mset A' = mset A \<and>
     (\<forall>i < length A. \<not> (s \<le> i \<and> i \<le> e) \<longrightarrow> A' ! i = A ! i)"

lemma rearr_refl [simp]: "rearr s e A A"
  by (simp add: rearr_def)

lemma rearr_trans: "rearr s e A B \<Longrightarrow> rearr s e B C \<Longrightarrow> rearr s e A C"
  by (simp add: rearr_def)

lemma rearr_mono: "rearr s e A B \<Longrightarrow> s' \<le> s \<Longrightarrow> e \<le> e' \<Longrightarrow> rearr s' e' A B"
  by (auto simp: rearr_def)

lemma rearr_length: "rearr s e A B \<Longrightarrow> length B = length A"
  by (simp add: rearr_def)

lemma rearr_outside: "rearr s e A B \<Longrightarrow> i < length A \<Longrightarrow> i < s \<or> e < i \<Longrightarrow> B ! i = A ! i"
  by (auto simp: rearr_def)

lemma rearr_uint: "rearr s e A B \<Longrightarrow> list_all uint_double A \<Longrightarrow> list_all uint_double B"
  by (metis rearr_def list_all_iff set_mset_mset)

text \<open>Every element of the slice comes from the slice.\<close>

lemma rearr_nth:
  assumes r: "rearr s e A B" and i: "s \<le> i" "i \<le> e" "e < length A"
  shows "\<exists>j. s \<le> j \<and> j \<le> e \<and> B ! i = A ! j"
proof -
  let ?sl = "\<lambda>X. drop s (take (Suc e) X)"
  have len: "length B = length A" using r by (rule rearr_length)
  have sp: "X = take s X @ ?sl X @ drop (Suc e) X" for X :: "rat list"
  proof -
    have "take s (take (Suc e) X) = take s X" using i by (simp add: min_def)
    then show ?thesis
      by (metis append_assoc append_take_drop_id)
  qed
  have "take s B = take s A"
    using r i len by (intro nth_equalityI) (auto simp: rearr_def)
  moreover have "drop (Suc e) B = drop (Suc e) A"
    using r i len by (intro nth_equalityI) (auto simp: rearr_def)
  moreover have "mset B = mset A" using r by (simp add: rearr_def)
  ultimately have "mset (?sl B) = mset (?sl A)"
    using arg_cong [OF sp [of A], of mset] arg_cong [OF sp [of B], of mset] by simp
  then have "set (?sl B) = set (?sl A)" by (metis set_mset_mset)
  moreover have "B ! i \<in> set (?sl B)"
  proof -
    have "?sl B ! (i - s) = B ! i" "i - s < length (?sl B)" using i len by auto
    then show ?thesis by (metis nth_mem)
  qed
  ultimately obtain j where "j < length (?sl A)" "?sl A ! j = B ! i"
    by (metis in_set_conv_nth)
  then show ?thesis using i by (intro exI [of _ "s + j"]) auto
qed

lemma swap_Some:
  assumes "a < length A" and "b < length A" and "list_all uint_double A"
  shows "swap A a b = Some (A[a := A ! b, b := A ! a])"
  using assms by (simp add: swap_def d2u_uint list_all_length)

lemma swap_rearr:
  assumes "s \<le> a" "a \<le> e" "s \<le> b" "b \<le> e" "e < length A"
  shows "rearr s e A (A[a := A ! b, b := A ! a])"
  using assms by (auto simp: rearr_def nth_list_update mset_swap)

text \<open>
  The walk keeps: up to \<open>target\<close> nothing exceeds the pivot, from there to \<open>index\<close> everything does.
\<close>

lemma part_loop_correct:
  assumes "list_all uint_double A" and "start \<le> target" and "target \<le> index" and "index \<le> e"
    and "start < e" and "e < length A"
    and "\<And>i. start \<le> i \<Longrightarrow> i < target \<Longrightarrow> A ! i \<le> v"
    and "\<And>i. target \<le> i \<Longrightarrow> i < index \<Longrightarrow> v < A ! i"
  shows "\<exists>A' t. part_loop A v index e target = Some (A', t) \<and> rearr start (e - 1) A A' \<and>
    (\<forall>i. start \<le> i \<and> i < t \<longrightarrow> A' ! i \<le> v) \<and> (\<forall>i. t \<le> i \<and> i < e \<longrightarrow> v < A' ! i)"
  using assms
proof (induction A v index e target rule: part_loop.induct)
  case (1 A v index e target)
  show ?case
  proof (cases "index < e")
    case False
    then show ?thesis using 1(3-10) by (subst part_loop.simps) auto
  next
    case lt: True
    then have len: "index < length A" "target < length A" using 1 by auto
    show ?thesis
    proof (cases "A ! index \<le> v")
      case False
      have "\<exists>A' t. part_loop A v (index + 1) e target = Some (A', t) \<and> rearr start (e - 1) A A' \<and>
        (\<forall>i. start \<le> i \<and> i < t \<longrightarrow> A' ! i \<le> v) \<and> (\<forall>i. t \<le> i \<and> i < e \<longrightarrow> v < A' ! i)"
        by (rule 1(2)) (use lt len False 1(3-10) in \<open>auto simp: less_Suc_eq\<close>)
      then show ?thesis using lt len False by (subst part_loop.simps) auto
    next
      case le: True
      let ?B = "A[target := A ! index, index := A ! target]"
      have sw: "swap A target index = Some ?B" using len 1(3) by (simp add: swap_Some)
      have re: "rearr start (e - 1) A ?B" using lt 1(4-8) by (intro swap_rearr) auto
      have "\<exists>A' t. part_loop ?B v (index + 1) e (target + 1) = Some (A', t) \<and>
        rearr start (e - 1) ?B A' \<and>
        (\<forall>i. start \<le> i \<and> i < t \<longrightarrow> A' ! i \<le> v) \<and> (\<forall>i. t \<le> i \<and> i < e \<longrightarrow> v < A' ! i)"
      proof (rule 1(1) [OF lt len(1) le sw])
        show "list_all uint_double ?B" using re 1(3) by (rule rearr_uint)
        show "?B ! i \<le> v" if "start \<le> i" "i < target + 1" for i
          using that 1(5,9) le len by (auto simp: nth_list_update less_Suc_eq)
        show "v < ?B ! i" if "target + 1 \<le> i" "i < index + 1" for i
          using that 1(10) [of i] 1(10) [of target] len by (auto simp: nth_list_update less_Suc_eq)
      qed (use lt len 1(4-8) in auto)
      then show ?thesis using lt len le sw rearr_trans [OF re]
        by (subst part_loop.simps) auto
    qed
  qed
qed

lemma partition_correct:
  assumes u: "list_all uint_double A" and se: "s < e" "e < length A" "e < 4294967296"
  shows "\<exists>A' t. partition rand A s e k = Some (A', t, Suc k) \<and> s \<le> t \<and> t \<le> e \<and> rearr s e A A' \<and>
    (\<forall>i. s \<le> i \<and> i < t \<longrightarrow> A' ! i \<le> A' ! t) \<and> (\<forall>i. t < i \<and> i \<le> e \<longrightarrow> A' ! t < A' ! i)"
proof -
  have range: "(e + 4294967296 - s) mod 4294967296 = e - s"
    using se by (simp add: mod_if)
  define p where "p = rand k mod (e - s) + s"
  have "rand k mod (e - s) < e - s" using se by simp
  then have p: "s \<le> p" "p \<le> e" unfolding p_def by linarith+
  define A1 where "A1 = A[p := A ! e, e := A ! p]"
  have r1: "rearr s e A A1" unfolding A1_def using p se by (intro swap_rearr) auto
  note u1 = rearr_uint [OF r1 u] and l1 = rearr_length [OF r1]
  have sw1: "swap A p e = Some A1" unfolding A1_def using p se u by (intro swap_Some) auto
  have pv: "d2u (A1 ! e) = Some (A1 ! e)"
    using u1 l1 se by (intro d2u_uint) (simp add: list_all_length)
  obtain A2 t where loop: "part_loop A1 (A1 ! e) s e s = Some (A2, t)" and r2: "rearr s (e - 1) A1 A2"
    and lo: "\<And>i. s \<le> i \<Longrightarrow> i < t \<Longrightarrow> A2 ! i \<le> A1 ! e"
    and hi: "\<And>i. t \<le> i \<Longrightarrow> i < e \<Longrightarrow> A1 ! e < A2 ! i"
    using part_loop_correct [OF u1, of s s s e "A1 ! e"] se l1 by auto
  have t: "s \<le> t" "t \<le> e" using part_loop_target [OF loop] se by auto
  have Ae: "A2 ! e = A1 ! e" using rearr_outside [OF r2, of e] se l1 by simp
  have u2: "list_all uint_double A2" and l2: "length A2 = length A"
    using rearr_uint [OF r2 u1] rearr_length [OF r2] l1 by simp_all
  define A3 where "A3 = A2[t := A2 ! e, e := A2 ! t]"
  have sw3: "swap A2 t e = Some A3" unfolding A3_def using t se u2 l2 by (intro swap_Some) auto
  have "rearr s e A2 A3" unfolding A3_def using t se l2 by (intro swap_rearr) auto
  then have r3: "rearr s e A A3"
    using rearr_trans [OF rearr_trans [OF r1 rearr_mono [OF r2]]] by simp
  have At: "A3 ! t = A1 ! e" using t se l2 Ae by (cases "t = e") (simp_all add: A3_def nth_list_update)
  have "A3 ! i \<le> A3 ! t" if "s \<le> i" "i < t" for i
  proof -
    have "A3 ! i = A2 ! i" using that t by (simp add: A3_def)
    then show ?thesis using lo [OF that] At by simp
  qed
  moreover have "A3 ! t < A3 ! i" if "t < i" "i \<le> e" for i
    using that hi [of i] hi [of t] t se l2 by (auto simp: A3_def nth_list_update Ae)
  moreover have "partition rand A s e k = Some (A3, t, Suc k)"
    unfolding partition_def Let_def range p_def [symmetric] using se sw1 pv loop sw3 by simp
  ultimately show ?thesis using t r3 by blast
qed

section \<open>Sorting\<close>

definition sorted_slice :: "nat \<Rightarrow> nat \<Rightarrow> rat list \<Rightarrow> bool" where
  "sorted_slice s e A \<longleftrightarrow> (\<forall>i j. s \<le> i \<longrightarrow> i \<le> j \<longrightarrow> j \<le> e \<longrightarrow> A ! i \<le> A ! j)"

lemma sorted_slice_trivial: "e \<le> s \<Longrightarrow> sorted_slice s e A"
proof -
  assume es: "e \<le> s"
  have "i = j" if "s \<le> i" "i \<le> j" "j \<le> e" for i j using es that by linarith
  then show ?thesis unfolding sorted_slice_def by (metis order_refl)
qed

lemma sorted_slice_unchanged:
  "sorted_slice s e A \<Longrightarrow> rearr s' e' A B \<Longrightarrow> e < s' \<or> e' < s \<Longrightarrow> e < length A \<Longrightarrow> sorted_slice s e B"
  unfolding sorted_slice_def rearr_def by auto

lemma sorted_slice_join:
  assumes "t = s \<or> sorted_slice s (t - 1) A" and "t = e \<or> sorted_slice (t + 1) e A" and "s \<le> t" "t \<le> e"
    and lo: "\<And>i. s \<le> i \<Longrightarrow> i < t \<Longrightarrow> A ! i \<le> A ! t" and hi: "\<And>i. t < i \<Longrightarrow> i \<le> e \<Longrightarrow> A ! t \<le> A ! i"
  shows "sorted_slice s e A"
  unfolding sorted_slice_def
proof (intro allI impI)
  fix i j assume ij: "s \<le> i" "i \<le> j" "j \<le> e"
  consider "j < t" | "i \<le> t" "t \<le> j" | "t < i" using ij by linarith
  then show "A ! i \<le> A ! j"
  proof cases
    case 1
    then show ?thesis using assms(1) ij unfolding sorted_slice_def by auto
  next
    case 2
    have "A ! i \<le> A ! t" using lo [of i] ij 2 by (cases "i = t") auto
    also have "A ! t \<le> A ! j" using hi [of j] ij 2 by (cases "j = t") auto
    finally show ?thesis .
  next
    case 3
    then show ?thesis using assms(2) ij unfolding sorted_slice_def by auto
  qed
qed

text \<open>The slice conditions around the pivot survive a rearrangement of either side.\<close>

lemma rearr_bound_below:
  assumes "rearr s (t - 1) A B" and "s < t" and "t < length A" and "\<And>i. s \<le> i \<Longrightarrow> i < t \<Longrightarrow> A ! i \<le> A ! t"
    and "s \<le> i" "i < t"
  shows "B ! i \<le> B ! t"
  using rearr_nth [OF assms(1), of i] rearr_outside [OF assms(1), of t] assms(2-6) by fastforce

lemma rearr_bound_above:
  assumes "rearr (t + 1) e A B" and "t < e" and "e < length A" and "\<And>i. t < i \<Longrightarrow> i \<le> e \<Longrightarrow> A ! t < A ! i"
    and "t < i" "i \<le> e"
  shows "B ! t < B ! i"
  using rearr_nth [OF assms(1), of i] rearr_outside [OF assms(1), of t] assms(2-6) by fastforce

lemma quicksort_correct:
  assumes "list_all uint_double A" and "e < length A" and "e < 4294967296"
  shows "\<exists>A' k'. quicksort rand A s e k = Some (A', k') \<and> rearr s e A A' \<and> sorted_slice s e A'"
  using assms
proof (induction "e - s" arbitrary: A s e k rule: less_induct)
  case less
  show ?case
  proof (cases "s < e")
    case False
    then show ?thesis by (subst quicksort.simps) (simp add: sorted_slice_trivial)
  next
    case True
    obtain A1 t where part: "partition rand A s e k = Some (A1, t, Suc k)" and t: "s \<le> t" "t \<le> e"
      and r1: "rearr s e A A1" and lo1: "\<And>i. s \<le> i \<Longrightarrow> i < t \<Longrightarrow> A1 ! i \<le> A1 ! t"
      and hi1: "\<And>i. t < i \<Longrightarrow> i \<le> e \<Longrightarrow> A1 ! t < A1 ! i"
      using partition_correct [OF less.prems(1) True less.prems(2,3), of rand k] by blast
    note u1 = rearr_uint [OF r1 less.prems(1)] and l1 = rearr_length [OF r1]
    obtain A2 k2 where q2: "(if t > s then quicksort rand A1 s (t - 1) (Suc k) else Some (A1, Suc k)) = Some (A2, k2)"
      and r2: "rearr s (t - 1) A1 A2" and s2: "t = s \<or> sorted_slice s (t - 1) A2"
      and lo2: "\<And>i. s \<le> i \<Longrightarrow> i < t \<Longrightarrow> A2 ! i \<le> A2 ! t"
      and out2: "\<And>i. t \<le> i \<Longrightarrow> i \<le> e \<Longrightarrow> A2 ! i = A1 ! i"
    proof (cases "t > s")
      case ts: True
      have "t - 1 - s < e - s" "t - 1 < length A1" "t - 1 < 4294967296" "t < length A1"
        using ts t True less.prems l1 by auto
      with less.hyps [OF this(1) u1 this(2,3)] obtain A2 k2
        where q: "quicksort rand A1 s (t - 1) (Suc k) = Some (A2, k2)"
          and r: "rearr s (t - 1) A1 A2" and ss: "sorted_slice s (t - 1) A2" by blast
      show ?thesis
      proof (rule that)
        show "rearr s (t - 1) A1 A2" by (rule r)
        show "A2 ! i \<le> A2 ! t" if "s \<le> i" "i < t" for i
          using rearr_bound_below [OF r ts \<open>t < length A1\<close> lo1 that] .
        show "A2 ! i = A1 ! i" if "t \<le> i" "i \<le> e" for i
          using rearr_outside [OF r, of i] that ts less.prems l1 by auto
      qed (use q ts ss in auto)
    next
      case False
      then show ?thesis using t that [of A1 "Suc k"] by simp
    qed
    have r12: "rearr s e A A2" using t by (intro rearr_trans [OF r1 rearr_mono [OF r2]]) auto
    note u2 = rearr_uint [OF r12 less.prems(1)] and l2 = rearr_length [OF r12]
    have hi2: "A2 ! t < A2 ! i" if "t < i" "i \<le> e" for i
      using hi1 [OF that] out2 that t by simp
    show ?thesis
    proof (cases "t < e")
      case False
      then have te: "t = e" using t by simp
      have "quicksort rand A s e k = Some (A2, k2)"
        using True part q2 te by (subst quicksort.simps) auto
      moreover have "sorted_slice s e A2"
        by (rule sorted_slice_join [OF s2]) (use te t lo2 in auto)
      ultimately show ?thesis using r12 by blast
    next
      case te: True
      have "e - (t + 1) < e - s" "e < length A2" using te t less.prems l2 by auto
      with less.hyps [OF this(1) u2 this(2) less.prems(3)] obtain A3 k3
        where q3: "quicksort rand A2 (t + 1) e k2 = Some (A3, k3)"
          and r3: "rearr (t + 1) e A2 A3" and s3: "sorted_slice (t + 1) e A3" by blast
      have "quicksort rand A s e k = Some (A3, k3)"
        using True part q2 te q3 by (subst quicksort.simps) auto
      moreover have "rearr s e A A3" using t by (intro rearr_trans [OF r12 rearr_mono [OF r3]]) auto
      moreover have "sorted_slice s e A3"
      proof (rule sorted_slice_join [OF _ _ t])
        show "t = s \<or> sorted_slice s (t - 1) A3"
          using s2 sorted_slice_unchanged [OF _ r3] te l2 less.prems by fastforce
        show "t = e \<or> sorted_slice (t + 1) e A3" using s3 by simp
        have out: "A3 ! i = A2 ! i" if "i \<le> t" for i
          using rearr_outside [OF r3, of i] that te l2 less.prems by simp
        show "A3 ! i \<le> A3 ! t" if "s \<le> i" "i < t" for i using lo2 [OF that] out that by simp
        show "A3 ! t \<le> A3 ! i" if "t < i" "i \<le> e" for i
          using rearr_bound_above [OF r3 te \<open>e < length A2\<close> hi2 that] by simp
      qed
      ultimately show ?thesis by blast
    qed
  qed
qed

lemma sorted_slice_sorted:
  assumes "sorted_slice s e A" and "e < length A"
  shows "sorted (drop s (take (Suc e) A))"
  using assms by (auto simp: sorted_slice_def sorted_iff_nth_mono)

lemma quicksort_past_end:
  assumes "s < length A" and "length A < 4294967296"
  shows "quicksort rand A s (length A) k = None"
proof -
  have "swap A p (length A) = None" for p by (simp add: swap_def)
  then have "partition rand A s (length A) k = None" by (simp add: partition_def Let_def)
  with assms show ?thesis by (subst quicksort.simps) simp
qed

section \<open>Properties\<close>

text \<open>C8: \<open>quicksort\<close> on an array of whole numbers that \<open>unsigned\<close> can hold, with any sequence of
  random numbers: it returns, within the bounds of the array; the slice from \<open>start\<close> to \<open>end\<close>
  (both included) is sorted, everything else is unchanged, and no element is lost.\<close>

theorem quicksort_sorts:
  assumes "list_all uint_double A" and "end < length A" and "end < 4294967296"
  shows "\<exists>A' k'. quicksort rand A start end k = Some (A', k') \<and> sorted (drop start (take (Suc end) A')) \<and>
    mset A' = mset A \<and> take start A' = take start A \<and> drop (Suc end) A' = drop (Suc end) A"
proof -
  obtain A' k' where q: "quicksort rand A start end k = Some (A', k')" and r: "rearr start end A A'"
    and ss: "sorted_slice start end A'"
    using quicksort_correct [OF assms] by blast
  have len: "length A' = length A" using r by (rule rearr_length)
  have "take start A' = take start A" "drop (Suc end) A' = drop (Suc end) A"
    using r len by (auto intro!: nth_equalityI simp: rearr_def)
  moreover have "sorted (drop start (take (Suc end) A'))"
    using ss assms(2) len by (simp add: sorted_slice_sorted)
  ultimately show ?thesis using q r by (auto simp: rearr_def)
qed

theorem quicksort_sorts_witness:
  "\<exists>A' k'. quicksort (\<lambda>k. 5) [3, 1, 2, 0] 0 2 7 = Some (A', k') \<and> sorted (take 3 A') \<and> drop 3 A' = [0]"
  using quicksort_sorts [of "[3, 1, 2, 0]" 2 "\<lambda>k. 5" 0 7] by (auto simp: uint_double_def numeral_3_eq_3)

text \<open>\<open>swap\<close> exchanges the two elements, as its comment says, exactly when the first is a whole
  number in the range of \<open>unsigned\<close>: its temporary is an \<open>unsigned\<close>, not a \<open>double\<close>.\<close>

lemma swap_exchanges_iff:
  assumes "a < length A" and "b < length A"
  shows "swap A a b = Some (A[a := A ! b, b := A ! a]) \<longleftrightarrow> uint_double (A ! a)"
proof -
  have inj: "A[a := A ! b, b := x] = A[a := A ! b, b := y] \<longleftrightarrow> x = y" for x y
    using assms(2) by (metis length_list_update nth_list_update_eq)
  show ?thesis
    using assms d2u_exact [of "A ! a"] by (auto simp: swap_def inj split: option.splits)
qed

lemma verify_loop_sorted:
  "sorted A \<Longrightarrow> bound < length A \<Longrightarrow> verify_loop A index bound = Some None"
proof (induction A index bound rule: verify_loop.induct)
  case (1 A index bound)
  have "A ! index \<le> A ! (index + 1)" if "index + 1 < length A"
    using 1(2) that by (simp add: sorted_nth_mono)
  then show ?case using 1 by (subst verify_loop.simps) auto
qed

text \<open>The array and one element behind it, sorted together.\<close>

lemma sort_with_one_behind:
  assumes "\<And>k. rand k < 4294967296" and "uint_double g" and "n < 4294967296"
  defines "A \<equiv> map (\<lambda>index. of_nat (rand index) :: rat) [0..<n]"
  shows "\<exists>B m k. quicksort rand (A @ [g]) 0 n n = Some (B @ [m], k) \<and> sorted (B @ [m]) \<and> length B = n \<and>
    mset (B @ [m]) = mset (A @ [g])"
proof -
  have "uint_double (of_nat (rand k))" for k using assms(1) [of k] by (simp add: uint_double_def)
  then have "list_all uint_double (A @ [g])" using assms(2) by (simp add: A_def list_all_iff)
  from quicksort_correct [OF this, of n rand 0 n] assms(3) obtain C k where q: "quicksort rand (A @ [g]) 0 n n = Some (C, k)"
    and r: "rearr 0 n (A @ [g]) C" and ss: "sorted_slice 0 n C" by (auto simp: A_def)
  have len: "length C = Suc n" using rearr_length [OF r] by (simp add: A_def)
  then obtain B m where C: "C = B @ [m]" and B: "length B = n" by (metis length_append_singleton length_Suc_conv_rev nat.inject)
  have "sorted (drop 0 (take (Suc n) C))" by (rule sorted_slice_sorted) (use ss len in simp_all)
  then have "sorted C" using len by simp
  moreover have "mset C = mset (A @ [g])" using r by (simp add: rearr_def)
  ultimately show ?thesis using q C B by blast
qed

text \<open>C40: \<open>main\<close> passes the number of elements, not the last index, as \<open>end\<close>. For every array size except
  0, and whatever the random numbers are, the sort accesses the element behind the array. Where
  that memory can be accessed and holds a whole number, the array ends up sorted and passes the check of
  \<open>VERIFY_CORRECT\<close>, but with the smallest elements of both: the largest one, with it every record of
  what was lost, is behind the array. That is, where the array could be allocated and its size did not
  wrap around; otherwise it is left at once. Size 0 faults in the check, whose bound wraps around.\<close>

theorem sort_main_out_of_bounds:
  assumes "length argv = 2" and "\<And>k. rand k < 4294967296" and "uint_double g"
    and "n = nat (wrapu32 (atoi (argv ! 1)))"
  shows "(sort_main w ok verify [] rand argv = Faults \<longleftrightarrow> n \<noteq> 0 \<or> verify) \<and>
    (n \<noteq> 0 \<longrightarrow> \<not> (8 * n < 2 ^ w \<and> ok (8 * n)) \<longrightarrow> sort_main w ok verify [g] rand argv = Faults) \<and>
    (n \<noteq> 0 \<longrightarrow> 8 * n < 2 ^ w \<longrightarrow> ok (8 * n) \<longrightarrow> (\<exists>B m. sort_main w ok verify [g] rand argv = Sorted B \<and> sorted B \<and> length B = n \<and>
      list_all (\<lambda>x. x \<le> m) B \<and> mset B + {#m#} = mset (map (\<lambda>index. of_nat (rand index)) [0..<n]) + {#g#}))"
proof -
  let ?A = "map (\<lambda>index. of_nat (rand index) :: rat) [0..<n]"
  have n: "n < 4294967296" using wrapu32_range [of "atoi (argv ! 1)"] assms(4) by linarith
  have w: "nat (wrapu32 (int n - 1)) = (if n = 0 then 4294967295 else n - 1)"
    using n by (auto simp: wrapu32_id wrapu32_neg)
  have main: "sort_main w ok verify behind rand argv =
     (if mem_block w ok 8 n < n then Faults else case quicksort rand (?A @ behind) 0 n n of None \<Rightarrow> Faults
      | Some (A', k) \<Rightarrow>
          if verify then
            (case verify_loop A' 0 (if n = 0 then 4294967295 else n - 1) of
               None \<Rightarrow> Faults | Some (Some index) \<Rightarrow> Aborts index | Some None \<Rightarrow> Sorted (take n A'))
          else Sorted (take n A'))" for behind
    unfolding w [symmetric] sort_main_def Let_def assms(4) [symmetric] using assms(1) by simp
  have past: "quicksort rand ?A 0 n n = None" if "n \<noteq> 0"
    using quicksort_past_end [of 0 ?A rand n] that n by simp
  have zero: "quicksort rand [] 0 0 0 = Some ([], 0)" by (subst quicksort.simps) simp
  have "verify_loop [] 0 4294967295 = None" by (subst verify_loop.simps) simp
  then have "sort_main w ok verify [] rand argv = Faults \<longleftrightarrow> n \<noteq> 0 \<or> verify"
    using main [of "[]"] past zero by (cases "n = 0") simp_all
  moreover have "sort_main w ok verify [g] rand argv = Faults" if "n \<noteq> 0" "\<not> (8 * n < 2 ^ w \<and> ok (8 * n))"
  proof -
    have "mem_block w ok 8 n < n" using that mem_block_full [of 8 n w ok] by linarith
    then show ?thesis by (simp add: main)
  qed
  moreover have "\<exists>B m. sort_main w ok verify [g] rand argv = Sorted B \<and> sorted B \<and> length B = n \<and>
      list_all (\<lambda>x. x \<le> m) B \<and> mset B + {#m#} = mset ?A + {#g#}" if "n \<noteq> 0" "8 * n < 2 ^ w" "ok (8 * n)"
  proof -
    obtain B m k where q: "quicksort rand (?A @ [g]) 0 n n = Some (B @ [m], k)" and so: "sorted (B @ [m])"
      and B: "length B = n" "mset (B @ [m]) = mset (?A @ [g])"
      using sort_with_one_behind [where rand = rand, OF assms(2,3) n] by blast
    have "verify_loop (B @ [m]) 0 (n - 1) = Some None" using so B(1) by (intro verify_loop_sorted) simp_all
    moreover have "n \<le> mem_block w ok 8 n" using that by (simp add: mem_block_full)
    ultimately have "sort_main w ok verify [g] rand argv = Sorted B"
      using main [of "[g]"] q B(1) that by (simp add: not_less [symmetric])
    then show ?thesis using so B by (auto simp: sorted_append list_all_iff)
  qed
  ultimately show ?thesis by blast
qed

theorem sort_main_out_of_bounds_witness:
  "sort_main 32 (\<lambda>b. b < 1000) False [] (\<lambda>k. 3 * (k mod 9)) [''sort'', ''10''] = Faults \<and>
   (\<exists>B. sort_main 32 (\<lambda>b. b < 1000) True [0] (\<lambda>k. 3 * (k mod 9)) [''sort'', ''10''] = Sorted B \<and> sorted B)"
proof -
  let ?rand = "\<lambda>k :: nat. 3 * (k mod 9)"
  have a: "nat (wrapu32 (atoi ''10'')) = 10" by code_simp
  have r: "?rand k < 4294967296" for k
  proof -
    have "k mod 9 < 9" by simp
    then show ?thesis by linarith
  qed
  have g: "uint_double 0" by (simp add: uint_double_def)
  have l: "length [''sort'', ''10''] = 2" by simp
  have n: "10 = nat (wrapu32 (atoi ([''sort'', ''10''] ! 1)))" using a by simp
  show ?thesis
    using sort_main_out_of_bounds [where rand = ?rand and verify = False and ok = "\<lambda>b. b < 1000" and w = 32, OF l r g n]
      sort_main_out_of_bounds [where rand = ?rand and verify = True and ok = "\<lambda>b. b < 1000" and w = 32, OF l r g n] by auto
qed

end
