(* ===== verification/DenseMM.thy ===== *)
theory DenseMM
  imports Prelude CStrings
begin

text \<open>
  The dense matrix multiplications: \<open>dense_mm.c\<close> (row by row), \<open>dense_mm_sig.c\<close> of studio12 (the
  same loops, interrupted by a signal handler that counts) and \<open>parallel_dense_mm.c\<close> (column by
  column, the columns shared out among OpenMP threads). The floating-point unit is a parameter,
  any four operations: nothing below relies on laws of addition or multiplication. \<open>unsigned\<close>
  values are natural numbers with the wrap-around written out.
\<close>

section \<open>The programs\<close>

record 'd fpu =
  fadd :: "'d \<Rightarrow> 'd \<Rightarrow> 'd"
  fmul :: "'d \<Rightarrow> 'd \<Rightarrow> 'd"
  fzero :: "'d"
  fnat :: "nat \<Rightarrow> 'd"

definition sqrt_of_UINT32_MAX :: nat where
  "sqrt_of_UINT32_MAX = 65536"

text \<open>The size from the command line, or the exit code.\<close>

definition mm_args :: "string list \<Rightarrow> int + nat" where
  "mm_args argv =
     (if length argv \<noteq> 2 then Inl (- 1)
      else
        let matrix_size = nat (wrapu32 (atoi (argv ! 1))) in
        if matrix_size > sqrt_of_UINT32_MAX then Inl (- 1) else Inr matrix_size)"

definition squared_size :: "nat \<Rightarrow> nat" where
  "squared_size matrix_size = (matrix_size * matrix_size) mod 4294967296"

text \<open>
  The memory a process gets: the width of \<open>size_t\<close> (32 on the Raspberry Pi), which requests of its
  \<open>j\<close>-th \<open>malloc\<close> succeed, and what the block holds before anything is stored in it. Nobody looks at the
  results of \<open>malloc\<close>.
\<close>

record 'd heap =
  size_t_width :: nat
  grants :: "nat \<Rightarrow> nat \<Rightarrow> bool"
  before :: "nat \<Rightarrow> nat \<Rightarrow> 'd"

definition malloc_doubles :: "'d heap \<Rightarrow> nat \<Rightarrow> nat \<Rightarrow> 'd list" where
  "malloc_doubles h j k = map (before h j) [0..<mem_block (size_t_width h) (grants h j) 8 k]"

text \<open>
  The arrays \<open>A\<close>, \<open>B\<close>, \<open>C\<close>, and \<open>D\<close> under \<open>VERIFY_PARALLEL\<close>; the loop that fills them from the sequence of
  random numbers. A store outside an array is \<open>None\<close>.
\<close>

type_synonym 'd arrays = "'d list \<times> 'd list \<times> 'd list \<times> 'd list"

definition mm_fill :: "'d fpu \<Rightarrow> (nat \<Rightarrow> nat) \<Rightarrow> bool \<Rightarrow> nat \<Rightarrow> 'd arrays \<Rightarrow> 'd arrays option" where
  "mm_fill u rand verify_parallel index arrays =
     (case arrays of (A, B, C, D) \<Rightarrow>
        if index < length A \<and> index < length B \<and> index < length C \<and> (verify_parallel \<longrightarrow> index < length D)
        then Some (A[index := fnat u (rand (2 * index))], B[index := fnat u (rand (2 * index + 1))],
          C[index := fzero u], if verify_parallel then D[index := fzero u] else D)
        else None)"

definition mm_generate :: "'d fpu \<Rightarrow> 'd heap \<Rightarrow> (nat \<Rightarrow> nat) \<Rightarrow> bool \<Rightarrow> nat \<Rightarrow> 'd arrays option" where
  "mm_generate u h rand verify_parallel n =
     for_up 0 (squared_size n) (mm_fill u rand verify_parallel)
       (malloc_doubles h 0 (squared_size n), malloc_doubles h 1 (squared_size n), malloc_doubles h 2 (squared_size n),
        if verify_parallel then malloc_doubles h 3 (squared_size n) else [])"

text \<open>\<open>C[row*matrix_size + col] += A[row*matrix_size + index] * B[index*matrix_size + col]\<close>.\<close>

definition mm_at :: "nat \<Rightarrow> nat \<Rightarrow> nat \<Rightarrow> nat" where
  "mm_at n i j = (i * n + j) mod 4294967296"

definition mm_update ::
    "'d fpu \<Rightarrow> nat \<Rightarrow> 'd list \<Rightarrow> 'd list \<Rightarrow> nat \<Rightarrow> nat \<Rightarrow> nat \<Rightarrow> 'd list \<Rightarrow> 'd list option" where
  "mm_update u n A B row col index C =
     (let c = mm_at n row col; a = mm_at n row index; b = mm_at n index col in
      if c < length C \<and> a < length A \<and> b < length B
      then Some (C[c := fadd u (C ! c) (fmul u (A ! a) (B ! b))])
      else None)"

definition mm_rows :: "'d fpu \<Rightarrow> nat \<Rightarrow> 'd list \<Rightarrow> 'd list \<Rightarrow> 'd list \<Rightarrow> 'd list option" where
  "mm_rows u n A B =
     for_up 0 n (\<lambda>row. for_up 0 n (\<lambda>col. for_up 0 n (\<lambda>index. mm_update u n A B row col index)))"

definition dense_mm :: "'d fpu \<Rightarrow> 'd heap \<Rightarrow> (nat \<Rightarrow> nat) \<Rightarrow> string list \<Rightarrow> int + 'd list option" where
  "dense_mm u h rand argv =
     (case mm_args argv of
        Inl e \<Rightarrow> Inl e
      | Inr n \<Rightarrow>
          (case mm_generate u h rand False n of
             None \<Rightarrow> Inr None
           | Some (A, B, C, D) \<Rightarrow> Inr (mm_rows u n A B C)))"

text \<open>
  The parallel loop: \<open>done_col col\<close> updates of column \<open>col\<close> are done; the thread that works on a
  column does the next one, row by row. OpenMP may interleave the columns in any way, and a
  thread with no work left waits.
\<close>

record 'd mm_par =
  done_col :: "nat \<Rightarrow> nat"
  mat :: "'d list"

definition mm_par_step ::
    "'d fpu \<Rightarrow> nat \<Rightarrow> 'd list \<Rightarrow> 'd list \<Rightarrow> nat \<Rightarrow> 'd mm_par \<Rightarrow> 'd mm_par option" where
  "mm_par_step u n A B col s =
     (let p = done_col s col in
      if p < n * n then
        (case mm_update u n A B (p div n) col (p mod n) (mat s) of
           None \<Rightarrow> None
         | Some C \<Rightarrow> Some \<lparr>done_col = (done_col s)(col := Suc p), mat = C\<rparr>)
      else Some s)"

definition mm_par ::
    "'d fpu \<Rightarrow> nat \<Rightarrow> 'd list \<Rightarrow> 'd list \<Rightarrow> nat list \<Rightarrow> 'd list \<Rightarrow> 'd mm_par option" where
  "mm_par u n A B schedule C = each (mm_par_step u n A B) schedule \<lparr>done_col = \<lambda>_. 0, mat = C\<rparr>"

text \<open>
  The check under \<open>VERIFY_PARALLEL\<close>: the serial loops, column by column, into \<open>D\<close>, and \<open>assert\<close>. Sums of
  products of random numbers are never NaN, so that \<open>==\<close> is equality.
\<close>

definition mm_cols :: "'d fpu \<Rightarrow> nat \<Rightarrow> 'd list \<Rightarrow> 'd list \<Rightarrow> 'd list \<Rightarrow> 'd list option" where
  "mm_cols u n A B =
     for_up 0 n (\<lambda>col. for_up 0 n (\<lambda>row. for_up 0 n (\<lambda>index. mm_update u n A B row col index)))"

definition mm_verify :: "nat \<Rightarrow> 'd list \<Rightarrow> 'd list \<Rightarrow> bool" where
  "mm_verify n C D = list_all (\<lambda>index. C ! index = D ! index) [0..<squared_size n]"

text \<open>
  \<open>main\<close>, built with \<open>VERIFY_PARALLEL\<close> or without: \<open>C\<close> and whether the end is reached, that is,
  whether no assertion stops the program.
\<close>

definition parallel_dense_mm ::
    "'d fpu \<Rightarrow> 'd heap \<Rightarrow> (nat \<Rightarrow> nat) \<Rightarrow> bool \<Rightarrow> (nat \<Rightarrow> nat list) \<Rightarrow> string list \<Rightarrow>
     int + ('d list \<times> bool) option" where
  "parallel_dense_mm u h rand verify_parallel schedule argv =
     (case mm_args argv of
        Inl e \<Rightarrow> Inl e
      | Inr n \<Rightarrow>
          (case mm_generate u h rand verify_parallel n of
             None \<Rightarrow> Inr None
           | Some (A, B, C, D) \<Rightarrow>
               (case mm_par u n A B (schedule n) C of
                  None \<Rightarrow> Inr None
                | Some s \<Rightarrow>
                    if verify_parallel then
                      (case mm_cols u n A B D of
                         None \<Rightarrow> Inr None
                       | Some D' \<Rightarrow> Inr (Some (mat s, mm_verify n (mat s) D')))
                    else Inr (Some (mat s, True)))))"

text \<open>
  studio12: the loops of \<open>dense_mm_sig.c\<close>, with the number of SIGINT deliveries before each update
  given by \<open>sigs\<close>; the handler \<open>work\<close> increments \<open>gs32total\<close>.
\<close>

definition sig_work :: "int \<Rightarrow> int" where
  "sig_work gs32total = wrap32 (gs32total + 1)"

definition mm_sig_update ::
    "'d fpu \<Rightarrow> nat \<Rightarrow> 'd list \<Rightarrow> 'd list \<Rightarrow> (nat \<Rightarrow> nat \<Rightarrow> nat \<Rightarrow> nat) \<Rightarrow> nat \<Rightarrow> nat \<Rightarrow> nat \<Rightarrow>
     int \<times> 'd list \<Rightarrow> (int \<times> 'd list) option" where
  "mm_sig_update u n A B sigs row col index s =
     (case mm_update u n A B row col index (snd s) of
        None \<Rightarrow> None
      | Some C \<Rightarrow> Some ((sig_work ^^ sigs row col index) (fst s), C))"

definition mm_sig ::
    "'d fpu \<Rightarrow> nat \<Rightarrow> 'd list \<Rightarrow> 'd list \<Rightarrow> (nat \<Rightarrow> nat \<Rightarrow> nat \<Rightarrow> nat) \<Rightarrow> int \<times> 'd list \<Rightarrow>
     (int \<times> 'd list) option" where
  "mm_sig u n A B sigs =
     for_up 0 n (\<lambda>row. for_up 0 n (\<lambda>col. for_up 0 n (\<lambda>index. mm_sig_update u n A B sigs row col index)))"

text \<open>Its \<open>main\<close>: the handler is installed before the arguments are looked at.\<close>

definition dense_mm_sig ::
    "'d fpu \<Rightarrow> 'd heap \<Rightarrow> bool \<Rightarrow> (nat \<Rightarrow> nat) \<Rightarrow> (nat \<Rightarrow> nat \<Rightarrow> nat \<Rightarrow> nat) \<Rightarrow> string list \<Rightarrow>
     int + (int \<times> 'd list) option" where
  "dense_mm_sig u h sigaction_ok rand sigs argv =
     (if \<not> sigaction_ok then Inl 1
      else
        case mm_args argv of
          Inl e \<Rightarrow> Inl e
        | Inr n \<Rightarrow>
            (case mm_generate u h rand False n of
               None \<Rightarrow> Inr None
             | Some (A, B, C, D) \<Rightarrow> Inr (mm_sig u n A B sigs (0, C))))"

section \<open>Filling the arrays\<close>

text \<open>The generated matrices, and when there is room for \<open>k\<close> of them.\<close>

definition rand_matrix :: "'d fpu \<Rightarrow> (nat \<Rightarrow> nat) \<Rightarrow> nat \<Rightarrow> nat \<Rightarrow> 'd list" where
  "rand_matrix u rand j m = map (\<lambda>index. fnat u (rand (2 * index + j))) [0..<m]"

definition mm_fits :: "'d heap \<Rightarrow> nat \<Rightarrow> nat \<Rightarrow> bool" where
  "mm_fits h k m \<longleftrightarrow> list_all (\<lambda>j. m \<le> mem_block (size_t_width h) (grants h j) 8 m) [0..<k]"

lemma upt_3: "[0..<3] = [0, 1, 2 :: nat]" and upt_4: "[0..<4] = [0, 1, 2, 3 :: nat]"
  by code_simp+

lemma length_malloc_doubles [simp]:
  "length (malloc_doubles h j k) = mem_block (size_t_width h) (grants h j) 8 k"
  by (simp add: malloc_doubles_def)

text \<open>The first \<open>k\<close> elements have been stored.\<close>

definition stored :: "(nat \<Rightarrow> 'd) \<Rightarrow> nat \<Rightarrow> 'd list \<Rightarrow> 'd list" where
  "stored f k xs = map f [0..<k] @ drop k xs"

lemma stored_simps [simp]:
  "stored f 0 xs = xs" "length xs \<le> k \<Longrightarrow> stored f k xs = map f [0..<k]"
  "k \<le> length xs \<Longrightarrow> length (stored f k xs) = length xs"
  by (simp_all add: stored_def)

lemma stored_Suc: "k < length xs \<Longrightarrow> (stored f k xs)[k := f k] = stored f (Suc k) xs"
  by (rule nth_equalityI) (auto simp: stored_def nth_append nth_list_update less_Suc_eq)

lemma mm_fill_each:
  assumes "m \<le> length A" and "m \<le> length B" and "m \<le> length C" and "verify \<Longrightarrow> m \<le> length D"
  shows "each (mm_fill u rand verify) [0..<m] (A, B, C, D) =
    Some (stored (\<lambda>i. fnat u (rand (2 * i))) m A, stored (\<lambda>i. fnat u (rand (2 * i + 1))) m B,
      stored (\<lambda>i. fzero u) m C, if verify then stored (\<lambda>i. fzero u) m D else D)"
proof -
  let ?I = "\<lambda>k t. t = (stored (\<lambda>i. fnat u (rand (2 * i))) k A, stored (\<lambda>i. fnat u (rand (2 * i + 1))) k B,
      stored (\<lambda>i. fzero u) k C, if verify then stored (\<lambda>i. fzero u) k D else D)"
  have "\<exists>t. each (mm_fill u rand verify) [0..<m] (A, B, C, D) = Some t \<and> ?I (length [0..<m]) t"
  proof (rule each_invariant [where I = ?I])
    fix k t assume k: "k < length [0..<m]" and t: "?I k t"
    have "mm_fill u rand verify k t = Some (stored (\<lambda>i. fnat u (rand (2 * i))) (Suc k) A, stored (\<lambda>i. fnat u (rand (2 * i + 1))) (Suc k) B,
      stored (\<lambda>i. fzero u) (Suc k) C, if verify then stored (\<lambda>i. fzero u) (Suc k) D else D)"
      using k assms unfolding t by (auto simp: mm_fill_def stored_Suc [symmetric])
    then show "\<exists>u'. mm_fill u rand verify ([0..<m] ! k) t = Some u' \<and> ?I (Suc k) u'" using k by simp
  qed simp
  then show ?thesis by simp
qed

lemma mm_fill_lengths:
  "mm_fill u rand verify x (A, B, C, D) = Some (A', B', C', D') \<Longrightarrow>
   length A' = length A \<and> length B' = length B \<and> length C' = length C \<and> length D' = length D"
  by (auto simp: mm_fill_def split: if_splits)

text \<open>An array that is too short is left at its end, whatever the memory holds.\<close>

lemma mm_fill_short:
  assumes "\<not> (m \<le> length A \<and> m \<le> length B \<and> m \<le> length C \<and> (verify \<longrightarrow> m \<le> length D))"
  shows "each (mm_fill u rand verify) [0..<m] (A, B, C, D) = None"
proof -
  let ?I = "\<lambda>(A', B', C', D'). length A' = length A \<and> length B' = length B \<and> length C' = length C \<and> length D' = length D"
  obtain k where k: "k < m" "\<not> (k < length A \<and> k < length B \<and> k < length C \<and> (verify \<longrightarrow> k < length D))"
    using assms by (meson not_le order.refl less_irrefl)
  show ?thesis
  proof (rule each_None [where I = ?I and x = k])
    show "?I (A, B, C, D)" by simp
    show "k \<in> set [0..<m]" using k(1) by simp
    show "mm_fill u rand verify k t = None" if "?I t" for t
      using k(2) that by (auto simp: mm_fill_def split: prod.splits)
    show "?I t'" if "mm_fill u rand verify x t = Some t'" "?I t" for x t t'
      using that mm_fill_lengths [of u rand verify x] by (cases t; cases t') fastforce
  qed
qed

lemma mm_generate_eq:
  assumes "m = squared_size n"
  shows "mm_generate u h rand verify n =
    (if mm_fits h (if verify then 4 else 3) m
     then Some (rand_matrix u rand 0 m, rand_matrix u rand 1 m, replicate m (fzero u),
       if verify then replicate m (fzero u) else [])
     else None)"
proof (cases "mm_fits h (if verify then 4 else 3) m")
  case True
  let ?blk = "\<lambda>j. mem_block (size_t_width h) (grants h j) 8 m"
  have full: "m \<le> ?blk 0" "m \<le> ?blk 1" "m \<le> ?blk 2" "verify \<Longrightarrow> m \<le> ?blk 3"
    using True by (auto simp: mm_fits_def upt_3 upt_4 split: if_splits)
  have le: "length (malloc_doubles h j m) \<le> m" for j by (simp add: mem_block_le)
  have "map (\<lambda>i. fzero u) [0..<m] = replicate m (fzero u)" by (simp add: map_replicate_const)
  then show ?thesis
    using True full le mm_fill_each [of m "malloc_doubles h 0 m" "malloc_doubles h 1 m" "malloc_doubles h 2 m" verify
        "if verify then malloc_doubles h 3 m else []" u rand]
    by (auto simp: mm_generate_def for_up_each assms [symmetric] rand_matrix_def)
next
  case False
  then have "\<not> (m \<le> length (malloc_doubles h 0 m) \<and> m \<le> length (malloc_doubles h 1 m) \<and> m \<le> length (malloc_doubles h 2 m) \<and>
      (verify \<longrightarrow> m \<le> length (if verify then malloc_doubles h 3 m else [])))"
    by (auto simp: mm_fits_def upt_3 upt_4 split: if_splits)
  from mm_fill_short [OF this] show ?thesis using False
    by (cases verify) (simp_all add: mm_generate_def for_up_each assms [symmetric])
qed

section \<open>Updates of one cell\<close>

text \<open>The sum that cell \<open>(row, col)\<close> holds after its first \<open>k\<close> updates.\<close>

definition mm_sum :: "'d fpu \<Rightarrow> nat \<Rightarrow> 'd list \<Rightarrow> 'd list \<Rightarrow> 'd \<Rightarrow> nat \<Rightarrow> nat \<Rightarrow> nat list \<Rightarrow> 'd" where
  "mm_sum u n A B x r c is =
     foldl (\<lambda>x i. fadd u x (fmul u (A ! (r * n + i)) (B ! (i * n + c)))) x is"

lemma mm_lt: "i < n \<Longrightarrow> j < n \<Longrightarrow> i * n + j < n * n" for i j n :: nat
proof -
  assume "i < n" "j < n"
  then have "i * n + j < (i + 1) * n" by simp
  also have "\<dots> \<le> n * n" using \<open>i < n\<close> by (intro mult_le_mono1) simp
  finally show ?thesis .
qed

lemma mm_inj: "j < n \<Longrightarrow> j' < n \<Longrightarrow> i * n + j = i' * n + j' \<longleftrightarrow> i = i' \<and> j = j'" for n :: nat
  by (metis add.commute div_mult_self3 div_less mod_mult_self3 mod_less add_0 not_less0)

lemma mm_at_small: "n * n < 4294967296 \<Longrightarrow> i < n \<Longrightarrow> j < n \<Longrightarrow> mm_at n i j = i * n + j"
  using mm_lt [of i n j] by (simp add: mm_at_def)

lemma mm_update_Some:
  assumes "n * n < 4294967296" "length A = n * n" "length B = n * n" "length C = n * n"
    and "r < n" "c < n" "i < n"
  shows "mm_update u n A B r c i C =
    Some (C[r * n + c := fadd u (C ! (r * n + c)) (fmul u (A ! (r * n + i)) (B ! (i * n + c)))])"
  using assms mm_lt by (simp add: mm_update_def mm_at_small Let_def)

text \<open>A sequence of updates acts on each cell through the indices of the updates of that cell.\<close>

lemma mm_each_cells:
  assumes n: "n * n < 4294967296" "length A = n * n" "length B = n * n"
    and "length C = n * n" and "list_all (\<lambda>(r, c, i). r < n \<and> c < n \<and> i < n) us"
  shows "\<exists>C'. each (\<lambda>(r, c, i). mm_update u n A B r c i) us C = Some C' \<and> length C' = n * n \<and>
    (\<forall>r c. r < n \<longrightarrow> c < n \<longrightarrow>
      C' ! (r * n + c) = mm_sum u n A B (C ! (r * n + c)) r c [i. (r', c', i) \<leftarrow> us, r' = r, c' = c])"
  using assms(4,5)
proof (induction us arbitrary: C)
  case Nil
  then show ?case by (simp add: mm_sum_def)
next
  case (Cons x us)
  obtain r c i where x: "x = (r, c, i)" by (cases x) auto
  with Cons.prems have b: "r < n" "c < n" "i < n" and us: "list_all (\<lambda>(r, c, i). r < n \<and> c < n \<and> i < n) us"
    by simp_all
  let ?C = "C[r * n + c := fadd u (C ! (r * n + c)) (fmul u (A ! (r * n + i)) (B ! (i * n + c)))]"
  have up: "mm_update u n A B r c i C = Some ?C" using mm_update_Some n Cons.prems(1) b by blast
  from Cons.IH [of ?C] Cons.prems(1) us obtain C' where
    C': "each (\<lambda>(r, c, i). mm_update u n A B r c i) us ?C = Some C'" "length C' = n * n"
    and cell: "\<And>r c. r < n \<Longrightarrow> c < n \<Longrightarrow> C' ! (r * n + c) =
      mm_sum u n A B (?C ! (r * n + c)) r c [i. (r', c', i) \<leftarrow> us, r' = r, c' = c]"
    by auto
  have "C' ! (r1 * n + c1) = mm_sum u n A B (C ! (r1 * n + c1)) r1 c1 [i. (r', c', i) \<leftarrow> x # us, r' = r1, c' = c1]"
    if "r1 < n" "c1 < n" for r1 c1
    using cell [OF that] mm_lt [OF b(1,2)] Cons.prems(1) mm_inj [OF b(2) that(2), of r r1]
    by (auto simp: x mm_sum_def nth_list_update)
  then show ?case using C' up by (simp add: x)
qed

section \<open>The loops as sequences of updates\<close>

lemma concat_upt_one: "a < n \<Longrightarrow> concat (map (\<lambda>x. if x = a then ys else []) [0..<n]) = ys"
proof (induction n)
  case (Suc n)
  have "concat (map (\<lambda>x. if x = a then ys else []) [0..<n]) = []" if "a = n"
    using that by (simp add: concat_eq_Nil_conv)
  with Suc show ?case by (cases "a = n") auto
qed simp

lemma concat_map_concat: "concat (map f (concat xss)) = concat (map (\<lambda>xs. concat (map f xs)) xss)"
  by (induction xss) auto

lemma concat_map_if: "concat (map (\<lambda>x. if P then f x else []) xs) = (if P then concat (map f xs) else [])"
  by (induction xs) auto

definition row_order :: "nat \<Rightarrow> (nat \<times> nat \<times> nat) list" where
  "row_order n = concat (map (\<lambda>r. concat (map (\<lambda>c. map (\<lambda>i. (r, c, i)) [0..<n]) [0..<n])) [0..<n])"

definition col_order :: "nat \<Rightarrow> (nat \<times> nat \<times> nat) list" where
  "col_order n = concat (map (\<lambda>c. concat (map (\<lambda>r. map (\<lambda>i. (r, c, i)) [0..<n]) [0..<n])) [0..<n])"

lemma mm_rows_each: "mm_rows u n A B C = each (\<lambda>(r, c, i). mm_update u n A B r c i) (row_order n) C"
  unfolding mm_rows_def row_order_def for_up_each
  by (simp add: each_nested_fun [symmetric] each_map)

lemma mm_cols_each: "mm_cols u n A B C = each (\<lambda>(r, c, i). mm_update u n A B r c i) (col_order n) C"
  unfolding mm_cols_def col_order_def for_up_each
  by (simp add: each_nested_fun [symmetric] each_map)

lemma row_order_cell:
  assumes "r < n" and "c < n"
  shows "[i. (r', c', i) \<leftarrow> row_order n, r' = r, c' = c] = [0..<n]"
  using assms
  by (simp add: row_order_def concat_map_concat comp_def concat_map_if if_distrib [of concat] concat_upt_one
      cong: if_cong)

lemma col_order_cell:
  assumes "r < n" and "c < n"
  shows "[i. (r', c', i) \<leftarrow> col_order n, r' = r, c' = c] = [0..<n]"
  using assms
  by (simp add: col_order_def concat_map_concat comp_def concat_map_if if_distrib [of concat] concat_upt_one
      cong: if_cong)

section \<open>The product\<close>

text \<open>
  The reference: entry \<open>(r, c)\<close> is the sum of the products in the order of the index, starting
  from 0. It is executable, for any floating-point unit.
\<close>

definition mm_ref :: "'d fpu \<Rightarrow> nat \<Rightarrow> 'd list \<Rightarrow> 'd list \<Rightarrow> 'd list" where
  "mm_ref u n A B = map (\<lambda>k. mm_sum u n A B (fzero u) (k div n) (k mod n) [0..<n]) [0..<n * n]"

lemma mm_ref_eqI:
  assumes "length C = n * n"
    and cells: "\<And>r c. r < n \<Longrightarrow> c < n \<Longrightarrow> C ! (r * n + c) = mm_sum u n A B (fzero u) r c [0..<n]"
  shows "C = mm_ref u n A B"
proof (rule nth_equalityI)
  show "length C = length (mm_ref u n A B)" using assms(1) by (simp add: mm_ref_def)
  fix k assume "k < length C"
  then have k: "k < n * n" using assms(1) by simp
  then have "0 < n" by (cases n) auto
  with k have "k div n < n" "k mod n < n" by (simp_all add: less_mult_imp_div_less)
  from cells [OF this] show "C ! k = mm_ref u n A B ! k" using k by (simp add: mm_ref_def)
qed

lemma mm_each_ref:
  assumes "n * n < 4294967296" "length A = n * n" "length B = n * n"
    and "list_all (\<lambda>(r, c, i). r < n \<and> c < n \<and> i < n) us"
    and "\<And>r c. r < n \<Longrightarrow> c < n \<Longrightarrow> [i. (r', c', i) \<leftarrow> us, r' = r, c' = c] = [0..<n]"
  shows "each (\<lambda>(r, c, i). mm_update u n A B r c i) us (replicate (n * n) (fzero u)) = Some (mm_ref u n A B)"
proof -
  obtain C where "each (\<lambda>(r, c, i). mm_update u n A B r c i) us (replicate (n * n) (fzero u)) = Some C"
    and "length C = n * n" and "\<And>r c. r < n \<Longrightarrow> c < n \<Longrightarrow> C ! (r * n + c) =
      mm_sum u n A B (replicate (n * n) (fzero u) ! (r * n + c)) r c [i. (r', c', i) \<leftarrow> us, r' = r, c' = c]"
    using mm_each_cells [OF assms(1-3) _ assms(4), of "replicate (n * n) (fzero u)" u] by auto
  moreover from this(2,3) have "C = mm_ref u n A B"
    by (intro mm_ref_eqI) (simp_all only: assms(5) mm_lt nth_replicate)
  ultimately show ?thesis by simp
qed

lemma mm_rows_ref:
  assumes "n * n < 4294967296" "length A = n * n" "length B = n * n"
  shows "mm_rows u n A B (replicate (n * n) (fzero u)) = Some (mm_ref u n A B)"
  unfolding mm_rows_each
  by (rule mm_each_ref [OF assms]) (simp add: row_order_def list_all_iff, rule row_order_cell)

lemma mm_cols_ref:
  assumes "n * n < 4294967296" "length A = n * n" "length B = n * n"
  shows "mm_cols u n A B (replicate (n * n) (fzero u)) = Some (mm_ref u n A B)"
  unfolding mm_cols_each
  by (rule mm_each_ref [OF assms]) (simp add: col_order_def list_all_iff, rule col_order_cell)

section \<open>The parallel loop\<close>

definition mm_par_inv :: "'d fpu \<Rightarrow> nat \<Rightarrow> 'd list \<Rightarrow> 'd list \<Rightarrow> nat list \<Rightarrow> 'd mm_par \<Rightarrow> bool" where
  "mm_par_inv u n A B xs s \<longleftrightarrow> length (mat s) = n * n \<and>
     (\<forall>c. done_col s c = min (n * n) (count_list xs c)) \<and>
     (\<forall>r<n. \<forall>c<n. mat s ! (r * n + c) = mm_sum u n A B (fzero u) r c [0..<min n (done_col s c - r * n)])"

lemma mm_sum_Suc:
  "mm_sum u n A B x r c ([0..<i] @ [i]) =
     fadd u (mm_sum u n A B x r c [0..<i]) (fmul u (A ! (r * n + i)) (B ! (i * n + c)))"
  by (simp add: mm_sum_def)

text \<open>How far row \<open>r\<close> of a column is, before and after update \<open>p\<close> of the column.\<close>

lemma row_progress:
  fixes p n :: nat
  assumes "p < n * n" and "r < n"
  shows "r = p div n \<Longrightarrow> min n (p - r * n) = p mod n \<and> min n (Suc p - r * n) = Suc (p mod n)"
    and "r \<noteq> p div n \<Longrightarrow> min n (Suc p - r * n) = min n (p - r * n)"
proof -
  have n: "0 < n" using assms(2) by simp
  have p: "p = p div n * n + p mod n" "p mod n < n" using n by simp_all
  show "min n (p - r * n) = p mod n \<and> min n (Suc p - r * n) = Suc (p mod n)" if "r = p div n"
  proof -
    have "p - r * n = p mod n" "r * n \<le> p" using that by (simp_all add: minus_div_mult_eq_mod)
    then have "Suc p - r * n = Suc (p mod n)" by (simp add: Suc_diff_le)
    note this \<open>p - r * n = p mod n\<close>
    then show ?thesis using p(2) by simp
  qed
  show "min n (Suc p - r * n) = min n (p - r * n)" if "r \<noteq> p div n"
  proof (cases "r < p div n")
    case True
    then have "(r + 1) * n \<le> p div n * n" by (intro mult_le_mono1) simp
    also have "\<dots> \<le> p" by simp
    finally show ?thesis by (simp add: min_def)
  next
    case False
    then have "(p div n + 1) * n \<le> r * n" using that by (intro mult_le_mono1) simp
    then have "p div n * n + n \<le> r * n" by simp
    then have "Suc p \<le> r * n" using p by linarith
    then show ?thesis by simp
  qed
qed

lemma mm_par_step_inv:
  assumes n: "n * n < 4294967296" "length A = n * n" "length B = n * n"
    and c: "c < n" and inv: "mm_par_inv u n A B xs s"
  shows "\<exists>t. mm_par_step u n A B c s = Some t \<and> mm_par_inv u n A B (xs @ [c]) t"
proof (cases "done_col s c < n * n")
  case False
  then show ?thesis using inv by (auto simp: mm_par_step_def mm_par_inv_def)
next
  case True
  let ?p = "done_col s c"
  define rr ii where "rr = ?p div n" and "ii = ?p mod n"
  have b: "rr < n" "ii < n" using True c by (auto simp: rr_def ii_def less_mult_imp_div_less)
  let ?x = "mat s ! (rr * n + c)"
  let ?C = "(mat s)[rr * n + c := fadd u ?x (fmul u (A ! (rr * n + ii)) (B ! (ii * n + c)))]"
  let ?t = "\<lparr>done_col = (done_col s)(c := Suc ?p), mat = ?C\<rparr>"
  have len: "length (mat s) = n * n" using inv by (simp add: mm_par_inv_def)
  have step: "mm_par_step u n A B c s = Some ?t"
    using True mm_update_Some [OF n len b(1) c b(2)] by (simp add: mm_par_step_def Let_def rr_def ii_def)
  have cell: "mat ?t ! (r1 * n + c1) =
      mm_sum u n A B (fzero u) r1 c1 [0..<min n (done_col ?t c1 - r1 * n)]" if rc: "r1 < n" "c1 < n" for r1 c1
  proof -
    have old: "mat s ! (r1 * n + c1) = mm_sum u n A B (fzero u) r1 c1 [0..<min n (done_col s c1 - r1 * n)]"
      using inv rc by (simp add: mm_par_inv_def)
    consider "c1 \<noteq> c" | "c1 = c" "r1 \<noteq> rr" | "c1 = c" "r1 = rr" by blast
    then show ?thesis
    proof cases
      case 1
      then have "rr * n + c \<noteq> r1 * n + c1" using mm_inj [OF c rc(2)] by simp
      then show ?thesis using old 1 by simp
    next
      case 2
      then have "rr * n + c \<noteq> r1 * n + c1" using mm_inj [OF c rc(2), of rr r1] by simp
      then show ?thesis using old 2 row_progress(2) [OF True rc(1)] by (simp add: rr_def)
    next
      case 3
      have "rr * n + c < length (mat s)" using mm_lt [OF b(1) c] len by simp
      then show ?thesis using old 3 row_progress(1) [OF True rc(1) 3(2) [unfolded rr_def]]
        by (simp add: mm_sum_Suc flip: ii_def)
    qed
  qed
  have "mm_par_inv u n A B (xs @ [c]) ?t"
    unfolding mm_par_inv_def using inv True len cell by (auto simp: mm_par_inv_def)
  with step show ?thesis by blast
qed

lemma mm_par_run:
  assumes n: "n * n < 4294967296" "length A = n * n" "length B = n * n" and "list_all (\<lambda>c. c < n) xs"
  shows "\<exists>t. mm_par u n A B xs (replicate (n * n) (fzero u)) = Some t \<and> mm_par_inv u n A B xs t"
proof -
  let ?I = "\<lambda>k. mm_par_inv u n A B (take k xs)"
  let ?s = "\<lparr>done_col = \<lambda>_. 0, mat = replicate (n * n) (fzero u)\<rparr>"
  have "\<exists>t. each (mm_par_step u n A B) xs ?s = Some t \<and> ?I (length xs) t"
  proof (rule each_invariant [where I = ?I])
    show "?I 0 ?s" using mm_lt by (auto simp: mm_par_inv_def mm_sum_def)
    show "\<exists>v. mm_par_step u n A B (xs ! k) t = Some v \<and> ?I (Suc k) v" if "k < length xs" "?I k t" for k t
      using mm_par_step_inv [OF n _ that(2)] that(1) assms(4) by (simp add: take_Suc_conv_app_nth list_all_length)
  qed
  then show ?thesis by (simp add: mm_par_def)
qed

section \<open>Signals\<close>

lemma sig_work_funpow: "is_int32 t \<Longrightarrow> (sig_work ^^ k) t = wrap32 (t + int k)"
proof (induction k)
  case 0
  then show ?case by (simp add: is_int32_def wrap32_id)
next
  case (Suc k)
  have "sig_work (wrap32 (t + int k)) = wrap32 (t + int k + 1)"
    unfolding sig_work_def by (rule wrap32_wrap32_add)
  with Suc show ?case by (simp add: ac_simps)
qed

lemma mm_sig_each: "mm_sig u n A B sigs s =
    each (\<lambda>(r, c, i). mm_sig_update u n A B sigs r c i) (row_order n) s"
  unfolding mm_sig_def row_order_def for_up_each
  by (simp add: each_nested_fun [symmetric] each_map)

lemma mm_sig_each_pair:
  assumes "each (\<lambda>(r, c, i). mm_update u n A B r c i) us C = Some C'" and "is_int32 t"
  shows "each (\<lambda>(r, c, i). mm_sig_update u n A B sigs r c i) us (t, C) =
    Some (wrap32 (t + int (\<Sum>(r, c, i) \<leftarrow> us. sigs r c i)), C')"
  using assms
proof (induction us arbitrary: C t)
  case Nil
  then show ?case by (simp add: is_int32_def wrap32_id)
next
  case (Cons x us)
  obtain r c i where x: "x = (r, c, i)" by (cases x) auto
  from Cons.prems obtain D where D: "mm_update u n A B r c i C = Some D"
    "each (\<lambda>(r, c, i). mm_update u n A B r c i) us D = Some C'" by (auto simp: x split: option.splits)
  have "is_int32 (wrap32 (t + int (sigs r c i)))" by (rule wrap32_is_int32)
  from Cons.IH [OF D(2) this] D(1) Cons.prems(2) show ?case
    by (simp add: x mm_sig_update_def sig_work_funpow wrap32_wrap32_add algebra_simps)
qed

section \<open>Properties\<close>

lemma mm_small: "z \<le> 65535 \<Longrightarrow> z * z < 4294967296" for z :: nat
  using mult_le_mono [of z 65535 z 65535] by simp

lemma mm_args_eq: "mm_args argv =
  (if length argv \<noteq> 2 then Inl (- 1)
   else let z = atoi (argv ! 1) in if z < 0 \<or> 65536 < z then Inl (- 1) else Inr (nat z))"
proof -
  let ?z = "atoi (argv ! 1)"
  have range: "is_int32 ?z" by (rule atoi_is_int32)
  show ?thesis
  proof (cases "?z < 0")
    case True
    then have "wrapu32 ?z = ?z + 4294967296" "65536 < nat (?z + 4294967296)"
      using range by (auto simp: wrapu32_neg is_int32_def)
    then show ?thesis using True by (simp add: mm_args_def sqrt_of_UINT32_MAX_def Let_def)
  next
    case False
    then have "wrapu32 ?z = ?z" using range by (intro wrapu32_id) (auto simp: is_int32_def)
    then show ?thesis using False by (auto simp: mm_args_def sqrt_of_UINT32_MAX_def Let_def)
  qed
qed

lemma mm_args_le: "mm_args argv = Inr n \<Longrightarrow> n \<le> 65536"
  by (auto simp: mm_args_def sqrt_of_UINT32_MAX_def Let_def split: if_splits)

lemma squared_size_small: "n \<le> 65535 \<Longrightarrow> squared_size n = n * n"
  using mm_small by (simp add: squared_size_def)

lemma squared_size_65536: "squared_size 65536 = 0"
  by (simp add: squared_size_def)

lemma mm_fits_iff:
  "mm_fits h k m \<longleftrightarrow> m = 0 \<or> k = 0 \<or> 8 * m < 2 ^ size_t_width h \<and> list_all (\<lambda>j. grants h j (8 * m)) [0..<k]"
  by (auto simp: mm_fits_def mem_block_full list_all_iff)

text \<open>The size 65536: its square wraps around to 0, the arrays are empty.\<close>

lemma mm_generate_65536: "mm_generate u h rand verify 65536 = Some ([], [], [], [])"
  by (simp add: mm_generate_eq [OF refl] squared_size_65536 mm_fits_iff rand_matrix_def)

lemma mm_rows_empty: "mm_rows u 65536 [] [] [] = None"
  unfolding mm_rows_def by (intro for_up_first_None) (simp_all add: mm_update_def Let_def)

text \<open>Every other size: the loops run on full arrays, or the filling has left one.\<close>

lemma dense_mm_upto:
  assumes "mm_args argv = Inr n" and "n \<le> 65535"
  shows "dense_mm u h rand argv =
    Inr (if mm_fits h 3 (n * n) then Some (mm_ref u n (rand_matrix u rand 0 (n * n)) (rand_matrix u rand 1 (n * n))) else None)"
  using assms(1) mm_rows_ref [OF mm_small [OF assms(2)], of "rand_matrix u rand 0 (n * n)" "rand_matrix u rand 1 (n * n)" u]
  by (simp add: dense_mm_def mm_generate_eq [OF refl] squared_size_small [OF assms(2)] rand_matrix_def)

text \<open>C11: \<open>dense_mm\<close> on every command line: without exactly one argument, and for sizes outside 0 to
  65536, it exits with -1; where the three arrays can be had, the program stays within them and \<open>C\<close> is
  the product of the generated matrices, each entry summed in index order. But an array is used
  without a look at what \<open>malloc\<close> returned, and its size in bytes may wrap around (on the Raspberry Pi
  from matrix size 23171 on): then the loop that fills the arrays leaves one of them. So do the
  loops of the product for the size 65536, which passes the check, but whose square wraps around to 0.\<close>

theorem dense_mm_result:
  "dense_mm u h rand argv =
     (let z = atoi (argv ! 1); n = nat z; bytes = 8 * (n * n) in
      if length argv \<noteq> 2 then Inl (- 1)
      else if z < 0 \<or> 65536 < z then Inl (- 1)
      else if z = 0 \<or> (z < 65536 \<and> bytes < 2 ^ size_t_width h \<and> grants h 0 bytes \<and> grants h 1 bytes \<and> grants h 2 bytes)
      then Inr (Some (mm_ref u n (rand_matrix u rand 0 (n * n)) (rand_matrix u rand 1 (n * n))))
      else Inr None)"
proof -
  let ?z = "atoi (argv ! 1)" and ?n = "nat (atoi (argv ! 1))"
  consider "length argv \<noteq> 2 \<or> ?z < 0 \<or> 65536 < ?z" | "length argv = 2" "?z = 65536"
    | "length argv = 2" "0 \<le> ?z" "?z \<le> 65535" by linarith
  then show ?thesis
  proof cases
    case 1
    then have "mm_args argv = Inl (- 1)" by (auto simp: mm_args_eq Let_def)
    then show ?thesis using 1 by (auto simp: dense_mm_def Let_def)
  next
    case 2
    then have "mm_args argv = Inr 65536" by (simp add: mm_args_eq Let_def)
    then show ?thesis using 2 by (simp add: dense_mm_def mm_generate_65536 mm_rows_empty Let_def)
  next
    case 3
    then have "mm_args argv = Inr ?n" and n: "?n \<le> 65535" "?n = 0 \<longleftrightarrow> ?z = 0" by (auto simp: mm_args_eq Let_def)
    from dense_mm_upto [OF this(1,2), of u h rand] show ?thesis
      using 3 n(2) by (auto simp: mm_fits_iff upt_3 Let_def)
  qed
qed

text \<open>On the Raspberry Pi, where \<open>size_t\<close> has 32 bits, no size from 23171 on is computed, although all up
  to 65536 are accepted.\<close>

lemma dense_mm_32_bit:
  assumes "size_t_width h = 32" and "23171 \<le> atoi sz" and "atoi sz \<le> 65536"
  shows "dense_mm u h rand [prog, sz] = Inr None"
proof -
  let ?n = "nat (atoi sz)"
  have args: "mm_args [prog, sz] = Inr ?n" using assms by (simp add: mm_args_eq Let_def)
  show ?thesis
  proof (cases "?n = 65536")
    case True
    then show ?thesis by (simp add: dense_mm_def args mm_generate_65536 mm_rows_empty)
  next
    case False
    have "23171 * 23171 \<le> ?n * ?n" using assms(2) by (intro mult_le_mono) auto
    then have "\<not> mm_fits h 3 (?n * ?n)" using assms by (auto simp: mm_fits_iff)
    then show ?thesis using dense_mm_upto [OF args, of u h rand] assms False by simp
  qed
qed

text \<open>However OpenMP interleaves the columns (\<open>schedule\<close> names the column of each update; every
  column gets its \<open>n * n\<close> turns), the parallel program computes the same matrix as the serial
  program \<open>dense_mm.c\<close>, bit for bit, and the check under \<open>VERIFY_PARALLEL\<close> succeeds.\<close>

theorem mm_parallel_equals_serial:
  assumes "n \<le> 65535" and "length A = n * n" and "length B = n * n"
    and "list_all (\<lambda>c. c < n) schedule" and "list_all (\<lambda>c. n * n \<le> count_list schedule c) [0..<n]"
  shows "\<exists>s D. mm_par u n A B schedule (replicate (n * n) (fzero u)) = Some s \<and>
    mm_rows u n A B (replicate (n * n) (fzero u)) = Some (mat s) \<and>
    mm_cols u n A B (replicate (n * n) (fzero u)) = Some D \<and> mm_verify n (mat s) D"
proof -
  note sq = mm_small [OF assms(1)]
  obtain s where s: "mm_par u n A B schedule (replicate (n * n) (fzero u)) = Some s"
    and inv: "mm_par_inv u n A B schedule s"
    using mm_par_run [OF sq assms(2-4)] by blast
  have "mat s = mm_ref u n A B"
  proof (rule mm_ref_eqI)
    show "length (mat s) = n * n" using inv by (simp add: mm_par_inv_def)
    fix r c assume rc: "r < n" "c < n"
    have "done_col s c = n * n" using inv rc assms(5) by (simp add: mm_par_inv_def list_all_iff)
    moreover have "r * n + n \<le> n * n" using mult_le_mono1 [of "Suc r" n n] rc by simp
    then have "min n (n * n - r * n) = n" by (simp add: min_def)
    ultimately show "mat s ! (r * n + c) = mm_sum u n A B (fzero u) r c [0..<n]"
      using inv rc by (simp add: mm_par_inv_def)
  qed
  then show ?thesis using s mm_rows_ref [OF sq assms(2,3), of u] mm_cols_ref [OF sq assms(2,3), of u]
    by (auto simp: mm_verify_def list_all_iff)
qed

theorem mm_parallel_equals_serial_witness:
  "let u = \<lparr>fadd = (\<lambda>x y. x + y), fmul = (\<lambda>x y. x * y), fzero = (0::nat), fnat = (\<lambda>x. x)\<rparr> in
   \<exists>s. mm_par u 2 [1, 2, 3, 4] [5, 6, 7, 8] [1, 0, 0, 1, 1, 0, 1, 0] (replicate (2 * 2) 0) = Some s \<and>
     mm_rows u 2 [1, 2, 3, 4] [5, 6, 7, 8] (replicate (2 * 2) 0) = Some (mat s)"
proof -
  let ?u = "\<lparr>fadd = (\<lambda>x y. x + y), fmul = (\<lambda>x y. x * y), fzero = (0::nat), fnat = (\<lambda>x. x)\<rparr>"
  have "list_all (\<lambda>c. 2 * 2 \<le> count_list [1, 0, 0, 1, 1, 0, 1, 0::nat] c) [0..<2]" by code_simp
  then show ?thesis
    using mm_parallel_equals_serial [of 2 "[1, 2, 3, 4]" "[5, 6, 7, 8]" "[1, 0, 0, 1, 1, 0, 1, 0]" ?u]
    by (auto simp: Let_def)
qed

lemma mm_par_empty:
  assumes "schedule \<noteq> []"
  shows "mm_par u 65536 [] [] schedule C = None"
  using assms by (cases schedule) (simp_all add: mm_par_def mm_par_step_def mm_update_def Let_def)

text \<open>C18: the parallel program and the serial program: on every command line, with the same memory and
  the same random numbers, \<open>parallel_dense_mm\<close> ends as \<open>dense_mm\<close> does, with the same exit code, the
  same faults and the same matrix bit for bit, however OpenMP interleaves the columns (\<open>schedule n\<close>
  names the column of each update; every column gets its \<open>n * n\<close> turns). Built with
  \<open>VERIFY_PARALLEL\<close>, when the array \<open>D\<close> can be had as \<open>C\<close> can, its assertions hold.\<close>

theorem parallel_dense_mm_equals_dense_mm:
  assumes "\<And>n. n \<le> 65536 \<Longrightarrow> list_all (\<lambda>c. c < n) (schedule n)"
    and "\<And>n. n \<le> 65536 \<Longrightarrow> list_all (\<lambda>c. n * n \<le> count_list (schedule n) c) [0..<n]"
    and "verify_parallel \<Longrightarrow> grants h 3 = grants h 2"
  shows "parallel_dense_mm u h rand verify_parallel schedule argv =
    (case dense_mm u h rand argv of
       Inl e \<Rightarrow> Inl e
     | Inr None \<Rightarrow> Inr None
     | Inr (Some C) \<Rightarrow> Inr (Some (C, True)))"
proof (cases "mm_args argv")
  case (Inl e)
  then show ?thesis by (simp add: parallel_dense_mm_def dense_mm_def)
next
  case (Inr n)
  then have n: "n \<le> 65536" by (rule mm_args_le)
  have fits: "mm_fits h (if verify_parallel then 4 else 3) m = mm_fits h 3 m" for m
    using assms(3) by (auto simp: mm_fits_def upt_3 upt_4)
  show ?thesis
  proof (cases "n = 65536")
    case True
    have "list_all (\<lambda>c. n * n \<le> count_list (schedule n) c) [0..<n]" by (rule assms(2) [OF n])
    then have "n * n \<le> count_list (schedule n) 0" using True by (simp add: list_all_iff)
    then have "schedule 65536 \<noteq> []" using True by auto
    then show ?thesis using Inr True
      by (simp add: parallel_dense_mm_def dense_mm_def mm_generate_65536 mm_rows_empty mm_par_empty)
  next
    case False
    then have le: "n \<le> 65535" using n by simp
    let ?A = "rand_matrix u rand 0 (n * n)" and ?B = "rand_matrix u rand 1 (n * n)"
    have len: "length ?A = n * n" "length ?B = n * n" by (simp_all add: rand_matrix_def)
    obtain s D where "mm_par u n ?A ?B (schedule n) (replicate (n * n) (fzero u)) = Some s"
      "mm_rows u n ?A ?B (replicate (n * n) (fzero u)) = Some (mat s)"
      "mm_cols u n ?A ?B (replicate (n * n) (fzero u)) = Some D" "mm_verify n (mat s) D"
      using mm_parallel_equals_serial [OF le len assms(1,2) [OF n]] by blast
    then show ?thesis using Inr le fits
      by (simp add: parallel_dense_mm_def dense_mm_def mm_generate_eq [OF refl] squared_size_small)
  qed
qed

theorem parallel_dense_mm_equals_dense_mm_witness:
  "let u = \<lparr>fadd = (\<lambda>x y. x + y), fmul = (\<lambda>x y. x * y), fzero = (0::nat), fnat = (\<lambda>x. x)\<rparr>;
       schedule = (\<lambda>n. concat (replicate (n * n) [0..<n]));
       h = \<lparr>size_t_width = 32, grants = (\<lambda>j b. b < 1000), before = (\<lambda>j k. 77)\<rparr> in
   parallel_dense_mm u h (\<lambda>k. k + 1) True schedule [''parallel_dense_mm'', ''2''] =
     Inr (Some ([20, 28, 52, 76], True)) \<and>
   parallel_dense_mm u h (\<lambda>k. k + 1) True schedule [''parallel_dense_mm'', ''12''] = Inr None"
proof -
  let ?u = "\<lparr>fadd = (\<lambda>x y. x + y), fmul = (\<lambda>x y. x * y), fzero = (0::nat), fnat = (\<lambda>x. x)\<rparr>"
  let ?schedule = "\<lambda>n. concat (replicate (n * n) [0..<n])"
  let ?h = "\<lparr>size_t_width = 32, grants = (\<lambda>j b. b < 1000), before = (\<lambda>j k. 77)\<rparr>"
  have "count_list [0..<n] c = (if c < n then 1 else 0)" for n c by (induction n) auto
  then have "count_list (concat (replicate k [0..<n])) c = k" if "c < n" for k n c :: nat
    using that by (induction k) simp_all
  then have fair: "list_all (\<lambda>c. n * n \<le> count_list (?schedule n) c) [0..<n]" for n
    by (simp add: list_all_iff)
  have cols: "list_all (\<lambda>c. c < n) (?schedule n)" for n by (auto simp: list_all_iff)
  have at: "atoi ''2'' = 2" "atoi ''12'' = 12" by code_simp+
  have gen: "rand_matrix ?u (\<lambda>k. k + 1) 0 4 = [1, 3, 5, 7]" "rand_matrix ?u (\<lambda>k. k + 1) 1 4 = [2, 4, 6, 8]"
    by (simp_all add: rand_matrix_def upt_4)
  have ref: "mm_ref ?u 2 [1, 3, 5, 7] [2, 4, 6, 8] = [20, 28, 52, 76]" by code_simp
  have "mm_fits ?h 3 4" "\<not> mm_fits ?h 3 144" by (simp_all add: mm_fits_iff upt_3)
  then have "dense_mm ?u ?h (\<lambda>k. k + 1) [''parallel_dense_mm'', ''2''] = Inr (Some [20, 28, 52, 76])"
    "dense_mm ?u ?h (\<lambda>k. k + 1) [''parallel_dense_mm'', ''12''] = Inr None"
    using dense_mm_upto [of "[''parallel_dense_mm'', ''2'']" 2 ?u ?h "\<lambda>k. k + 1"]
      dense_mm_upto [of "[''parallel_dense_mm'', ''12'']" 12 ?u ?h "\<lambda>k. k + 1"] gen ref
    by (simp_all add: mm_args_eq at Let_def)
  with parallel_dense_mm_equals_dense_mm [where schedule = ?schedule and verify_parallel = True and h = ?h, OF cols fair,
      of ?u "\<lambda>k. k + 1"]
  show ?thesis by (simp add: Let_def)
qed

text \<open>Studio12: signals that arrive during the multiplication do not change the product, and the
  printed count is the number of deliveries, modulo the width of \<open>int\<close>.\<close>

theorem mm_sig_counts:
  assumes "n \<le> 65535" and "length A = n * n" and "length B = n * n"
  shows "mm_sig u n A B sigs (0, replicate (n * n) (fzero u)) =
    Some (wrap32 (int (\<Sum>(r, c, i) \<leftarrow> row_order n. sigs r c i)), mm_ref u n A B)"
proof -
  have "each (\<lambda>(r, c, i). mm_update u n A B r c i) (row_order n) (replicate (n * n) (fzero u)) = Some (mm_ref u n A B)"
    using mm_rows_ref [OF mm_small [OF assms(1)] assms(2,3)] by (simp only: mm_rows_each)
  from mm_sig_each_pair [OF this, of 0 sigs] show ?thesis by (simp add: mm_sig_each is_int32_def)
qed

theorem mm_sig_counts_witness:
  "let u = \<lparr>fadd = (\<lambda>x y. x + y), fmul = (\<lambda>x y. x * y), fzero = (0::nat), fnat = (\<lambda>x. x)\<rparr> in
   mm_sig u 1 [3] [7] (\<lambda>r c i. 2) (0, [0]) = Some (2, [21])"
proof -
  let ?u = "\<lparr>fadd = (\<lambda>x y. x + y), fmul = (\<lambda>x y. x * y), fzero = (0::nat), fnat = (\<lambda>x. x)\<rparr>"
  have "row_order 1 = [(0, 0, 0)]" by code_simp
  moreover have "mm_ref ?u 1 [3] [7] = [21]" by (simp add: mm_ref_def mm_sum_def)
  ultimately show ?thesis
    using mm_sig_counts [of 1 "[3]" "[7]" ?u "\<lambda>r c i. 2"] by (simp add: wrap32_id)
qed

end
