(* ===== verification/Timespec.thy ===== *)
theory Timespec
  imports Prelude CStrings
begin

text \<open>
  Points in time as \<open>clock_gettime\<close> gives them, the interval between two of them as
  \<open>getclockgettime.c\<close> and \<open>parallel_dense_mm2.c\<close> compute it, and the report of minimum and maximum
  at the end of \<open>parallel_dense_mm2.c\<close>. \<open>w\<close> is the number of bits of \<open>long\<close>: 32 on the Raspberry
  Pi, 64 on a desktop.
\<close>

datatype timespec = Timespec (tv_sec: int) (tv_nsec: int)

text \<open>Earlier and later: by the seconds, then by the nanoseconds.\<close>

instantiation timespec :: linorder
begin

definition less_eq_timespec :: "timespec \<Rightarrow> timespec \<Rightarrow> bool" where
  "less_eq_timespec a b \<longleftrightarrow> tv_sec a < tv_sec b \<or> tv_sec a = tv_sec b \<and> tv_nsec a \<le> tv_nsec b"

definition less_timespec :: "timespec \<Rightarrow> timespec \<Rightarrow> bool" where
  "less_timespec a b \<longleftrightarrow> tv_sec a < tv_sec b \<or> tv_sec a = tv_sec b \<and> tv_nsec a < tv_nsec b"

instance
  by standard (auto simp: less_eq_timespec_def less_timespec_def intro: timespec.expand)

end

definition timespec_ok :: "timespec \<Rightarrow> bool" where
  "timespec_ok t \<longleftrightarrow> 0 \<le> tv_sec t \<and> 0 \<le> tv_nsec t \<and> tv_nsec t < 1000000000"

definition ns_of :: "timespec \<Rightarrow> int" where
  "ns_of t = tv_sec t * 1000000000 + tv_nsec t"

lemma ns_of_less_iff: "timespec_ok a \<Longrightarrow> timespec_ok b \<Longrightarrow> ns_of a < ns_of b \<longleftrightarrow> a < b"
  unfolding ns_of_def less_timespec_def timespec_ok_def by (cases "tv_sec a = tv_sec b") (simp, linarith)

section \<open>The interval\<close>

text \<open>
  \<open>(long)((after.tv_sec - before.tv_sec) * 10e9L) + (after.tv_nsec - before.tv_nsec)\<close>: the
  \<open>long double\<close> product is exact; converting a value that \<open>long\<close> cannot hold, or a sum beyond
  \<open>long\<close>, is undefined. \<open>10e9L\<close> is ten thousand million.
\<close>

definition is_long :: "nat \<Rightarrow> int \<Rightarrow> bool" where
  "is_long w x \<longleftrightarrow> - (2 ^ (w - 1)) \<le> x \<and> x < 2 ^ (w - 1)"

definition clock_differ :: "nat \<Rightarrow> timespec \<Rightarrow> timespec \<Rightarrow> int option" where
  "clock_differ w strBefore strAfter =
     (let d = (tv_sec strAfter - tv_sec strBefore) * 10000000000;
          r = d + (tv_nsec strAfter - tv_nsec strBefore)
      in if is_long w d \<and> is_long w r then Some r else None)"

text \<open>One measured run: the printed line, \<open>%ld\<close>.\<close>

definition mm2_line :: "nat \<Rightarrow> timespec \<times> timespec \<Rightarrow> string option" where
  "mm2_line w p = map_option (\<lambda>r. show_int r @ [CHR 0x0A]) (clock_differ w (fst p) (snd p))"

definition mm2_record :: "nat \<Rightarrow> (timespec \<times> timespec) list \<Rightarrow> int list option" where
  "mm2_record w clock =
     each (\<lambda>p ps32record. map_option (\<lambda>r. ps32record @ [r]) (clock_differ w (fst p) (snd p))) clock []"

text \<open>The report: \<open>s32min\<close> starts at \<open>0x7FFFFFFF\<close>, \<open>s32max\<close> at 0.\<close>

definition report_step :: "int \<Rightarrow> int \<times> int \<Rightarrow> int \<times> int" where
  "report_step r s =
     (case s of (s32max, s32min) \<Rightarrow>
        (if r \<ge> s32max then r else s32max, if r \<le> s32min then r else s32min))"

definition mm2_report :: "int list \<Rightarrow> int \<times> int" where
  "mm2_report ps32record = fold report_step ps32record (0, 2147483647)"

section \<open>Properties\<close>

text \<open>C38: the printed interval is the time that passed exactly when both readings fall into the same
  second (on every width of \<open>long\<close> from 32 bits): across a second boundary the unit \<open>10e9L\<close> counts
  each second tenfold, and does not fit a 32-bit \<open>long\<close> at all.\<close>

theorem clock_differ_correct_iff:
  assumes "timespec_ok a" and "timespec_ok b" and "32 \<le> w"
  shows "(clock_differ w a b = Some (ns_of b - ns_of a) \<longleftrightarrow> tv_sec a = tv_sec b) \<and>
    (w = 32 \<and> tv_sec a \<noteq> tv_sec b \<longrightarrow> clock_differ w a b = None)"
proof -
  let ?d = "tv_sec b - tv_sec a" and ?e = "tv_nsec b - tv_nsec a"
  have e: "- 1000000000 < ?e" "?e < 1000000000" using assms(1,2) unfolding timespec_ok_def by linarith+
  have "(2::int) ^ 31 \<le> 2 ^ (w - 1)" using assms(3) by (intro power_increasing) auto
  then have w: "2147483648 \<le> (2::int) ^ (w - 1)" by simp
  have ns: "ns_of b - ns_of a = ?d * 1000000000 + ?e" by (simp add: ns_of_def algebra_simps)
  have "clock_differ w a b = Some ?e" if "?d = 0"
    using that e w by (auto simp: clock_differ_def is_long_def Let_def)
  moreover have "clock_differ w a b \<noteq> Some (ns_of b - ns_of a)" if "?d \<noteq> 0"
    using that ns by (auto simp: clock_differ_def Let_def)
  moreover have "clock_differ w a b = None" if "w = 32" "?d \<noteq> 0"
  proof -
    have "?d \<le> - 1 \<or> 1 \<le> ?d" using that(2) by (cases "?d < 0") simp_all
    then have "\<not> is_long 32 (?d * 10000000000)"
      by (elim disjE) (simp_all only: is_long_def, simp_all)
    then show ?thesis using that(1) by (simp add: clock_differ_def Let_def)
  qed
  ultimately show ?thesis using ns by (cases "tv_sec b = tv_sec a") auto
qed

theorem clock_differ_correct_iff_witness:
  "clock_differ 32 (Timespec 7 999999000) (Timespec 8 1000) = None \<and>
   clock_differ 64 (Timespec 7 5) (Timespec 7 905) = Some 900"
proof -
  have ok: "timespec_ok (Timespec 7 999999000)" "timespec_ok (Timespec 8 1000)"
    "timespec_ok (Timespec 7 5)" "timespec_ok (Timespec 7 905)" by (simp_all add: timespec_ok_def)
  show ?thesis
    using clock_differ_correct_iff [OF ok(1,2), of 32] clock_differ_correct_iff [OF ok(3,4), of 64]
    by (simp add: ns_of_def)
qed

text \<open>the report loop finds the largest and the smallest recorded time, with the initial values 0
  and \<open>0x7FFFFFFF\<close> as the results for no run.\<close>

lemma mm2_report_min_max:
  "mm2_report ps32record =
     (Max (set (0 # ps32record)), Min (set (2147483647 # ps32record)))"
proof -
  have "fold report_step xs (M, m) = (Max (set (M # xs)), Min (set (m # xs)))" for xs M m
  proof (induction xs arbitrary: M m)
    case (Cons x xs)
    have "report_step x (M, m) = (max M x, min m x)" by (auto simp: report_step_def)
    then have "fold report_step (x # xs) (M, m) = (Max (set (max M x # xs)), Min (set (min m x # xs)))"
      by (simp only: fold_simps Cons.IH)
    then show ?case by (cases xs) (simp_all add: max.assoc min.assoc)
  qed simp
  then show ?thesis by (simp add: mm2_report_def)
qed

end
