(* ===== verification/TimedMM.thy ===== *)
theory TimedMM
  imports Complex_Main DenseMM Timespec
begin

text \<open>
  \<open>studio03/parallel_dense_mm2.c\<close> as a whole, run by a team of one thread (\<open>OMP_NUM_THREADS=1\<close>): the
  multiplication is repeated \<open>s32cnt\<close> times, each repetition timed by two readings of the clock, then
  the extreme times and the average are reported. With more threads the repetitions race on \<open>C\<close>,
  \<open>strBefore\<close> and \<open>strAfter\<close>, which they share.
\<close>

definition mm2_run :: "'d fpu \<Rightarrow> nat \<Rightarrow> 'd list \<Rightarrow> 'd list \<Rightarrow> nat \<Rightarrow> (nat \<Rightarrow> timespec \<times> timespec) \<Rightarrow> nat \<Rightarrow>
    'd list \<times> int list \<Rightarrow> ('d list \<times> int list) option" where
  "mm2_run u n A B w clock s32i s =
     (case s of (C, ps32record) \<Rightarrow>
        (case mm_cols u n A B C of
           None \<Rightarrow> None
         | Some C' \<Rightarrow>
             (case clock_differ w (fst (clock s32i)) (snd (clock s32i)) of
                None \<Rightarrow> None
              | Some r \<Rightarrow> if s32i < length ps32record then Some (C', ps32record[s32i := r]) else None)))"

definition mm2_runs :: "'d fpu \<Rightarrow> nat \<Rightarrow> 'd list \<Rightarrow> 'd list \<Rightarrow> nat \<Rightarrow> (nat \<Rightarrow> timespec \<times> timespec) \<Rightarrow> nat \<Rightarrow>
    'd list \<times> int list \<Rightarrow> ('d list \<times> int list) option" where
  "mm2_runs u n A B w clock s32cnt = for_up 0 s32cnt (mm2_run u n A B w clock)"

text \<open>The average, exact; \<open>None\<close> is the division of zero by zero.\<close>

definition mm2_avg :: "int list \<Rightarrow> int \<Rightarrow> rat option" where
  "mm2_avg ps32record s32cnt =
     (if s32cnt = 0 then None else Some (sum_list (map rat_of_int ps32record) / rat_of_int s32cnt))"

text \<open>
  \<open>main\<close>: the array of the \<open>long\<close> results is allocated first, then those of the matrices; \<open>s32cnt\<close> is
  converted to \<open>size_t\<close> for the product (the widths of \<open>long\<close> and of \<open>size_t\<close> are the same here). None of
  the results of \<open>malloc\<close> is checked. \<open>junk\<close> is what the first array holds before. The report reads the
  first \<open>s32cnt\<close> elements.
\<close>

definition mm2_main :: "'d fpu \<Rightarrow> 'd heap \<Rightarrow> (nat \<Rightarrow> int) \<Rightarrow> (nat \<Rightarrow> nat) \<Rightarrow>
    (nat \<Rightarrow> timespec \<times> timespec) \<Rightarrow> string list \<Rightarrow>
    int + ('d list \<times> (int \<times> int) \<times> rat option) option" where
  "mm2_main u h junk rand clock argv =
     (if length argv \<noteq> 3 then Inl (- 1)
      else
        let matrix_size = nat (wrapu32 (atoi (argv ! 1))); s32cnt = atoi (argv ! 2); w = size_t_width h;
            ps32record = map junk [0..<mem_block w (grants h 0) (w div 8) (nat (s32cnt mod 2 ^ w))] in
        if matrix_size > sqrt_of_UINT32_MAX then Inl (- 1)
        else
          (case mm_generate u (h\<lparr>grants := \<lambda>j. grants h (j + 1), before := \<lambda>j. before h (j + 1)\<rparr>) rand False matrix_size of
             None \<Rightarrow> Inr None
           | Some (A, B, C, D) \<Rightarrow>
               Inr (map_option
                 (\<lambda>(C', rec). (C', mm2_report (take (nat s32cnt) rec), mm2_avg (take (nat s32cnt) rec) s32cnt))
                 (mm2_runs u matrix_size A B w clock (nat s32cnt) (C, ps32record)))))"

text \<open>One pass over all columns adds one product to \<open>C\<close>.\<close>

lemma mm_cols_cells:
  assumes "n * n < 4294967296" "length A = n * n" "length B = n * n" "length C = n * n"
  shows "\<exists>C'. mm_cols u n A B C = Some C' \<and> length C' = n * n \<and>
    (\<forall>r c. r < n \<longrightarrow> c < n \<longrightarrow> C' ! (r * n + c) = mm_sum u n A B (C ! (r * n + c)) r c [0..<n])"
proof -
  have "list_all (\<lambda>(r, c, i). r < n \<and> c < n \<and> i < n) (col_order n)"
    by (simp add: col_order_def list_all_iff)
  from mm_each_cells [OF assms this, of u] show ?thesis
    unfolding mm_cols_each by (metis (no_types, lifting) col_order_cell)
qed

definition rat_fpu :: "rat fpu" where
  "rat_fpu = \<lparr>fadd = (\<lambda>x y. x + y), fmul = (\<lambda>x y. x * y), fzero = 0, fnat = of_nat\<rparr>"

definition product_cell :: "nat \<Rightarrow> rat list \<Rightarrow> rat list \<Rightarrow> nat \<Rightarrow> nat \<Rightarrow> rat" where
  "product_cell n A B r c = (\<Sum>i \<leftarrow> [0..<n]. A ! (r * n + i) * B ! (i * n + c))"

lemma mm_sum_rat: "mm_sum rat_fpu n A B x r c is = x + (\<Sum>i \<leftarrow> is. A ! (r * n + i) * B ! (i * n + c))"
  by (induction "is" arbitrary: x) (simp_all add: mm_sum_def rat_fpu_def)

definition runs_inv :: "nat \<Rightarrow> rat list \<Rightarrow> rat list \<Rightarrow> nat \<Rightarrow> nat \<Rightarrow> rat list \<times> int list \<Rightarrow> bool" where
  "runs_inv n A B m k s \<longleftrightarrow> length (fst s) = n * n \<and> length (snd s) = m \<and>
     (\<forall>r c. r < n \<longrightarrow> c < n \<longrightarrow> fst s ! (r * n + c) = rat_of_nat k * product_cell n A B r c)"

lemma mm2_run_inv:
  assumes n: "n * n < 4294967296" "length A = n * n" "length B = n * n"
    and "clock_differ w (fst (clock i)) (snd (clock i)) \<noteq> None" and "i < m" and inv: "runs_inv n A B m k s"
  shows "\<exists>t. mm2_run rat_fpu n A B w clock i s = Some t \<and> runs_inv n A B m (Suc k) t"
proof -
  have "length (fst s) = n * n" using inv by (simp add: runs_inv_def)
  from mm_cols_cells [OF n this, of rat_fpu] obtain C' where
    C: "mm_cols rat_fpu n A B (fst s) = Some C'" "length C' = n * n"
    "\<forall>r c. r < n \<longrightarrow> c < n \<longrightarrow> C' ! (r * n + c) = mm_sum rat_fpu n A B (fst s ! (r * n + c)) r c [0..<n]" by blast
  obtain d where "clock_differ w (fst (clock i)) (snd (clock i)) = Some d" using assms(4) by blast
  with C inv assms(5) show ?thesis
    by (intro exI [of _ "(C', (snd s)[i := d])"])
      (auto simp: mm2_run_def runs_inv_def mm_sum_rat product_cell_def algebra_simps split: prod.split)
qed

text \<open>\<open>C\<close> is not cleared between the repetitions: with exact arithmetic it ends as \<open>s32cnt\<close> times the
  product, so that the check under \<open>VERIFY_PARALLEL\<close>, which multiplies once, fails from two repetitions on.\<close>

theorem mm2_accumulates:
  assumes "n \<le> 65535" and "length A = n * n" and "length B = n * n" and "k \<le> length rec0"
    and "\<forall>i<k. clock_differ w (fst (clock i)) (snd (clock i)) \<noteq> None"
  shows "\<exists>C rec. mm2_runs rat_fpu n A B w clock k (replicate (n * n) 0, rec0) = Some (C, rec) \<and> length rec = length rec0 \<and>
    (\<forall>r c. r < n \<longrightarrow> c < n \<longrightarrow> C ! (r * n + c) = rat_of_nat k * product_cell n A B r c)"
proof -
  let ?s = "(replicate (n * n) (0 :: rat), rec0)" and ?m = "length rec0"
  have 0: "runs_inv n A B ?m 0 ?s" using mm_lt [of _ n] by (simp add: runs_inv_def)
  have "\<exists>t. each (mm2_run rat_fpu n A B w clock) [0..<k] ?s = Some t \<and> runs_inv n A B ?m (length [0..<k]) t"
    by (rule each_invariant [where I = "runs_inv n A B ?m", OF 0], rule mm2_run_inv [OF mm_small [OF assms(1)] assms(2,3)])
      (use assms(4,5) in simp_all)
  then show ?thesis unfolding mm2_runs_def for_up_each runs_inv_def by auto
qed

theorem mm2_accumulates_witness:
  "\<exists>C rec. mm2_runs rat_fpu 1 [3] [7] 32 (\<lambda>i. (Timespec 1 10, Timespec 1 25)) 2 ([0], [5, 6]) = Some (C, rec)
     \<and> length rec = 2 \<and> C ! 0 = 42"
proof -
  have "\<forall>i<2::nat. clock_differ 32 (Timespec 1 10) (Timespec 1 25) \<noteq> None"
    by (simp add: clock_differ_def is_long_def)
  with mm2_accumulates [of 1 "[3]" "[7]" 2 "[5, 6]" 32 "\<lambda>i. (Timespec 1 10, Timespec 1 25)"]
  show ?thesis by (auto simp: product_cell_def)
qed

end
