(* ===== verification/TeamMM.thy ===== *)
theory TeamMM
  imports TimedMM "HOL-Library.Multiset"
begin

text \<open>
  The parallel region of \<open>parallel_dense_mm2.c\<close> with a team of several threads: the repetitions are
  shared out among the threads, which all work on the same \<open>C\<close>, \<open>strBefore\<close>, \<open>strAfter\<close> and
  \<open>ps32record\<close>; \<open>col\<close>, \<open>row\<close>, \<open>index\<close> and \<open>s32i\<close> are private. Each \<open>+=\<close> on an element of \<open>C\<close> is a load and
  a store, each reading of the clock an action, and so is the evaluation of the interval.
\<close>

section \<open>The program\<close>

text \<open>
  Where a thread is in its current repetition: at the first clock reading (line 86), at the load and
  the store of step \<open>k\<close> of the three loops (line 90), at the second reading (95), at the interval (96).
  \<open>TOut\<close> is an access out of bounds, \<open>TUndef\<close> an interval that \<open>long\<close> cannot hold.
\<close>

datatype 'd team_pc = TBefore | TLoad nat | TStore nat 'd | TAfter | TRecord | TOut | TUndef

text \<open>\<open>runs_left\<close> are the values of \<open>s32i\<close> that a thread still has to run, the current one first.\<close>

record 'd team =
  team_C :: "'d list"
  strBefore :: timespec
  strAfter :: timespec
  ps32record :: "int option list"
  runs_left :: "nat \<Rightarrow> nat list"
  tpc :: "nat \<Rightarrow> 'd team_pc"

definition team_goto :: "nat \<Rightarrow> 'd team_pc \<Rightarrow> 'd team \<Rightarrow> 'd team" where
  "team_goto i p s = s\<lparr>tpc := (tpc s)(i := p)\<rparr>"

text \<open>Step \<open>k\<close> of the loops: the column outermost, the index innermost.\<close>

definition step_col :: "nat \<Rightarrow> nat \<Rightarrow> nat" where "step_col n k = k div (n * n)"
definition step_row :: "nat \<Rightarrow> nat \<Rightarrow> nat" where "step_row n k = k div n mod n"
definition step_index :: "nat \<Rightarrow> nat \<Rightarrow> nat" where "step_index n k = k mod n"

definition team_load :: "'d fpu \<Rightarrow> nat \<Rightarrow> 'd list \<Rightarrow> 'd list \<Rightarrow> nat \<Rightarrow> nat \<Rightarrow> 'd team \<Rightarrow> 'd team" where
  "team_load u n A B k i s =
     (if k < n * n * n then
        let c = mm_at n (step_row n k) (step_col n k);
            a = mm_at n (step_row n k) (step_index n k);
            b = mm_at n (step_index n k) (step_col n k) in
        if c < length (team_C s) \<and> a < length A \<and> b < length B
        then team_goto i (TStore k (fadd u (team_C s ! c) (fmul u (A ! a) (B ! b)))) s
        else team_goto i TOut s
      else team_goto i TAfter s)"

definition team_store :: "nat \<Rightarrow> nat \<Rightarrow> 'd \<Rightarrow> nat \<Rightarrow> 'd team \<Rightarrow> 'd team" where
  "team_store n k x i s =
     team_goto i (TLoad (Suc k)) (s\<lparr>team_C := (team_C s)[mm_at n (step_row n k) (step_col n k) := x]\<rparr>)"

definition team_record :: "nat \<Rightarrow> nat \<Rightarrow> nat list \<Rightarrow> nat \<Rightarrow> 'd team \<Rightarrow> 'd team" where
  "team_record w s32i rest i s =
     (case clock_differ w (strBefore s) (strAfter s) of
        None \<Rightarrow> team_goto i TUndef s
      | Some r \<Rightarrow>
          if s32i < length (ps32record s)
          then team_goto i TBefore (s\<lparr>ps32record := (ps32record s)[s32i := Some r], runs_left := (runs_left s)(i := rest)\<rparr>)
          else team_goto i TOut s)"

definition team_next :: "'d fpu \<Rightarrow> nat \<Rightarrow> 'd list \<Rightarrow> 'd list \<Rightarrow> nat \<Rightarrow> nat \<Rightarrow> timespec \<Rightarrow> 'd team \<Rightarrow> 'd team option" where
  "team_next u n A B w i now s =
     (case runs_left s i of
        [] \<Rightarrow> None
      | s32i # rest \<Rightarrow>
          (case tpc s i of
             TBefore \<Rightarrow> Some (team_goto i (TLoad 0) (s\<lparr>strBefore := now\<rparr>))
           | TLoad k \<Rightarrow> Some (team_load u n A B k i s)
           | TStore k x \<Rightarrow> Some (team_store n k x i s)
           | TAfter \<Rightarrow> Some (team_goto i TRecord (s\<lparr>strAfter := now\<rparr>))
           | TRecord \<Rightarrow> Some (team_record w s32i rest i s)
           | TOut \<Rightarrow> None
           | TUndef \<Rightarrow> None))"

text \<open>OpenMP shares out the repetitions: every one goes to exactly one thread.\<close>

definition team_init :: "'d fpu \<Rightarrow> nat \<Rightarrow> nat \<Rightarrow> nat \<Rightarrow> 'd team \<Rightarrow> bool" where
  "team_init u n m s32cnt s \<longleftrightarrow> team_C s = replicate (n * n) (fzero u) \<and> ps32record s = replicate s32cnt None \<and>
     tpc s = (\<lambda>_. TBefore) \<and> distinct (concat (map (runs_left s) [0..<m])) \<and>
     set (concat (map (runs_left s) [0..<m])) = set [0..<s32cnt]"

definition team_done :: "nat \<Rightarrow> 'd team \<Rightarrow> bool" where
  "team_done m s \<longleftrightarrow> list_all (\<lambda>i. runs_left s i = []) [0..<m]"

section \<open>What has been added\<close>

text \<open>
  Step \<open>k\<close> of a repetition adds \<open>step_term k\<close> to element \<open>step_cell k\<close>. \<open>step_sum\<close> is what the steps of a
  list make of an element that is zero at first, added in that order and rounded each time as \<open>fadd\<close> does.
\<close>

definition step_cell :: "nat \<Rightarrow> nat \<Rightarrow> nat" where
  "step_cell n k = step_row n k * n + step_col n k"

definition step_term :: "'d fpu \<Rightarrow> nat \<Rightarrow> 'd list \<Rightarrow> 'd list \<Rightarrow> nat \<Rightarrow> 'd" where
  "step_term u n A B k = fmul u (A ! (step_row n k * n + step_index n k)) (B ! (step_index n k * n + step_col n k))"

definition step_sum :: "'d fpu \<Rightarrow> nat \<Rightarrow> 'd list \<Rightarrow> 'd list \<Rightarrow> nat list \<Rightarrow> 'd" where
  "step_sum u n A B ks = foldl (\<lambda>x k. fadd u x (step_term u n A B k)) (fzero u) ks"

text \<open>The first \<open>p\<close> steps of a repetition that go to cell \<open>c\<close>.\<close>

definition cell_steps :: "nat \<Rightarrow> nat \<Rightarrow> nat \<Rightarrow> nat list" where
  "cell_steps n p c = filter (\<lambda>k. step_cell n k = c) [0..<p]"

lemma cell_steps_simps [simp]:
  "cell_steps n 0 c = []"
  "cell_steps n (Suc p) c = cell_steps n p c @ (if step_cell n p = c then [p] else [])"
  by (simp_all add: cell_steps_def)

lemma step_bounds:
  assumes "k < n * n * n"
  shows "step_col n k < n" and "step_row n k < n" and "step_index n k < n"
proof -
  have "0 < n" using assms by (cases n) auto
  then show "step_row n k < n" "step_index n k < n" by (simp_all add: step_row_def step_index_def)
  show "step_col n k < n" using assms by (simp add: step_col_def less_mult_imp_div_less mult.assoc)
qed

lemma step_mm_at:
  assumes "k < n * n * n" and "n * n < 4294967296"
  shows "mm_at n (step_row n k) (step_col n k) = step_cell n k" and "step_cell n k < n * n"
    and "mm_at n (step_row n k) (step_index n k) = step_row n k * n + step_index n k"
    and "step_row n k * n + step_index n k < n * n"
    and "mm_at n (step_index n k) (step_col n k) = step_index n k * n + step_col n k"
    and "step_index n k * n + step_col n k < n * n"
  using step_bounds [OF assms(1)] mm_at_small [OF assms(2)] mm_lt by (simp_all add: step_cell_def)

text \<open>The steps of one cell are those of its row and column, so a repetition adds the product.\<close>

lemma step_decode:
  assumes "r < n" and "c < n" and "i < n"
  shows "step_col n (c * (n * n) + r * n + i) = c" and "step_row n (c * (n * n) + r * n + i) = r"
    and "step_index n (c * (n * n) + r * n + i) = i"
proof -
  have n: "0 < n" using assms by simp
  have low: "r * n + i < n * n" using assms(1,3) by (rule mm_lt)
  show "step_col n (c * (n * n) + r * n + i) = c" using low n by (simp add: step_col_def add.assoc)
  have "(c * (n * n) + r * n + i) div n = c * n + r"
    using assms(3) n by (simp add: mult.assoc [symmetric] add_mult_distrib [symmetric])
  then show "step_row n (c * (n * n) + r * n + i) = r" using assms(1) by (simp add: step_row_def)
  show "step_index n (c * (n * n) + r * n + i) = i" using assms(3)
    by (simp add: step_index_def mult.assoc [symmetric] add_mult_distrib [symmetric])
qed

lemma cell_inj:
  fixes r c r' c' n :: nat
  assumes "r * n + c = r' * n + c'" and "c < n" and "c' < n"
  shows "r = r' \<and> c = c'"
proof -
  have "(r * n + c) div n = r" "(r' * n + c') div n = r'" using assms(2,3) by simp_all
  then show ?thesis using assms(1) by simp
qed

lemma steps_of_cell:
  assumes "r < n" and "c < n"
  shows "{k. k < n * n * n \<and> step_cell n k = r * n + c} = (\<lambda>i. c * (n * n) + r * n + i) ` {..<n}"
proof (intro equalityI subsetI)
  fix k assume k: "k \<in> {k. k < n * n * n \<and> step_cell n k = r * n + c}"
  then have b: "step_col n k < n" "step_row n k < n" "step_index n k < n" using step_bounds by blast+
  have "step_row n k = r \<and> step_col n k = c" using k b(1) assms(2) by (intro cell_inj) (simp_all add: step_cell_def)
  moreover have "k = k div (n * n) * (n * n) + (k div n mod n) * n + k mod n"
  proof -
    have "k div (n * n) * (n * n) + (k div n mod n) * n + k mod n = (k div n div n * n + k div n mod n) * n + k mod n"
      by (simp only: div_mult2_eq add_mult_distrib mult.assoc)
    also have "\<dots> = k" by (simp only: div_mult_mod_eq)
    finally show ?thesis by (rule sym)
  qed
  ultimately show "k \<in> (\<lambda>i. c * (n * n) + r * n + i) ` {..<n}"
    using b(3) by (auto simp: step_col_def step_row_def step_index_def)
next
  fix k assume "k \<in> (\<lambda>i. c * (n * n) + r * n + i) ` {..<n}"
  then obtain i where i: "k = c * (n * n) + r * n + i" "i < n" by blast
  have "Suc c * (n * n) \<le> n * (n * n)" using assms(2) by (intro mult_le_mono1) simp
  moreover have "r * n + i < n * n" using assms(1) i(2) by (rule mm_lt)
  ultimately have "k < n * (n * n)" using i(1) by simp
  then show "k \<in> {k. k < n * n * n \<and> step_cell n k = r * n + c}"
    using step_decode [OF assms i(2)] i(1) by (simp add: step_cell_def mult.assoc)
qed

lemma cell_steps_all:
  assumes "r < n" and "c < n"
  shows "cell_steps n (n * n * n) (r * n + c) = map (\<lambda>i. c * (n * n) + r * n + i) [0..<n]"
proof (rule sorted_distinct_set_unique)
  have "set (cell_steps n (n * n * n) (r * n + c)) = {k. k < n * n * n \<and> step_cell n k = r * n + c}"
    by (auto simp: cell_steps_def)
  then show "set (cell_steps n (n * n * n) (r * n + c)) = set (map (\<lambda>i. c * (n * n) + r * n + i) [0..<n])"
    by (simp only: steps_of_cell [OF assms] set_map atLeast_upt)
qed (simp_all add: cell_steps_def sorted_map distinct_map sorted_wrt_filter inj_on_def)

lemma step_term_cell:
  assumes "r < n" and "c < n" and "i < n"
  shows "step_term u n A B (c * (n * n) + r * n + i) = fmul u (A ! (r * n + i)) (B ! (i * n + c))"
  by (simp add: step_term_def step_decode [OF assms])

lemma step_sum_cell:
  assumes "r < n" and "c < n" and "set js \<subseteq> {..<n}"
  shows "step_sum u n A B (map (\<lambda>i. c * (n * n) + r * n + i) js) = mm_sum u n A B (fzero u) r c js"
proof -
  have "fadd u x (step_term u n A B (c * (n * n) + r * n + i)) = fadd u x (fmul u (A ! (r * n + i)) (B ! (i * n + c)))"
    if "i \<in> set js" for i x
    using step_term_cell [OF assms(1,2), of i u A B] that assms(3) by fastforce
  then show ?thesis unfolding step_sum_def mm_sum_def foldl_map by (intro foldl_cong) simp_all
qed

section \<open>The invariant\<close>

text \<open>How far a thread is in its current repetition.\<close>

fun team_pos :: "nat \<Rightarrow> 'd team_pc \<Rightarrow> nat" where
  "team_pos n TBefore = 0"
| "team_pos n (TLoad k) = k"
| "team_pos n (TStore k x) = k"
| "team_pos n TAfter = n * n * n"
| "team_pos n TRecord = n * n * n"
| "team_pos n _ = n * n * n"

text \<open>
  The steps that thread \<open>i\<close>, with \<open>len i\<close> repetitions in all, has done on cell \<open>c\<close> so far, in its order,
  and those of the team.
\<close>

definition done_by :: "nat \<Rightarrow> (nat \<Rightarrow> nat) \<Rightarrow> 'd team \<Rightarrow> nat \<Rightarrow> nat \<Rightarrow> nat list" where
  "done_by n len s i c =
     concat (replicate (len i - length (runs_left s i)) (cell_steps n (n * n * n) c)) @ cell_steps n (team_pos n (tpc s i)) c"

definition added :: "nat \<Rightarrow> nat \<Rightarrow> (nat \<Rightarrow> nat) \<Rightarrow> 'd team \<Rightarrow> nat \<Rightarrow> nat multiset" where
  "added n m len s c = (\<Sum>i<m. mset (done_by n len s i c))"

text \<open>
  A value computed from a load, and an element of \<open>C\<close>, is the sum of steps that have been done, in some
  order and each as often as it has been done at most; in a team of one thread of all of them, in their order.
\<close>

definition sum_of :: "'d fpu \<Rightarrow> nat \<Rightarrow> 'd list \<Rightarrow> 'd list \<Rightarrow> nat \<Rightarrow> 'd \<Rightarrow> nat multiset \<Rightarrow> nat list \<Rightarrow> bool" where
  "sum_of u n A B m x M L \<longleftrightarrow> (\<exists>ks. x = step_sum u n A B ks \<and> mset ks \<subseteq># M \<and> (m = 1 \<longrightarrow> ks = L))"

lemma sum_of_add:
  assumes "sum_of u n A B m x M L"
  shows "sum_of u n A B m (fadd u x (step_term u n A B k)) (add_mset k M) (L @ [k])"
proof -
  obtain ks where "x = step_sum u n A B ks" "mset ks \<subseteq># M" "m = 1 \<longrightarrow> ks = L" using assms by (auto simp: sum_of_def)
  then show ?thesis unfolding sum_of_def by (intro exI [of _ "ks @ [k]"]) (simp add: step_sum_def)
qed

lemma sum_of_mono: "sum_of u n A B m x M L \<Longrightarrow> M \<subseteq># M' \<Longrightarrow> m \<noteq> 1 \<Longrightarrow> sum_of u n A B m x M' L'"
  by (auto simp: sum_of_def intro: subset_mset.order_trans)

definition team_local :: "'d fpu \<Rightarrow> nat \<Rightarrow> 'd list \<Rightarrow> 'd list \<Rightarrow> nat \<Rightarrow> (nat \<Rightarrow> nat) \<Rightarrow> 'd team \<Rightarrow> nat \<Rightarrow> bool" where
  "team_local u n A B m len s i \<longleftrightarrow> length (runs_left s i) \<le> len i \<and> (runs_left s i = [] \<longrightarrow> tpc s i = TBefore) \<and>
     (case tpc s i of
        TLoad k \<Rightarrow> k \<le> n * n * n
      | TStore k x \<Rightarrow> k < n * n * n \<and>
          sum_of u n A B m x (add_mset k (added n m len s (step_cell n k))) (done_by n len s 0 (step_cell n k) @ [k])
      | TOut \<Rightarrow> False
      | _ \<Rightarrow> True)"

definition records_ok :: "nat \<Rightarrow> nat \<Rightarrow> 'd team \<Rightarrow> bool" where
  "records_ok m s32cnt s \<longleftrightarrow> length (ps32record s) = s32cnt \<and> (\<forall>i<m. set (runs_left s i) \<subseteq> {..<s32cnt}) \<and>
     (\<forall>j < s32cnt. ps32record s ! j = None \<longrightarrow> (\<exists>i<m. j \<in> set (runs_left s i)))"

definition team_inv :: "'d fpu \<Rightarrow> nat \<Rightarrow> 'd list \<Rightarrow> 'd list \<Rightarrow> nat \<Rightarrow> nat \<Rightarrow> (nat \<Rightarrow> nat) \<Rightarrow> 'd team \<Rightarrow> bool" where
  "team_inv u n A B m s32cnt len s \<longleftrightarrow> length (team_C s) = n * n \<and>
     (\<forall>c<n * n. sum_of u n A B m (team_C s ! c) (added n m len s c) (done_by n len s 0 c)) \<and>
     (\<forall>i<m. team_local u n A B m len s i) \<and> records_ok m s32cnt s"

text \<open>One thread moves: what the team has done grows by what it has done.\<close>

lemma done_by_other:
  "runs_left t j = runs_left s j \<Longrightarrow> tpc t j = tpc s j \<Longrightarrow> done_by n len t j c = done_by n len s j c"
  by (simp add: done_by_def)

lemma added_upd:
  assumes "i < m" and "\<And>j. j \<noteq> i \<Longrightarrow> runs_left t j = runs_left s j \<and> tpc t j = tpc s j"
    and "done_by n len t i c = done_by n len s i c @ zs"
  shows "added n m len t c = added n m len s c + mset zs"
proof -
  have "(\<Sum>j \<in> {..<m} - {i}. mset (done_by n len t j c)) = (\<Sum>j \<in> {..<m} - {i}. mset (done_by n len s j c))"
    by (rule sum.cong) (use assms(2) in \<open>auto simp: done_by_def\<close>)
  then show ?thesis using assms(1,3) by (simp add: added_def sum.remove [of "{..<m}" i])
qed

text \<open>A step of thread \<open>i\<close> that leaves \<open>C\<close> and what it has done alone.\<close>

lemma team_inv_quiet:
  assumes inv: "team_inv u n A B m s32cnt len s" and i: "i < m"
    and o: "\<And>j. j \<noteq> i \<Longrightarrow> runs_left t j = runs_left s j \<and> tpc t j = tpc s j" and C: "team_C t = team_C s"
    and a: "\<And>c. done_by n len t i c = done_by n len s i c"
    and l: "team_local u n A B m len t i" and r: "records_ok m s32cnt t"
  shows "team_inv u n A B m s32cnt len t"
proof -
  have ad: "added n m len t c = added n m len s c" for c
    using added_upd [OF i o, of n len c "[]"] a by simp
  have db: "done_by n len t j c = done_by n len s j c" for j c
  proof (cases "j = i")
    case False
    then show ?thesis using o by (intro done_by_other) simp_all
  qed (simp add: a)
  have "team_local u n A B m len t j" if "j < m" for j
  proof (cases "j = i")
    case False
    have "team_local u n A B m len s j" using inv that by (simp add: team_inv_def)
    then show ?thesis using o [OF False] by (simp add: team_local_def ad db cong: team_pc.case_cong)
  qed (use l in simp)
  then show ?thesis using inv C r by (simp add: team_inv_def ad db)
qed

lemma team_inv_store:
  assumes inv: "team_inv u n A B m s32cnt len s" and i: "i < m" and pc: "tpc s i = TStore k x"
    and n: "n * n < 4294967296"
  shows "team_inv u n A B m s32cnt len (team_store n k x i s)"
proof -
  let ?t = "team_store n k x i s" and ?zs = "\<lambda>c. if step_cell n k = c then [k] else []"
  have loc: "team_local u n A B m len s j" if "j < m" for j using inv that by (simp add: team_inv_def)
  have k: "k < n * n * n"
    and x: "sum_of u n A B m x (add_mset k (added n m len s (step_cell n k))) (done_by n len s 0 (step_cell n k) @ [k])"
    using loc [OF i] pc by (simp_all add: team_local_def)
  note cell = step_mm_at(1,2) [OF k n]
  have pcj: "tpc ?t j = tpc s j" "runs_left ?t j = runs_left s j" if "j \<noteq> i" for j
    using that by (simp_all add: team_store_def team_goto_def)
  have di: "done_by n len ?t i c = done_by n len s i c @ ?zs c" for c
    by (simp add: team_store_def team_goto_def done_by_def pc)
  have ad: "added n m len ?t c = added n m len s c + mset (?zs c)" for c
    using added_upd [OF i _ di] pcj by blast
  have d0: "done_by n len ?t 0 c = done_by n len s 0 c @ ?zs c" if "m = 1" for c
    using di i that by simp
  have C: "sum_of u n A B m (team_C ?t ! c) (added n m len ?t c) (done_by n len ?t 0 c)" if c: "c < n * n" for c
  proof (cases "step_cell n k = c")
    case True
    then have "team_C ?t ! c = x" using inv c by (simp add: team_inv_def team_store_def team_goto_def cell)
    then show ?thesis using x True ad [of c] d0 [of c] by (cases "m = 1") (simp_all add: sum_of_def)
  next
    case False
    then have "team_C ?t ! c = team_C s ! c" by (simp add: team_store_def team_goto_def cell)
    moreover have "sum_of u n A B m (team_C s ! c) (added n m len s c) (done_by n len s 0 c)"
      using inv c by (simp add: team_inv_def)
    ultimately show ?thesis using False ad [of c] d0 [of c] by (cases "m = 1") (simp_all add: sum_of_def)
  qed
  have "team_local u n A B m len ?t j" if "j < m" for j
  proof (cases "j = i")
    case True
    then show ?thesis using loc [OF i] k pc by (simp add: team_local_def team_store_def team_goto_def)
  next
    case False
    then have "m \<noteq> 1" using i that by auto
    then have "sum_of u n A B m y (add_mset z (added n m len ?t c)) L'"
      if "sum_of u n A B m y (add_mset z (added n m len s c)) L" for y c z L L'
      by (intro sum_of_mono [OF that]) (simp_all add: ad)
    with loc [OF that] show ?thesis unfolding team_local_def pcj [OF False] by (cases "tpc s j"; simp; blast)
  qed
  moreover have "length (team_C ?t) = n * n" "records_ok m s32cnt ?t"
    using inv by (simp_all add: team_inv_def records_ok_def team_store_def team_goto_def)
  ultimately show ?thesis using C by (simp add: team_inv_def)
qed

lemma team_inv_load:
  assumes inv: "team_inv u n A B m s32cnt len s" and i: "i < m" and pc: "tpc s i = TLoad k"
    and n: "n * n < 4294967296" "length A = n * n" "length B = n * n"
  shows "team_inv u n A B m s32cnt len (team_load u n A B k i s)"
proof -
  have loc: "length (runs_left s i) \<le> len i" "runs_left s i \<noteq> []" "k \<le> n * n * n" and len: "length (team_C s) = n * n"
    and rec: "records_ok m s32cnt s" using inv i pc by (auto simp: team_inv_def team_local_def)
  show ?thesis
  proof (cases "k < n * n * n")
    case True
    note at = step_mm_at [OF True n(1)]
    let ?x = "fadd u (team_C s ! step_cell n k) (step_term u n A B k)"
    let ?t = "team_goto i (TStore k ?x) s"
    have t: "team_load u n A B k i s = ?t"
      using True at n(2,3) len by (simp add: team_load_def Let_def step_term_def)
    have db: "done_by n len ?t j c = done_by n len s j c" for j c
      using pc by (simp add: team_goto_def done_by_def)
    have ad: "added n m len ?t c = added n m len s c" for c by (simp add: added_def db)
    have "sum_of u n A B m ?x (add_mset k (added n m len s (step_cell n k))) (done_by n len s 0 (step_cell n k) @ [k])"
      using inv at(2) by (intro sum_of_add) (simp add: team_inv_def)
    then have "team_local u n A B m len ?t i"
      using loc True unfolding team_local_def ad db by (simp add: team_goto_def)
    then show ?thesis unfolding t
      by (intro team_inv_quiet [OF inv i]) (use pc rec db in \<open>simp_all add: team_goto_def records_ok_def\<close>)
  next
    case False
    then show ?thesis using loc pc rec
      by (intro team_inv_quiet [OF inv i])
        (simp_all add: team_load_def team_goto_def done_by_def records_ok_def team_local_def)
  qed
qed

lemma concat_replicate_Suc: "concat (replicate (Suc l) xs) = concat (replicate l xs) @ xs"
  by (induction l) simp_all

lemma team_inv_record:
  assumes inv: "team_inv u n A B m s32cnt len s" and i: "i < m" and pc: "tpc s i = TRecord"
    and left: "runs_left s i = s32i # rest"
  shows "team_inv u n A B m s32cnt len (team_record w s32i rest i s)"
proof -
  have loc: "Suc (length rest) \<le> len i" and rec: "records_ok m s32cnt s"
    using inv i pc left by (auto simp: team_inv_def team_local_def)
  then have b: "s32i < length (ps32record s)" using i left by (auto simp: records_ok_def)
  show ?thesis
  proof (cases "clock_differ w (strBefore s) (strAfter s)")
    case None
    then show ?thesis using loc pc rec left
      by (intro team_inv_quiet [OF inv i])
        (simp_all add: team_record_def team_goto_def done_by_def records_ok_def team_local_def)
  next
    case (Some r)
    let ?t = "team_record w s32i rest i s"
    have t: "?t = team_goto i TBefore (s\<lparr>ps32record := (ps32record s)[s32i := Some r], runs_left := (runs_left s)(i := rest)\<rparr>)"
      using Some b by (simp add: team_record_def)
    have l: "runs_left ?t = (runs_left s)(i := rest)" and p: "ps32record ?t = (ps32record s)[s32i := Some r]"
      by (simp_all add: t team_goto_def)
    have "records_ok m s32cnt ?t" unfolding records_ok_def l p
    proof (intro conjI allI impI)
      show "length ((ps32record s)[s32i := Some r]) = s32cnt" using rec by (simp add: records_ok_def)
      have sub: "set (runs_left s j) \<subseteq> {..<s32cnt}" if "j < m" for j using rec that by (simp add: records_ok_def)
      then show "set (((runs_left s)(i := rest)) j) \<subseteq> {..<s32cnt}" if "j < m" for j
        using sub [OF i] sub [OF that] left by (cases "j = i") auto
      fix j assume j: "j < s32cnt" "(ps32record s)[s32i := Some r] ! j = None"
      then have "j \<noteq> s32i" using b by auto
      moreover from this j rec obtain h where "h < m" "j \<in> set (runs_left s h)" by (auto simp: records_ok_def)
      ultimately show "\<exists>h<m. j \<in> set (((runs_left s)(i := rest)) h)" using left by (intro exI [of _ h]) auto
    qed
    moreover have "done_by n len ?t i c = done_by n len s i c" for c
    proof -
      have "len i - length rest = Suc (len i - Suc (length rest))" using loc by linarith
      then show ?thesis using pc left
        by (simp add: done_by_def t team_goto_def concat_replicate_Suc del: replicate_Suc)
    qed
    ultimately show ?thesis using loc pc left
      by (intro team_inv_quiet [OF inv i]) (simp_all add: t team_goto_def team_local_def)
  qed
qed

text \<open>A size whose square does not wrap around, and arrays that have room for it.\<close>

definition mm2_input :: "nat \<Rightarrow> 'd list \<Rightarrow> 'd list \<Rightarrow> bool" where
  "mm2_input n A B \<longleftrightarrow> n \<le> 65535 \<and> length A = n * n \<and> length B = n * n"

lemma team_inv_step:
  assumes ok: "mm2_input n A B" and inv: "team_inv u n A B m s32cnt len s" and i: "i < m"
    and nx: "team_next u n A B w i now s = Some t"
  shows "team_inv u n A B m s32cnt len t"
proof -
  have n: "n * n < 4294967296" "length A = n * n" "length B = n * n"
    using ok mm_small [of n] by (simp_all add: mm2_input_def)
  obtain s32i rest where left: "runs_left s i = s32i # rest" using nx by (auto simp: team_next_def split: list.splits)
  have loc: "team_local u n A B m len s i" and rec: "records_ok m s32cnt s" using inv i by (simp_all add: team_inv_def)
  show ?thesis
  proof (cases "tpc s i")
    case TBefore
    with nx left have t: "t = team_goto i (TLoad 0) (s\<lparr>strBefore := now\<rparr>)" by (simp add: team_next_def)
    show ?thesis unfolding t using TBefore loc rec left
      by (intro team_inv_quiet [OF inv i]) (simp_all add: team_goto_def done_by_def team_local_def records_ok_def)
  next
    case (TLoad k)
    with nx left show ?thesis using team_inv_load [OF inv i TLoad n] by (simp add: team_next_def)
  next
    case (TStore k x)
    with nx left show ?thesis using team_inv_store [OF inv i TStore n(1)] by (simp add: team_next_def)
  next
    case TAfter
    with nx left have t: "t = team_goto i TRecord (s\<lparr>strAfter := now\<rparr>)" by (simp add: team_next_def)
    show ?thesis unfolding t using TAfter loc rec
      by (intro team_inv_quiet [OF inv i]) (simp_all add: team_goto_def done_by_def team_local_def records_ok_def)
  next
    case TRecord
    with nx left have "t = team_record w s32i rest i s" by (simp add: team_next_def)
    then show ?thesis using team_inv_record [OF inv i TRecord left] by simp
  qed (use nx left in \<open>simp_all add: team_next_def\<close>)
qed

lemma team_inv_init:
  assumes init: "team_init u n m s32cnt s"
  shows "team_inv u n A B m s32cnt (\<lambda>i. length (runs_left s i)) s"
proof -
  have z: "done_by n (\<lambda>i. length (runs_left s i)) s i c = []" for i c
    using init by (simp add: done_by_def team_init_def)
  have "(\<Union>i<m. set (runs_left s i)) = {..<s32cnt}"
    using init by (simp add: team_init_def atLeast0LessThan lessThan_def)
  then have "set (runs_left s i) \<subseteq> {..<s32cnt}" if "i < m" for i using that by blast
  moreover have "\<exists>i<m. j \<in> set (runs_left s i)" if "j < s32cnt" for j
    using that \<open>(\<Union>i<m. set (runs_left s i)) = {..<s32cnt}\<close> by blast
  ultimately have "records_ok m s32cnt s" using init by (simp add: records_ok_def team_init_def)
  moreover have "sum_of u n A B m (fzero u) M []" for M
    by (auto simp: sum_of_def step_sum_def intro: exI [of _ "[]"])
  ultimately show ?thesis using init
    by (simp add: team_inv_def team_local_def team_init_def z)
qed

interpretation team: invariant_system "\<lambda>s. mm2_input n A B \<and> team_init u n m s32cnt s \<and> len = (\<lambda>i. length (runs_left s i))"
  "sched (team_next u n A B w) m" "\<lambda>s. mm2_input n A B \<and> team_inv u n A B m s32cnt len s" for u n A B w m s32cnt len
  by unfold_locales (auto elim!: schedE intro: team_inv_init team_inv_step)

text \<open>The repetitions are shared out completely.\<close>

lemma team_init_total:
  assumes "team_init u n m s32cnt s"
  shows "(\<Sum>i<m. length (runs_left s i)) = s32cnt"
proof -
  have "length (concat (map (runs_left s) [0..<m])) = s32cnt"
    using assms distinct_card [of "concat (map (runs_left s) [0..<m])"] by (simp add: team_init_def)
  then show ?thesis
    by (simp add: length_concat comp_def interv_sum_list_conv_sum_set_nat atLeast0LessThan)
qed

lemma team_done_by:
  assumes inv: "team_inv u n A B m s32cnt len t" and "team_done m t" and "i < m"
  shows "done_by n len t i c = concat (replicate (len i) (cell_steps n (n * n * n) c))"
proof -
  have "runs_left t i = []" using assms(2,3) by (simp add: team_done_def list_all_iff)
  moreover have "team_local u n A B m len t i" using inv assms(3) by (simp add: team_inv_def)
  ultimately show ?thesis by (simp add: team_local_def done_by_def)
qed

lemma count_concat_replicate: "count (mset (concat (replicate l xs))) k = l * count (mset xs) k"
  by (induction l) simp_all

lemma team_done_count:
  assumes "team_inv u n A B m s32cnt len t" and "team_done m t"
  shows "count (added n m len t c) k \<le> (\<Sum>i<m. len i)"
proof -
  have "distinct (cell_steps n (n * n * n) c)" by (simp add: cell_steps_def)
  then have "count (mset (cell_steps n (n * n * n) c)) k \<le> 1" by (simp add: distinct_count_atmost_1)
  then have "count (mset (done_by n len t i c)) k \<le> len i" if "i < m" for i
    using team_done_by [OF assms that] mult_le_mono2 [of _ 1 "len i"] by (simp add: count_concat_replicate)
  then show ?thesis unfolding added_def count_sum by (intro sum_mono) simp
qed

text \<open>The steps of a cell as the indices they are about.\<close>

lemma count_list_inverse:
  "\<forall>k \<in> set ks. g k = i \<longleftrightarrow> k = f i \<Longrightarrow> count_list (map g ks) i = count_list ks (f i)"
  by (induction ks) auto

lemma cell_history:
  assumes rc: "r < n" "c < n" and ks: "set ks \<subseteq> set (cell_steps n (n * n * n) (r * n + c))"
    and cnt: "\<And>k. count_list ks k \<le> l"
  obtains js where "step_sum u n A B ks = mm_sum u n A B (fzero u) r c js" and "set js \<subseteq> {..<n}"
    and "\<And>i. count_list js i \<le> l" and "js = map (step_index n) ks"
proof -
  let ?f = "\<lambda>i. c * (n * n) + r * n + i" and ?js = "map (step_index n) ks"
  have inv: "\<exists>i<n. k = ?f i \<and> step_index n k = i" if "k \<in> set ks" for k
  proof -
    have "k \<in> ?f ` {..<n}" using ks that unfolding cell_steps_all [OF rc] set_map atLeast_upt by blast
    then obtain i where i: "i < n" "k = ?f i" by blast
    then show ?thesis using step_decode(3) [OF rc i(1)] by blast
  qed
  have fg: "?f (step_index n k) = k \<and> step_index n k < n" if "k \<in> set ks" for k using inv [OF that] by metis
  have fs: "map ?f ?js = ks" unfolding map_map by (rule map_idI) (simp only: comp_apply fg)
  have sub: "set ?js \<subseteq> {..<n}" using inv by fastforce
  have "step_sum u n A B ks = mm_sum u n A B (fzero u) r c ?js"
    using step_sum_cell [OF rc sub, of u A B] unfolding fs .
  moreover have "count_list ?js i \<le> l" for i
  proof (cases "i < n")
    case True
    then have "count_list ?js i = count_list ks (?f i)"
      using fg step_decode(3) [OF rc] by (intro count_list_inverse) metis
    then show ?thesis using cnt by simp
  next
    case False
    then have "i \<notin> set ?js" using sub by auto
    then show ?thesis by (simp add: count_list_0_iff)
  qed
  ultimately show thesis using that sub by blast
qed

text \<open>An element of \<open>C\<close> at the end.\<close>

lemma team_done_cell:
  assumes inv: "team_inv u n A B m s32cnt len t" and fin: "team_done m t" and rc: "r < n" "c < n"
    and total: "(\<Sum>i<m. len i) = s32cnt"
  shows "\<exists>js. team_C t ! (r * n + c) = mm_sum u n A B (fzero u) r c js \<and> set js \<subseteq> {..<n} \<and>
    (\<forall>i. count_list js i \<le> s32cnt) \<and> (m = 1 \<longrightarrow> js = concat (replicate s32cnt [0..<n]))"
proof -
  let ?c = "r * n + c"
  have "sum_of u n A B m (team_C t ! ?c) (added n m len t ?c) (done_by n len t 0 ?c)"
    using inv mm_lt [OF rc] by (simp add: team_inv_def)
  then obtain ks where ks: "team_C t ! ?c = step_sum u n A B ks" "mset ks \<subseteq># added n m len t ?c"
    and one: "m = 1 \<longrightarrow> ks = done_by n len t 0 ?c" by (auto simp: sum_of_def)
  have "count_list ks k \<le> s32cnt" for k
    using mset_subset_eq_count [OF ks(2), of k] team_done_count [OF inv fin, of ?c k] total by (simp add: count_mset)
  moreover have "set ks \<subseteq> set (cell_steps n (n * n * n) ?c)"
  proof
    fix k assume "k \<in> set ks"
    then have "k \<in># added n m len t ?c" using ks(2) mset_subset_eqD by fastforce
    then obtain i where "i < m" "k \<in> set (done_by n len t i ?c)" by (auto simp: added_def set_mset_sum)
    then show "k \<in> set (cell_steps n (n * n * n) ?c)" by (simp add: team_done_by [OF inv fin] split: if_splits)
  qed
  ultimately obtain js where js: "step_sum u n A B ks = mm_sum u n A B (fzero u) r c js" "set js \<subseteq> {..<n}"
      "\<And>i. count_list js i \<le> s32cnt" "js = map (step_index n) ks"
    using cell_history [OF rc, of ks s32cnt u A B thesis] by blast
  have "map (step_index n) (cell_steps n (n * n * n) ?c) = [0..<n]"
    unfolding cell_steps_all [OF rc] map_map by (rule map_idI) (simp add: step_decode(3) [OF rc])
  then have "js = concat (replicate s32cnt [0..<n])" if "m = 1"
    using js(4) one team_done_by [OF inv fin, of 0 ?c] total that by (simp add: map_concat)
  moreover have "team_C t ! ?c = mm_sum u n A B (fzero u) r c js" using js(1) ks(1) by simp
  ultimately show ?thesis using js(2,3) by blast
qed

lemma team_done_records: "records_ok m s32cnt t \<Longrightarrow> team_done m t \<Longrightarrow> list_all (\<lambda>r. r \<noteq> None) (ps32record t)"
  by (force simp: records_ok_def team_done_def list_all_length)

section \<open>Properties\<close>

text \<open>C22: with any floating-point unit, for a size of at most 65535, arrays that could be allocated and any
  way the repetitions of \<open>parallel_dense_mm2\<close> are shared out and interleaved: no access is out of bounds; when all
  are done each has its time recorded, and every element of \<open>C\<close> is a sum of the products of its row and column,
  rounded as it is added up, in which each product occurs at most \<open>s32cnt\<close> times: the races on \<open>C\<close> can only lose
  updates. With a team of one thread it is the sum in index order, \<open>s32cnt\<close> times over.\<close>

theorem mm2_team_total:
  assumes "mm2_input n A B" and "team_init u n m s32cnt s"
    and "(sched (team_next u n A B w) m)\<^sup>*\<^sup>* s t"
  shows "list_all (\<lambda>i. tpc t i \<noteq> TOut) [0..<m] \<and>
    (team_done m t \<longrightarrow> list_all (\<lambda>r. r \<noteq> None) (ps32record t) \<and>
      (\<forall>r<n. \<forall>c<n. \<exists>js. team_C t ! (r * n + c) = mm_sum u n A B (fzero u) r c js \<and> set js \<subseteq> {..<n} \<and>
        (\<forall>i. count_list js i \<le> s32cnt) \<and> (m = 1 \<longrightarrow> js = concat (replicate s32cnt [0..<n]))))"
proof -
  let ?len = "\<lambda>i. length (runs_left s i)"
  have inv: "team_inv u n A B m s32cnt ?len t"
    using team.steps_inv [OF assms(3), of s32cnt ?len] assms(1) team_inv_init [OF assms(2)] by blast
  then have "tpc t i \<noteq> TOut" if "i < m" for i using that by (auto simp: team_inv_def team_local_def)
  moreover have "list_all (\<lambda>r. r \<noteq> None) (ps32record t)" if "team_done m t"
    using inv that by (intro team_done_records [of m s32cnt]) (simp_all add: team_inv_def)
  ultimately show ?thesis
    using team_done_cell [OF inv _ _ _ team_init_total [OF assms(2)]] by (simp add: list_all_iff)
qed

text \<open>The witness is a run of two threads in which both load the element before either stores it.\<close>

theorem mm2_team_total_witness:
  "\<exists>s t. team_init rat_fpu 1 2 2 s \<and> (sched (team_next rat_fpu 1 [3] [7] 32) 2)\<^sup>*\<^sup>* s t \<and> team_done 2 t \<and>
     list_all (\<lambda>r. r \<noteq> None) (ps32record t) \<and> team_C t = [21] \<and>
     (\<exists>js. 21 = mm_sum rat_fpu 1 [3] [7] 0 0 0 js \<and> set js \<subseteq> {0} \<and> count_list js 0 \<le> 2)"
proof -
  let ?s = "\<lparr>team_C = [0], strBefore = Timespec 0 0, strAfter = Timespec 0 0, ps32record = [None, None],
    runs_left = (\<lambda>_. [])(0 := [0], 1 := [1]), tpc = (\<lambda>_. TBefore)\<rparr>"
  let ?es = "map (\<lambda>(i, ns). (i, Timespec 1 ns)) [(0, 10), (1, 20), (0, 0), (1, 0), (0, 0), (1, 0), (0, 0), (1, 0),
    (0, 40), (0, 0), (1, 50), (1, 0)] :: (nat \<times> timespec) list"
  have i: "team_init rat_fpu 1 2 2 ?s" by (auto simp: team_init_def rat_fpu_def numeral_2_eq_2)
  obtain t where t: "run (team_next rat_fpu 1 [3] [7] 32) ?es ?s = Some t" "team_done 2 t" "team_C t = [21]"
    by (simp add: team_next_def team_load_def team_store_def team_record_def team_goto_def step_row_def step_col_def
        step_index_def mm_at_def rat_fpu_def clock_differ_def is_long_def Let_def team_done_def numeral_2_eq_2)
  have st: "(sched (team_next rat_fpu 1 [3] [7] 32) 2)\<^sup>*\<^sup>* ?s t" by (rule run_steps [OF t(1)]) simp
  have "mm2_input 1 [3 :: rat] [7]" by (simp add: mm2_input_def)
  note mm2_team_total [OF this i st]
  then have "list_all (\<lambda>r. r \<noteq> None) (ps32record t)"
    and "\<exists>js. team_C t ! 0 = mm_sum rat_fpu 1 [3] [7] (fzero rat_fpu) 0 0 js \<and> set js \<subseteq> {..<1} \<and> count_list js 0 \<le> 2"
    using t(2) by (auto simp: numeral_2_eq_2)
  then show ?thesis using i st t(2,3)
    by (intro exI [of _ ?s] exI [of _ t]) (auto simp: rat_fpu_def lessThan_Suc)
qed

end
