(* ===== verification/PeriodTask.thy ===== *)
theory PeriodTask
  imports Timespec
begin

text \<open>
  The periodic real-time task of \<open>studio12/period_task.c\<close> (\<open>studio08/period_task.c\<close> is the same
  program): the options, the job count and the timer, the signal handler \<open>work\<close> that runs one job
  per timer signal, and the table of deadline misses that it prints before it exits. The program
  reads \<open>rdtsc\<close>, so it runs on a desktop: \<open>long\<close> has 64 bits. \<open>ticks\<close> is \<open>64 word\<close>; \<open>int\<close>
  values are integers, with \<open>wrap32\<close> where the compiled code wraps. \<open>getopt\<close>'s results, the
  readings of the time stamp counter and the outcome of the system calls are arguments.
\<close>

section \<open>The program\<close>

type_synonym ticks = "64 word"

text \<open>\<open>rdtsc\<close> (the build for x86-64): the instruction leaves the counter in two registers of 32 bits.\<close>

unbundle bit_operations_syntax

definition rdtsc :: "32 word \<Rightarrow> 32 word \<Rightarrow> ticks" where
  "rdtsc lo hi = ucast lo OR push_bit 32 (ucast hi)"

text \<open>It puts the counter together again: nothing of either half is lost.\<close>

lemma rdtsc_reads_counter: "rdtsc (ucast tsc) (ucast (drop_bit 32 tsc)) = tsc"
  unfolding rdtsc_def
  by (rule bit_word_eqI) (auto simp: bit_simps)

lemma rdtsc_inj: "rdtsc lo hi = rdtsc lo' hi' \<longleftrightarrow> lo = lo' \<and> hi = hi'"
proof
  assume eq: "rdtsc lo hi = rdtsc lo' hi'"
  have lo: "ucast (rdtsc lo hi) = lo" and hi: "ucast (drop_bit 32 (rdtsc lo hi)) = hi" for lo hi
    unfolding rdtsc_def by (rule bit_word_eqI, auto simp: bit_simps dest: bit_imp_le_length)+
  show "lo = lo' \<and> hi = hi'" using lo [of lo hi] lo [of lo' hi'] hi [of lo hi] hi [of lo' hi'] eq by simp
qed simp

abbreviation (input) MHZ :: int where
  "MHZ \<equiv> 3299140"

definition MAX_DATA :: nat where
  "MAX_DATA = 20000"

record RECORD =
  dispatch :: ticks
  finish :: ticks

record task =
  wcet :: int
  period :: int
  duration :: int
  priority :: int
  job_count :: int
  start_time :: ticks
  idx :: nat
  jobs :: "nat \<Rightarrow> RECORD"

definition task0 :: task where
  "task0 = \<lparr>wcet = 0, period = 0, duration = 0, priority = 0, job_count = 0, start_time = 0, idx = 0,
     jobs = \<lambda>_. \<lparr>dispatch = 0, finish = 0\<rparr>\<rparr>"

text \<open>The option loop: \<open>Inl\<close> is the exit code.\<close>

fun period_opts :: "(char \<times> string) list \<Rightarrow> task \<Rightarrow> int + task" where
  "period_opts [] t = Inr t"
| "period_opts ((o', optarg) # os) t =
     (if o' = CHR ''c'' then
        (let v = atoi64 optarg in if v \<le> 0 then Inl 1 else period_opts os (t\<lparr>wcet := v\<rparr>))
      else if o' = CHR ''p'' then
        (let v = atoi64 optarg in if v \<le> 0 then Inl 1 else period_opts os (t\<lparr>period := v\<rparr>))
      else if o' = CHR ''d'' then
        (let v = atol64 optarg in if v \<le> 0 then Inl 1 else period_opts os (t\<lparr>duration := v\<rparr>))
      else if o' = CHR ''l'' then
        (let v = atoi64 optarg in if v \<le> 0 then Inl 1 else period_opts os (t\<lparr>priority := v\<rparr>))
      else Inl 1)"

definition jobs_of :: "int \<Rightarrow> int \<Rightarrow> int" where
  "jobs_of d p = wrap32 ((d - 1) sdiv p + 1)"

text \<open>\<open>it_interval\<close> and \<open>it_value\<close>; the two correction constants of the source are 0.\<close>

definition timer_interval :: "int \<Rightarrow> timespec" where
  "timer_interval p = Timespec (p sdiv 1000) (p smod 1000 * 1000000 + 0)"

definition timer_value :: "timespec \<Rightarrow> timespec" where
  "timer_value now = Timespec (tv_sec now + 1) (tv_nsec now + 0)"

text \<open>
  \<open>main\<close> up to the waiting loop. \<open>sys k\<close> tells whether the \<open>k\<close>-th system call succeeds
  (\<open>sched_setaffinity\<close>, \<open>sched_setscheduler\<close>, \<open>sigaction\<close>, \<open>clock_gettime\<close>, \<open>timer_create\<close>,
  \<open>timer_settime\<close>); each failure exits with 1.
\<close>

definition period_main ::
    "(nat \<Rightarrow> bool) \<Rightarrow> timespec \<Rightarrow> ticks \<Rightarrow> (char \<times> string) list \<Rightarrow> int + (task \<times> timespec \<times> timespec)" where
  "period_main sys now tsc opts =
     (case period_opts opts task0 of
        Inl e \<Rightarrow> Inl e
      | Inr t \<Rightarrow>
          if wcet t = 0 \<or> period t = 0 \<or> duration t = 0 \<or> priority t = 0 then Inl 1
          else if \<not> list_all sys [0, 1, 2, 3, 4, 5] then Inl 1
          else Inr (t\<lparr>job_count := jobs_of (duration t) (period t), start_time := tsc + 3299140000\<rparr>,
                    timer_interval (period t), timer_value now))"

text \<open>
  \<open>print_res\<close>: the state of its loop is \<open>start_time\<close>, \<open>miss\<close> and the printed rows. The product
  \<open>period*MHZ\<close> is an \<open>int\<close> product, converted to \<open>unsigned long long\<close> for the sum.
\<close>

record print_st =
  p_start :: ticks
  miss :: int
  rows :: "(ticks \<times> ticks \<times> ticks \<times> ticks) list"

definition period_ticks :: "task \<Rightarrow> ticks" where
  "period_ticks t = of_int (wrap32 (period t * MHZ))"

definition print_row :: "task \<Rightarrow> nat \<Rightarrow> print_st \<Rightarrow> print_st option" where
  "print_row t i s =
     (if i < MAX_DATA then
        let d = jobs t i in
        Some \<lparr>p_start = p_start s + period_ticks t,
              miss = (if finish d > p_start s + period_ticks t then miss s + 1 else miss s),
              rows = rows s @ [(p_start s div of_int MHZ, dispatch d div of_int MHZ,
                                finish d div of_int MHZ, (finish d - dispatch d) div of_int MHZ)]\<rparr>
      else None)"

definition print_res :: "task \<Rightarrow> print_st option" where
  "print_res t = for_up 0 (nat (job_count t)) (print_row t) \<lparr>p_start = start_time t, miss = 0, rows = []\<rparr>"

text \<open>
  The handler, with the two readings of the counter: it stores outside \<open>data\<close> (\<open>None\<close>), or prints
  and ends the process, or returns.
\<close>

definition work :: "ticks \<times> ticks \<Rightarrow> task \<Rightarrow> (print_st + task) option" where
  "work clk t =
     (if int (idx t) \<ge> job_count t then map_option Inl (print_res t)
      else if idx t < MAX_DATA then
        Some (Inr (t\<lparr>jobs := (jobs t)(idx t := \<lparr>dispatch = fst clk, finish = snd clk\<rparr>), idx := idx t + 1\<rparr>))
      else None)"

text \<open>A sequence of timer signals.\<close>

fun deliver :: "(ticks \<times> ticks) list \<Rightarrow> task \<Rightarrow> (print_st + task) option" where
  "deliver [] t = Some (Inr t)"
| "deliver (clk # clks) t =
     (case work clk t of
        None \<Rightarrow> None
      | Some (Inl p) \<Rightarrow> Some (Inl p)
      | Some (Inr t') \<Rightarrow> deliver clks t')"

section \<open>The handler\<close>

lemma deliver_jobs:
  assumes "int (idx t + length clks) \<le> job_count t" and "idx t + length clks \<le> MAX_DATA"
  shows "deliver (clks @ rest) t = deliver rest (t\<lparr>idx := idx t + length clks,
    jobs := (\<lambda>i. if idx t \<le> i \<and> i < idx t + length clks
       then \<lparr>dispatch = fst (clks ! (i - idx t)), finish = snd (clks ! (i - idx t))\<rparr> else jobs t i)\<rparr>)"
  using assms
proof (induction clks arbitrary: t)
  case Nil
  have "(\<lambda>i. if idx t \<le> i \<and> i < idx t then x i else jobs t i) = jobs t" for x by (rule ext) auto
  then show ?case by simp
next
  case (Cons clk clks)
  let ?t = "t\<lparr>jobs := (jobs t)(idx t := \<lparr>dispatch = fst clk, finish = snd clk\<rparr>), idx := idx t + 1\<rparr>"
  have "work clk t = Some (Inr ?t)" using Cons.prems by (simp add: work_def)
  then have "deliver ((clk # clks) @ rest) t = deliver (clks @ rest) ?t" by simp
  also have "\<dots> = deliver rest (?t\<lparr>idx := idx ?t + length clks,
    jobs := (\<lambda>i. if idx ?t \<le> i \<and> i < idx ?t + length clks
       then \<lparr>dispatch = fst (clks ! (i - idx ?t)), finish = snd (clks ! (i - idx ?t))\<rparr> else jobs ?t i)\<rparr>)"
    using Cons.prems by (intro Cons.IH) auto
  also have "\<dots> = deliver rest (t\<lparr>idx := idx t + length (clk # clks),
    jobs := (\<lambda>i. if idx t \<le> i \<and> i < idx t + length (clk # clks)
       then \<lparr>dispatch = fst ((clk # clks) ! (i - idx t)), finish = snd ((clk # clks) ! (i - idx t))\<rparr> else jobs t i)\<rparr>)"
    by (rule arg_cong [of _ _ "deliver rest"]) (auto simp: fun_eq_iff nth_Cons' intro!: arg_cong2 [of _ _ _ _ nth])
  finally show ?case .
qed

text \<open>\<open>print_res\<close> compares each job with its own deadline.\<close>

lemma print_res_rows:
  assumes "nat (job_count t) \<le> MAX_DATA"
  shows "\<exists>p. print_res t = Some p \<and> length (rows p) = nat (job_count t) \<and>
    miss p = int (length (filter (\<lambda>i. finish (jobs t i) > start_time t + of_nat (Suc i) * period_ticks t)
                            [0..<nat (job_count t)]))"
proof -
  let ?n = "nat (job_count t)" let ?late = "\<lambda>i. finish (jobs t i) > start_time t + of_nat (Suc i) * period_ticks t"
  let ?I = "\<lambda>k (p :: print_st). p_start p = start_time t + of_nat k * period_ticks t \<and> length (rows p) = k \<and>
    miss p = int (length (filter ?late [0..<k]))"
  have "\<exists>p. each (print_row t) [0..<?n] \<lparr>p_start = start_time t, miss = 0, rows = []\<rparr> = Some p \<and> ?I (length [0..<?n]) p"
  proof (rule each_invariant [where I = ?I])
    fix k and p :: print_st assume k: "k < length [0..<?n]" and I: "?I k p"
    then show "\<exists>v. print_row t ([0..<?n] ! k) p = Some v \<and> ?I (Suc k) v"
      using assms by (simp add: print_row_def Let_def algebra_simps)
  qed simp
  then show ?thesis unfolding print_res_def for_up_each by auto
qed

lemma uint_shift:
  assumes "0 \<le> x" and "uint w + int k * x < 2 ^ 64"
  shows "uint (w + of_nat k * of_int x :: 64 word) = uint w + int k * x"
proof -
  have "w + of_nat k * of_int x = (of_int (uint w + int k * x) :: 64 word)" by simp
  moreover have "0 \<le> uint w + int k * x" using assms(1) by simp
  ultimately show ?thesis using assms(2) by (simp only: uint_word_of_int_eq) (simp add: take_bit_int_eq_self)
qed

lemma period_ticks_small:
  assumes "0 < period t" and "period t \<le> 650"
  shows "period_ticks t = of_int (period t * MHZ)"
proof -
  have "wrap32 (period t * 3299140) = period t * 3299140" using assms by (intro wrap32_id) auto
  then show ?thesis by (simp only: period_ticks_def)
qed

text \<open>The counter of jobs is never compared with the size of the array.\<close>

lemma work_overflows_data:
  assumes "idx t = 0" and "int MAX_DATA < job_count t" and "length clks = MAX_DATA"
  shows "deliver (clks @ [clk]) t = None"
proof -
  have "deliver (clks @ [clk]) t = deliver [clk] (t\<lparr>idx := MAX_DATA,
    jobs := (\<lambda>i. if idx t \<le> i \<and> i < idx t + length clks
       then \<lparr>dispatch = fst (clks ! (i - idx t)), finish = snd (clks ! (i - idx t))\<rparr> else jobs t i)\<rparr>)"
    using assms deliver_jobs [of t clks "[clk]"] by simp
  also have "\<dots> = None" using assms(2) by (simp add: work_def)
  finally show ?thesis .
qed

text \<open>
  From 651 ms on, \<open>period*MHZ\<close> exceeds \<open>INT_MAX\<close>: as compiled the product is negative, the
  deadline lies before the release, and a job is counted as late whenever it ends.
\<close>

lemma long_period_always_late:
  assumes "651 \<le> period t" and "period t \<le> 1301" and "job_count t = 1" and "4294967296 \<le> uint (start_time t)"
    and "uint (start_time t) \<le> uint (finish (jobs t 0))"
  shows "map_option miss (print_res t) = Some 1"
proof -
  let ?x = "period t * 3299140 - 4294967296"
  have "wrap32 (period t * 3299140) = wrap32 ?x" by (simp add: wrap32_eq_iff)
  also have "\<dots> = ?x" using assms(1,2) by (intro wrap32_id) auto
  finally have P: "period_ticks t = of_int ?x" by (simp only: period_ticks_def)
  have "start_time t + of_int ?x = (of_int (uint (start_time t) + ?x) :: ticks)" by simp
  moreover have "0 \<le> uint (start_time t) + ?x" "uint (start_time t) + ?x < 2 ^ 64"
    using assms(1,2,4) uint_lt2p [of "start_time t"] by auto
  ultimately have "uint (start_time t + of_int ?x) = uint (start_time t) + ?x"
    by (simp only: uint_word_of_int_eq) (simp add: take_bit_int_eq_self)
  then have "start_time t + period_ticks t < finish (jobs t 0)"
    using assms(2,5) by (simp only: P word_less_def)
  moreover have "nat (job_count t) \<le> MAX_DATA" using assms(3) by (simp add: MAX_DATA_def)
  ultimately show ?thesis using print_res_rows [of t] assms(3) by auto
qed

section \<open>Properties\<close>

text \<open>When \<open>main\<close> accepts the options, the number of jobs is the duration divided by the period,
  rounded up, and the timer's interval is the period: valid, and exact to the nanosecond.\<close>

theorem period_main_correct:
  assumes "period_main sys now tsc opts = Inr (t, itv, val)" and "duration t \<le> INT_MAX"
  shows "(job_count t - 1) * period t < duration t \<and> duration t \<le> job_count t * period t \<and>
    0 < job_count t \<and> timespec_ok itv \<and> ns_of itv = period t * 1000000"
proof -
  have pos: "0 \<le> wcet u \<and> 0 \<le> period u \<and> 0 \<le> duration u \<and> 0 \<le> priority u"
    if "period_opts os s = Inr u" "0 \<le> wcet s \<and> 0 \<le> period s \<and> 0 \<le> duration s \<and> 0 \<le> priority s" for os s u
    using that by (induction os s rule: period_opts.induct) (auto simp: Let_def split: if_splits)
  obtain u where u: "period_opts opts task0 = Inr u" "period u \<noteq> 0" "duration u \<noteq> 0"
    and t: "t = u\<lparr>job_count := jobs_of (duration u) (period u), start_time := tsc + 3299140000\<rparr>"
    and itv: "itv = timer_interval (period u)"
    using assms(1) unfolding period_main_def
    by (auto split: sum.splits if_splits)
  have "0 < period u" "0 < duration u" using pos [OF u(1)] u(2,3) by (auto simp: task0_def)
  then obtain p d where pd: "period t = p" "duration t = d" "0 < p" "0 < d" "d \<le> 2147483647"
    using t assms(2) by simp
  have sd: "(d - 1) sdiv p = (d - 1) div p" using pd by (simp add: signed_divide_int_def sgn_if)
  have "(d - 1) div p \<le> d - 1" using pd zdiv_mono2 [of "d - 1" 1 p] by simp
  moreover have "0 \<le> (d - 1) div p" using pd by (simp add: pos_imp_zdiv_nonneg_iff)
  ultimately have "wrap32 ((d - 1) div p + 1) = (d - 1) div p + 1" using pd(5) by (intro wrap32_id) auto
  then have n: "job_count t = (d - 1) div p + 1" using pd t sd by (auto simp: jobs_of_def)
  have "(d - 1) div p * p + (d - 1) mod p = d - 1" "0 \<le> (d - 1) mod p" "(d - 1) mod p < p" using pd by simp_all
  then have "(d - 1) div p * p < d" "d \<le> (d - 1) div p * p + p" by linarith+
  moreover have "timespec_ok itv \<and> ns_of itv = p * 1000000"
  proof -
    have "p div 1000 * 1000 + p mod 1000 = p" "0 \<le> p mod 1000" "p mod 1000 < 1000" by simp_all
    then have "p div 1000 * 1000000000 + p mod 1000 * 1000000 = p * 1000000" by linarith
    moreover have "0 \<le> p div 1000" using pd by (simp add: pos_imp_zdiv_nonneg_iff)
    moreover have "period u = p" using pd(1) t by simp
    ultimately show ?thesis using pd
      by (simp add: itv timer_interval_def timespec_ok_def ns_of_def signed_divide_int_def signed_modulo_int_def sgn_if)
  qed
  ultimately show ?thesis using n pd \<open>0 \<le> (d - 1) div p\<close> by (simp add: algebra_simps)
qed

theorem period_main_correct_witness:
  "\<exists>t itv val. period_main (\<lambda>k. True) (Timespec 5 0) 0 [(CHR ''c'', ''2''), (CHR ''p'', ''1500''), (CHR ''d'', ''4000''), (CHR ''l'', ''9'')]
     = Inr (t, itv, val) \<and> 2 < job_count t \<and> ns_of itv = 1500000000"
proof -
  let ?opts = "[(CHR ''c'', ''2''), (CHR ''p'', ''1500''), (CHR ''d'', ''4000''), (CHR ''l'', ''9'')]"
  have a: "atoi64 ''2'' = 2" "atoi64 ''1500'' = 1500" "atol64 ''4000'' = 4000" "atoi64 ''9'' = 9" by code_simp+
  obtain t itv val where m: "period_main (\<lambda>k. True) (Timespec 5 0) 0 ?opts = Inr (t, itv, val)"
    and t: "duration t = 4000" "period t = 1500"
    by (simp add: period_main_def a Let_def task0_def)
  have "duration t \<le> 2147483647" using t by simp
  from period_main_correct [OF m this] m t show ?thesis by (intro exI conjI) auto
qed

text \<open>C23: a task with a period of at most 650 ms and at most 20000 jobs: after one timer signal per
  job, the next one prints a row per job, and \<open>miss\<close> is the number of jobs that finished after their
  own deadline, the end of their period counted from the start; then the process ends.\<close>

theorem period_task_misses:
  assumes "idx t = 0" and "int (length clks) = job_count t" and "length clks \<le> MAX_DATA"
    and "0 < period t" and "period t \<le> 650"
    and "uint (start_time t) + job_count t * (period t * 3299140) < 2 ^ 64"
  shows "\<exists>p. deliver (clks @ [clk]) t = Some (Inl p) \<and> length (rows p) = length clks \<and>
    miss p = int (length (filter (\<lambda>i. uint (snd (clks ! i)) > uint (start_time t) + int (Suc i) * (period t * 3299140))
      [0..<length clks]))"
proof -
  let ?n = "length clks" and ?x = "period t * 3299140"
  let ?jobs = "\<lambda>i. if idx t \<le> i \<and> i < idx t + ?n
    then \<lparr>dispatch = fst (clks ! (i - idx t)), finish = snd (clks ! (i - idx t))\<rparr> else jobs t i"
  let ?t = "t\<lparr>idx := ?n, jobs := ?jobs\<rparr>"
  have "deliver (clks @ [clk]) t = deliver [clk] ?t"
    using assms(1-3) deliver_jobs [of t clks "[clk]"] by simp
  also have "\<dots> = map_option Inl (print_res ?t)"
    using assms(2) by (simp add: work_def split: option.split)
  finally have d: "deliver (clks @ [clk]) t = map_option Inl (print_res ?t)" .
  have n: "nat (job_count ?t) = ?n" using assms(2) by simp
  have "nat (job_count ?t) \<le> MAX_DATA" using n assms(3) by simp
  then obtain p where p: "print_res ?t = Some p" "length (rows p) = ?n"
    and m: "miss p = int (length (filter (\<lambda>i. finish (?jobs i) > start_time t + of_nat (Suc i) * period_ticks ?t) [0..<?n]))"
    using print_res_rows [of ?t] unfolding n by auto
  have late: "finish (?jobs i) > start_time t + of_nat (Suc i) * period_ticks ?t \<longleftrightarrow>
      uint (snd (clks ! i)) > uint (start_time t) + int (Suc i) * ?x" if i: "i < ?n" for i
  proof -
    have "int (Suc i) * ?x \<le> job_count t * ?x"
      using i assms(2,4) by (intro mult_right_mono) auto
    then have "uint (start_time t) + int (Suc i) * ?x < 2 ^ 64" using assms(6) by linarith
    then have "uint (start_time t + of_nat (Suc i) * of_int ?x :: ticks) = uint (start_time t) + int (Suc i) * ?x"
      using assms(4) by (intro uint_shift) auto
    moreover have "period_ticks ?t = of_int ?x" using period_ticks_small [of ?t] assms(4,5) by simp
    ultimately show ?thesis using i assms(1) by (simp add: word_less_def del: of_int_mult of_nat_Suc)
  qed
  have "filter (\<lambda>i. finish (?jobs i) > start_time t + of_nat (Suc i) * period_ticks ?t) [0..<?n] =
    filter (\<lambda>i. uint (snd (clks ! i)) > uint (start_time t) + int (Suc i) * ?x) [0..<?n]"
    using late by (intro filter_cong) auto
  with d p m show ?thesis by auto
qed

theorem period_task_misses_witness:
  "\<exists>p. deliver [(1000, 200000000), (330000000, 700000000), (0, 0)]
      (task0\<lparr>period := 100, job_count := 2, start_time := 1000\<rparr>) = Some (Inl p) \<and> miss p = 1"
  using period_task_misses [of "task0\<lparr>period := 100, job_count := 2, start_time := 1000\<rparr>"
      "[(1000, 200000000), (330000000, 700000000)]" "(0, 0)"]
  by (auto simp: task0_def MAX_DATA_def upt_conv_Cons)

end
