(* ===== verification/Gpio.thy ===== *)
theory Gpio
  imports Prelude CStrings
begin

text \<open>
  The GPIO drivers of \<open>GPIO_Prj\<close>: the register block of the BCM2837, the three functions of
  \<open>mygpio.c\<close> (kernel module), the same functions behind the mapped peripheral of
  \<open>bcm2837_gpio.c\<close> (user space), and the user-space program that toggles the LED. The block is a
  record of 32-bit words; a pin whose register does not exist is an access outside the block
  (\<open>None\<close>). What the device does with a written block is a parameter \<open>bus\<close>, of which the
  properties assume what the data sheet says of output pins.
\<close>

unbundle bit_operations_syntax

section \<open>Registers\<close>

record gpio_regs =
  GPFSEL :: "32 word list"
  GPSET :: "32 word list"
  GPCLR :: "32 word list"
  GPLV :: "32 word list"

definition gpio_ok :: "gpio_regs \<Rightarrow> bool" where
  "gpio_ok r \<longleftrightarrow> length (GPFSEL r) = 6 \<and> length (GPSET r) = 2 \<and> length (GPCLR r) = 2 \<and> length (GPLV r) = 2"

definition GPIO_MODE_INPUT :: int where
  "GPIO_MODE_INPUT = 0"

definition GPIO_MODE_OUTPUT :: int where
  "GPIO_MODE_OUTPUT = 1"

text \<open>Clear the field of the pin, then OR the mode into it: two accesses of the block.\<close>

definition set_gpio_mode ::
    "(gpio_regs \<Rightarrow> gpio_regs) \<Rightarrow> gpio_regs \<Rightarrow> nat \<Rightarrow> int \<Rightarrow> gpio_regs option" where
  "set_gpio_mode bus r s32ioid s32mode =
     (let k = s32ioid div 10; sh = s32ioid mod 10 * 3 in
      if k < length (GPFSEL r) then
        let r1 = bus (r\<lparr>GPFSEL := (GPFSEL r)[k := GPFSEL r ! k AND NOT (push_bit sh 7)]\<rparr>);
            r2 = bus (r1\<lparr>GPFSEL := (GPFSEL r1)[k := GPFSEL r1 ! k OR push_bit sh (of_int s32mode)]\<rparr>)
        in Some r2
      else None)"

definition set_gpio ::
    "(gpio_regs \<Rightarrow> gpio_regs) \<Rightarrow> gpio_regs \<Rightarrow> nat \<Rightarrow> int \<Rightarrow> gpio_regs option" where
  "set_gpio bus r s32ioid s32val =
     (let k = s32ioid div 32; b = push_bit (s32ioid mod 32) 1 in
      if s32val \<noteq> 0 then
        if k < length (GPSET r) then Some (bus (r\<lparr>GPSET := (GPSET r)[k := b]\<rparr>)) else None
      else
        if k < length (GPCLR r) then Some (bus (r\<lparr>GPCLR := (GPCLR r)[k := b]\<rparr>)) else None)"

definition get_gpio :: "gpio_regs \<Rightarrow> nat \<Rightarrow> int option" where
  "get_gpio r s32ioid =
     (let k = s32ioid div 32 in
      if k < length (GPLV r) then Some (uint (drop_bit (s32ioid mod 32) (GPLV r ! k) AND 1)) else None)"

section \<open>User space\<close>

record bcm2837_peripheral =
  addr_p :: "32 word"
  mem_fd :: int
  pstrReg :: gpio_regs

text \<open>
  \<open>open\<close> gives the descriptor, \<open>mmap\<close> the block at the address, or fails; both failures end the
  process with -1.
\<close>

definition map_peripheral ::
    "int \<Rightarrow> (32 word \<Rightarrow> gpio_regs option) \<Rightarrow> bcm2837_peripheral \<Rightarrow> int + bcm2837_peripheral" where
  "map_peripheral fd mmap p =
     (if fd < 0 then Inl (- 1)
      else
        case mmap (addr_p p) of
          None \<Rightarrow> Inl (- 1)
        | Some r \<Rightarrow> Inr (p\<lparr>mem_fd := fd, pstrReg := r\<rparr>))"

definition user_set_gpio_mode ::
    "(gpio_regs \<Rightarrow> gpio_regs) \<Rightarrow> bcm2837_peripheral \<Rightarrow> nat \<Rightarrow> int \<Rightarrow> bcm2837_peripheral option" where
  "user_set_gpio_mode bus p s32ioid s32mode =
     map_option (\<lambda>r. p\<lparr>pstrReg := r\<rparr>) (set_gpio_mode bus (pstrReg p) s32ioid s32mode)"

definition user_set_gpio ::
    "(gpio_regs \<Rightarrow> gpio_regs) \<Rightarrow> bcm2837_peripheral \<Rightarrow> nat \<Rightarrow> int \<Rightarrow> bcm2837_peripheral option" where
  "user_set_gpio bus p s32ioid s32val =
     map_option (\<lambda>r. p\<lparr>pstrReg := r\<rparr>) (set_gpio bus (pstrReg p) s32ioid s32val)"

definition user_get_gpio :: "bcm2837_peripheral \<Rightarrow> nat \<Rightarrow> int option" where
  "user_get_gpio p s32ioid = get_gpio (pstrReg p) s32ioid"

definition LED_PIN :: nat where
  "LED_PIN = 4"

definition led_line :: "int \<Rightarrow> string" where
  "led_line v = ''Set GPIO['' @ show_int (int LED_PIN) @ ''] = '' @ show_int v @ [CHR 0x0A]"

text \<open>One half of the loop body: write the pin, read it back, print.\<close>

definition led_show ::
    "(gpio_regs \<Rightarrow> gpio_regs) \<Rightarrow> int \<Rightarrow> bcm2837_peripheral \<times> string \<Rightarrow> (bcm2837_peripheral \<times> string) option" where
  "led_show bus v s =
     (case user_set_gpio bus (fst s) LED_PIN v of
        None \<Rightarrow> None
      | Some p \<Rightarrow> (case user_get_gpio p LED_PIN of None \<Rightarrow> None | Some t \<Rightarrow> Some (p, snd s @ led_line t)))"

definition led_loop ::
    "(gpio_regs \<Rightarrow> gpio_regs) \<Rightarrow> bcm2837_peripheral \<times> string \<Rightarrow> (bcm2837_peripheral \<times> string) option" where
  "led_loop bus = for_up 0 10 (\<lambda>s32i s. Option.bind (led_show bus 1 s) (led_show bus 0))"

definition led_user_main ::
    "(gpio_regs \<Rightarrow> gpio_regs) \<Rightarrow> int \<Rightarrow> (32 word \<Rightarrow> gpio_regs option) \<Rightarrow> bcm2837_peripheral \<Rightarrow>
     int + (bcm2837_peripheral \<times> string) option" where
  "led_user_main bus fd mmap gstrgpio =
     (case map_peripheral fd mmap gstrgpio of
        Inl e \<Rightarrow> Inl e
      | Inr p \<Rightarrow> Inr
          (case user_set_gpio_mode bus p LED_PIN GPIO_MODE_OUTPUT of
             None \<Rightarrow> None
           | Some p1 \<Rightarrow>
               (case led_loop bus (p1, []) of
                  None \<Rightarrow> None
                | Some (p2, out) \<Rightarrow>
                    map_option (\<lambda>p3. (p3, out)) (user_set_gpio_mode bus p2 LED_PIN GPIO_MODE_INPUT))))"

section \<open>Pin functions\<close>

text \<open>The 3-bit function field of a pin.\<close>

definition pin_mode :: "gpio_regs \<Rightarrow> nat \<Rightarrow> 32 word" where
  "pin_mode r pin = drop_bit (pin mod 10 * 3) (GPFSEL r ! (pin div 10)) AND 7"

definition pin_level :: "gpio_regs \<Rightarrow> nat \<Rightarrow> bool" where
  "pin_level r pin = bit (GPLV r ! (pin div 32)) (pin mod 32)"

text \<open>
  What the data sheet says of a write to the block: the function fields are plain storage, a 1
  written to a set or clear bit of an output pin drives that pin, no other output pin changes, and
  the set and clear registers hold nothing.
\<close>

definition gpio_bus :: "(gpio_regs \<Rightarrow> gpio_regs) \<Rightarrow> bool" where
  "gpio_bus bus \<longleftrightarrow> (\<forall>r. gpio_ok r \<longrightarrow>
     gpio_ok (bus r) \<and> GPFSEL (bus r) = GPFSEL r \<and> GPSET (bus r) = [0, 0] \<and> GPCLR (bus r) = [0, 0] \<and>
     (\<forall>pin < 54. pin_mode r pin = 1 \<longrightarrow>
        pin_level (bus r) pin =
          ((pin_level r pin \<or> bit (GPSET r ! (pin div 32)) (pin mod 32))
           \<and> \<not> bit (GPCLR r ! (pin div 32)) (pin mod 32))))"

lemma gpio_busD:
  assumes "gpio_bus bus" and "gpio_ok r"
  shows "gpio_ok (bus r)" and "GPFSEL (bus r) = GPFSEL r" and "GPSET (bus r) = [0, 0]" and "GPCLR (bus r) = [0, 0]"
    and "pin < 54 \<Longrightarrow> pin_mode r pin = 1 \<Longrightarrow> pin_level (bus r) pin =
          ((pin_level r pin \<or> bit (GPSET r ! (pin div 32)) (pin mod 32))
           \<and> \<not> bit (GPCLR r ! (pin div 32)) (pin mod 32))"
  using assms unfolding gpio_bus_def by blast+

text \<open>A field update on one word: the field gets the value, the other fields of the word stay.\<close>

definition field_upd :: "32 word \<Rightarrow> nat \<Rightarrow> 32 word \<Rightarrow> 32 word" where
  "field_upd w i m = (w AND NOT (push_bit (i * 3) 7)) OR push_bit (i * 3) m"

lemma bit_word_7: "bit (7 :: 32 word) n \<longleftrightarrow> n < 3"
proof -
  have "(7 :: 32 word) = mask 3" by (simp add: mask_eq_exp_minus_1)
  then show ?thesis by (simp only: bit_mask_iff) auto
qed

lemma small_mode_bits:
  assumes "0 \<le> m" "m < 8" "bit (of_int m :: 32 word) n"
  shows "n < 3"
proof -
  have "take_bit 3 m = m" using assms(1,2) by (simp add: take_bit_int_eq_self)
  moreover have "bit m n" using assms(3) by (simp add: bit_word_of_int_iff)
  ultimately have "bit (take_bit 3 m) n" by simp
  then show ?thesis by (simp add: bit_take_bit_iff)
qed
lemmas field_bits = bit_and_iff bit_or_iff bit_not_iff bit_push_bit_iff bit_drop_bit_eq bit_word_7 o_def
  possible_bit_word field_upd_def

lemma field_upd_same:
  assumes "i < 10" and "0 \<le> m" "m < 8"
  shows "drop_bit (i * 3) (field_upd w i (of_int m)) AND 7 = of_int m"
proof (rule bit_word_eqI)
  fix n assume "n < LENGTH(32)"
  show "bit (drop_bit (i * 3) (field_upd w i (of_int m)) AND 7) n = bit (of_int m :: 32 word) n"
    unfolding field_bits
    using assms small_mode_bits [OF assms(2,3), of n]
    by auto
qed

lemma field_upd_other:
  assumes "i < 10" and "j < 10" and "i \<noteq> j" and "0 \<le> m" "m < 8"
  shows "drop_bit (j * 3) (field_upd w i (of_int m)) AND 7 = drop_bit (j * 3) w AND 7"
proof (rule bit_word_eqI)
  fix n assume "n < LENGTH(32)"
  have 1: "\<not> (i * 3 \<le> j * 3 + n \<and> j * 3 + n - i * 3 < 3)" if "n < 3" using that assms(3) by linarith
  have 2: "j * 3 + n < 32" if "n < 3" using that assms(2) by linarith
  show "bit (drop_bit (j * 3) (field_upd w i (of_int m)) AND 7) n = bit (drop_bit (j * 3) w AND 7) n"
    unfolding field_bits
    using 1 2 small_mode_bits [OF assms(4,5), of "j * 3 + n - i * 3"]
    by auto
qed
lemma set_gpio_mode_regs:
  assumes bus: "gpio_bus bus" and r: "gpio_ok r" and pin: "pin < 60"
  shows "\<exists>r'. set_gpio_mode bus r pin m = Some r' \<and> gpio_ok r' \<and> GPSET r' = [0, 0] \<and> GPCLR r' = [0, 0] \<and>
    GPFSEL r' = (GPFSEL r)[pin div 10 := field_upd (GPFSEL r ! (pin div 10)) (pin mod 10) (of_int m)]"
proof -
  let ?k = "pin div 10" and ?sh = "pin mod 10 * 3"
  have k: "?k < length (GPFSEL r)" using r pin by (simp add: gpio_ok_def less_mult_imp_div_less)
  let ?a = "r\<lparr>GPFSEL := (GPFSEL r)[?k := GPFSEL r ! ?k AND NOT (push_bit ?sh 7)]\<rparr>"
  have a: "gpio_ok ?a" using r by (simp add: gpio_ok_def)
  let ?b = "(bus ?a)\<lparr>GPFSEL := (GPFSEL (bus ?a))[?k := GPFSEL (bus ?a) ! ?k OR push_bit ?sh (of_int m)]\<rparr>"
  have b: "gpio_ok ?b" using gpio_busD(1) [OF bus a] by (simp add: gpio_ok_def)
  have "set_gpio_mode bus r pin m = Some (bus ?b)" using k by (simp add: set_gpio_mode_def Let_def)
  moreover have "GPFSEL (bus ?b) = (GPFSEL r)[?k := field_upd (GPFSEL r ! ?k) (pin mod 10) (of_int m)]"
    using gpio_busD(2) [OF bus b] gpio_busD(2) [OF bus a] k by (simp add: field_upd_def)
  ultimately show ?thesis using gpio_busD(1,3,4) [OF bus b] by blast
qed

definition gpio_idle :: "gpio_regs \<Rightarrow> bool" where
  "gpio_idle r \<longleftrightarrow> gpio_ok r \<and> GPSET r = [0, 0] \<and> GPCLR r = [0, 0]"

lemma pin_mode_upd:
  assumes "gpio_ok r" and "GPFSEL r' = (GPFSEL r)[pin div 10 := field_upd (GPFSEL r ! (pin div 10)) (pin mod 10) (of_int m)]"
    and "pin < 60" and "0 \<le> m" "m < 8"
  shows "pin_mode r' pin = of_int m" and "other \<noteq> pin \<Longrightarrow> pin_mode r' other = pin_mode r other"
proof -
  have k: "pin div 10 < length (GPFSEL r)" using assms(1,3) by (simp add: gpio_ok_def less_mult_imp_div_less)
  show "pin_mode r' pin = of_int m"
    using k assms(2,4,5) field_upd_same [of "pin mod 10" m] by (simp add: pin_mode_def)
  assume "other \<noteq> pin"
  show "pin_mode r' other = pin_mode r other"
  proof (cases "other div 10 = pin div 10")
    case True
    then have "other mod 10 \<noteq> pin mod 10" using \<open>other \<noteq> pin\<close> by (metis div_mult_mod_eq)
    then show ?thesis
      using True k assms(2,4,5) field_upd_other [of "pin mod 10" "other mod 10" m] by (simp add: pin_mode_def)
  next
    case False
    then show ?thesis using assms(2) by (simp add: pin_mode_def)
  qed
qed

lemma single_pin_bit:
  assumes "q div 32 = pin div 32"
  shows "bit (push_bit (pin mod 32) 1 :: 32 word) (q mod 32) \<longleftrightarrow> q = pin"
proof -
  have "bit (push_bit (pin mod 32) 1 :: 32 word) (q mod 32) \<longleftrightarrow> q mod 32 = pin mod 32"
    by (auto simp: bit_exp_iff possible_bit_word)
  also have "\<dots> \<longleftrightarrow> q = pin" using assms by (metis div_mult_mod_eq)
  finally show ?thesis .
qed

lemma zero_regs: "k < 2 \<Longrightarrow> [0, 0 :: 32 word] ! k = 0"
  by (cases k) auto

lemma pin_bank: "pin < 54 \<Longrightarrow> pin div 32 < 2" for pin :: nat
  by (simp add: less_mult_imp_div_less)

lemma get_gpio_level: "gpio_ok r \<Longrightarrow> pin < 54 \<Longrightarrow> get_gpio r pin = Some (if pin_level r pin then 1 else 0)"
  by (simp add: get_gpio_def gpio_ok_def pin_bank pin_level_def Let_def and_one_eq bit_iff_odd_drop_bit odd_iff_mod_2_eq_one)

lemma set_gpio_levels:
  assumes bus: "gpio_bus bus" and r: "gpio_idle r" and pin: "pin < 54"
  shows "\<exists>r'. set_gpio bus r pin v = Some r' \<and> gpio_idle r' \<and> GPFSEL r' = GPFSEL r \<and>
    (pin_mode r pin = 1 \<longrightarrow> pin_level r' pin = (v \<noteq> 0)) \<and>
    (\<forall>q < 54. q \<noteq> pin \<longrightarrow> pin_mode r q = 1 \<longrightarrow> pin_level r' q = pin_level r q)"
proof -
  let ?k = "pin div 32" and ?b = "push_bit (pin mod 32) 1 :: 32 word"
  have k: "?k < 2" using pin by (rule pin_bank)
  have ok: "gpio_ok r" and z: "GPSET r = [0, 0]" "GPCLR r = [0, 0]" using r by (simp_all add: gpio_idle_def)
  define w where "w = (if v \<noteq> 0 then r\<lparr>GPSET := (GPSET r)[?k := ?b]\<rparr> else r\<lparr>GPCLR := (GPCLR r)[?k := ?b]\<rparr>)"
  have w: "gpio_ok w" "GPFSEL w = GPFSEL r" "GPLV w = GPLV r" using ok by (simp_all add: w_def gpio_ok_def)
  have set: "set_gpio bus r pin v = Some (bus w)" using k z by (simp add: set_gpio_def w_def Let_def)
  have mode: "pin_mode w q = pin_mode r q" "pin_level w q = pin_level r q" for q
    using w by (simp_all add: pin_mode_def pin_level_def)
  have upd: "bit (([0, 0] [?k := ?b]) ! (q div 32)) (q mod 32) \<longleftrightarrow> q = pin" if "q < 54" for q
  proof (cases "q div 32 = ?k")
    case True
    moreover have "[0, 0] [?k := ?b] ! ?k = ?b" using k by (intro nth_list_update_eq) simp
    ultimately show ?thesis using single_pin_bit [OF True] by simp
  next
    case False
    then have "[0, 0] [?k := ?b] ! (q div 32) = [0, 0] ! (q div 32)" by (intro nth_list_update_neq) simp
    moreover have "q \<noteq> pin" using False by blast
    ultimately show ?thesis using zero_regs [OF pin_bank [OF that]] by simp
  qed
  have set_bit: "bit (GPSET w ! (q div 32)) (q mod 32) \<longleftrightarrow> v \<noteq> 0 \<and> q = pin" if "q < 54" for q
    using upd [OF that] zero_regs [OF pin_bank [OF that]] by (simp add: w_def z del: list_update.simps)
  have clr_bit: "bit (GPCLR w ! (q div 32)) (q mod 32) \<longleftrightarrow> v = 0 \<and> q = pin" if "q < 54" for q
    using upd [OF that] zero_regs [OF pin_bank [OF that]] by (simp add: w_def z del: list_update.simps)
  have "pin_level (bus w) q = (if q = pin then v \<noteq> 0 else pin_level r q)"
    if "q < 54" "pin_mode r q = 1" for q
    using gpio_busD(5) [OF bus w(1) that(1)] that mode set_bit [OF that(1)] clr_bit [OF that(1)] by auto
  moreover have "gpio_idle (bus w)" "GPFSEL (bus w) = GPFSEL r"
    using gpio_busD(1-4) [OF bus w(1)] w(2) by (simp_all add: gpio_idle_def)
  ultimately show ?thesis using set pin by auto
qed

section \<open>Properties\<close>

text \<open>C14: \<open>set_gpio_mode\<close> gives the pin its 3-bit function and leaves the function of every other
  pin alone, including the nine that share its register.\<close>

theorem set_gpio_mode_field:
  assumes "gpio_bus bus" and "gpio_ok r" and "pin < 60" and "0 \<le> m" and "m < 8"
  shows "\<exists>r'. set_gpio_mode bus r pin m = Some r' \<and> gpio_ok r' \<and> pin_mode r' pin = of_int m \<and>
    (\<forall>other. other \<noteq> pin \<longrightarrow> pin_mode r' other = pin_mode r other)"
  using set_gpio_mode_regs [OF assms(1-3), of m] pin_mode_upd [OF assms(2) _ assms(3-5)] by blast

text \<open>A device that behaves as the data sheet says, for the witnesses.\<close>

definition plain_bus :: "gpio_regs \<Rightarrow> gpio_regs" where
  "plain_bus r = r\<lparr>GPSET := [0, 0], GPCLR := [0, 0],
     GPLV := map (\<lambda>k. (GPLV r ! k OR GPSET r ! k) AND NOT (GPCLR r ! k)) [0, 1]\<rparr>"

lemma plain_bus_ok: "gpio_bus plain_bus"
proof -
  have "pin_level (plain_bus r) pin = ((pin_level r pin \<or> bit (GPSET r ! (pin div 32)) (pin mod 32))
      \<and> \<not> bit (GPCLR r ! (pin div 32)) (pin mod 32))" if "pin < 54" for r pin
  proof -
    have bits: "bit ((a OR b) AND NOT c) (pin mod 32) = ((bit a (pin mod 32) \<or> bit b (pin mod 32)) \<and> \<not> bit c (pin mod 32))"
      for a b c :: "32 word" by (simp add: bit_and_iff bit_or_iff bit_not_iff)
    have "pin div 32 = 0 \<or> pin div 32 = 1" using pin_bank [OF that] by linarith
    then have "GPLV (plain_bus r) ! (pin div 32) =
        (GPLV r ! (pin div 32) OR GPSET r ! (pin div 32)) AND NOT (GPCLR r ! (pin div 32))"
      by (elim disjE) (simp_all add: plain_bus_def)
    then show ?thesis unfolding pin_level_def by (simp only: bits)
  qed
  then show ?thesis by (auto simp: gpio_bus_def gpio_ok_def plain_bus_def)
qed

theorem set_gpio_mode_field_witness:
  "let r = \<lparr>GPFSEL = [7, 0, 0, 0, 0, 0], GPSET = [0, 0], GPCLR = [0, 0], GPLV = [0, 0]\<rparr> in
   \<exists>r'. set_gpio_mode plain_bus r 4 GPIO_MODE_OUTPUT = Some r' \<and> pin_mode r' 4 = 1 \<and> pin_mode r' 0 = pin_mode r 0"
  using set_gpio_mode_field [OF plain_bus_ok, of "\<lparr>GPFSEL = [7, 0, 0, 0, 0, 0], GPSET = [0, 0], GPCLR = [0, 0], GPLV = [0, 0]\<rparr>" 4 1]
  by (auto simp: gpio_ok_def GPIO_MODE_OUTPUT_def Let_def)

lemma led_show_output:
  assumes bus: "gpio_bus bus" and r: "gpio_idle (pstrReg p)" "pin_mode (pstrReg p) LED_PIN = 1"
  shows "\<exists>q. led_show bus v (p, out) = Some (q, out @ led_line (if v \<noteq> 0 then 1 else 0)) \<and>
    gpio_idle (pstrReg q) \<and> GPFSEL (pstrReg q) = GPFSEL (pstrReg p)"
proof -
  have pin: "LED_PIN < 54" by (simp add: LED_PIN_def)
  obtain r' where r': "set_gpio bus (pstrReg p) LED_PIN v = Some r'" "gpio_idle r'" "GPFSEL r' = GPFSEL (pstrReg p)"
    and lv: "pin_level r' LED_PIN = (v \<noteq> 0)"
    using set_gpio_levels [OF bus r(1) pin, of v] r(2) by blast
  have "get_gpio r' LED_PIN = Some (if v \<noteq> 0 then 1 else 0)"
    using get_gpio_level [OF _ pin, of r'] r'(2) lv by (simp add: gpio_idle_def)
  then show ?thesis using r' by (simp add: led_show_def user_set_gpio_def user_get_gpio_def)
qed

lemma led_loop_output:
  assumes bus: "gpio_bus bus" and r: "gpio_idle (pstrReg p)" "pin_mode (pstrReg p) LED_PIN = 1"
  shows "\<exists>q. led_loop bus (p, []) = Some (q, concat (replicate 10 (led_line 1 @ led_line 0))) \<and>
    gpio_idle (pstrReg q) \<and> GPFSEL (pstrReg q) = GPFSEL (pstrReg p)"
proof -
  let ?I = "\<lambda>k s. snd s = concat (replicate k (led_line 1 @ led_line 0)) \<and>
    gpio_idle (pstrReg (fst s)) \<and> GPFSEL (pstrReg (fst s)) = GPFSEL (pstrReg p)"
  have "\<exists>s. each (\<lambda>s32i s. Option.bind (led_show bus 1 s) (led_show bus 0)) [0..<10] (p, []) = Some s \<and> ?I (length [0..<10]) s"
  proof (rule each_invariant [where I = ?I])
    fix k and s :: "bcm2837_peripheral \<times> string" assume I: "?I k s"
    obtain p1 out where s: "s = (p1, out)" by (cases s)
    have m: "pin_mode (pstrReg p1) LED_PIN = 1" using I r(2) s by (simp add: pin_mode_def)
    obtain p2 where p2: "led_show bus 1 s = Some (p2, out @ led_line 1)" "gpio_idle (pstrReg p2)"
      "GPFSEL (pstrReg p2) = GPFSEL (pstrReg p1)"
      using led_show_output [OF bus _ m, of 1 out] I s by auto
    have m2: "pin_mode (pstrReg p2) LED_PIN = 1" using m p2(3) by (simp add: pin_mode_def)
    obtain p3 where "led_show bus 0 (p2, out @ led_line 1) = Some (p3, (out @ led_line 1) @ led_line 0)"
      "gpio_idle (pstrReg p3)" "GPFSEL (pstrReg p3) = GPFSEL (pstrReg p2)"
      using led_show_output [OF bus p2(2) m2, of 0 "out @ led_line 1"] by auto
    then show "\<exists>u. Option.bind (led_show bus 1 s) (led_show bus 0) = Some u \<and> ?I (Suc k) u"
      using p2 I s by (simp add: replicate_append_same [symmetric])
  qed (use r in simp)
  then show ?thesis by (auto simp: led_loop_def for_up_each)
qed

text \<open>The user-space program, on a device that behaves as the data sheet says: it prints the level
  1 and the level 0 ten times in turn, ends with the LED pin as an input, and no other pin has
  changed its function.\<close>

theorem led_user_main_output:
  assumes "gpio_bus bus" and "0 \<le> fd" and "mmap (addr_p p) = Some r" and "gpio_ok r"
  shows "\<exists>q. led_user_main bus fd mmap p = Inr (Some (q, concat (replicate 10 (led_line 1 @ led_line 0)))) \<and>
    pin_mode (pstrReg q) LED_PIN = 0 \<and> (\<forall>pin. pin \<noteq> LED_PIN \<longrightarrow> pin_mode (pstrReg q) pin = pin_mode r pin)"
proof -
  let ?p = "p\<lparr>mem_fd := fd, pstrReg := r\<rparr>"
  have pin: "LED_PIN < 60" by (simp add: LED_PIN_def)
  obtain r1 where r1: "set_gpio_mode bus r LED_PIN 1 = Some r1" "gpio_idle r1"
    and f1: "GPFSEL r1 = (GPFSEL r)[LED_PIN div 10 := field_upd (GPFSEL r ! (LED_PIN div 10)) (LED_PIN mod 10) (of_int 1)]"
    using set_gpio_mode_regs [OF assms(1,4) pin, of 1] by (auto simp: gpio_idle_def)
  note m1 = pin_mode_upd [OF assms(4) f1 pin]
  obtain q where q: "led_loop bus (?p\<lparr>pstrReg := r1\<rparr>, []) = Some (q, concat (replicate 10 (led_line 1 @ led_line 0)))"
    "gpio_idle (pstrReg q)" "GPFSEL (pstrReg q) = GPFSEL r1"
    using led_loop_output [OF assms(1), of "?p\<lparr>pstrReg := r1\<rparr>"] r1(2) m1(1) by auto
  have ok: "gpio_ok (pstrReg q)" using q(2) by (simp add: gpio_idle_def)
  obtain r2 where r2: "set_gpio_mode bus (pstrReg q) LED_PIN 0 = Some r2"
    and f2: "GPFSEL r2 = (GPFSEL (pstrReg q))[LED_PIN div 10 :=
      field_upd (GPFSEL (pstrReg q) ! (LED_PIN div 10)) (LED_PIN mod 10) (of_int 0)]"
    using set_gpio_mode_regs [OF assms(1) ok pin, of 0] by auto
  note m2 = pin_mode_upd [OF ok f2 pin]
  have main: "led_user_main bus fd mmap p = Inr (Some (q\<lparr>pstrReg := r2\<rparr>, concat (replicate 10 (led_line 1 @ led_line 0))))"
    using assms(2,3) r1(1) q(1) r2
    by (simp add: led_user_main_def map_peripheral_def user_set_gpio_mode_def GPIO_MODE_OUTPUT_def GPIO_MODE_INPUT_def)
  have "pin_mode (pstrReg q) pin = pin_mode r1 pin" for pin using q(3) by (simp add: pin_mode_def)
  then show ?thesis using main m1(2) m2 by (intro exI conjI) auto
qed

theorem led_user_main_output_witness:
  "\<exists>q. led_user_main plain_bus 3
      (\<lambda>a. Some \<lparr>GPFSEL = [7, 0, 0, 0, 0, 0], GPSET = [0, 0], GPCLR = [0, 0], GPLV = [0, 0]\<rparr>)
      \<lparr>addr_p = 0x3F200000, mem_fd = 0, pstrReg = \<lparr>GPFSEL = [], GPSET = [], GPCLR = [], GPLV = []\<rparr>\<rparr>
    = Inr (Some (q, concat (replicate 10 (led_line 1 @ led_line 0)))) \<and> pin_mode (pstrReg q) LED_PIN = 0"
  using led_user_main_output [OF plain_bus_ok, of 3
      "\<lambda>a. Some \<lparr>GPFSEL = [7, 0, 0, 0, 0, 0], GPSET = [0, 0], GPCLR = [0, 0], GPLV = [0, 0]\<rparr>"
      "\<lparr>addr_p = 0x3F200000, mem_fd = 0, pstrReg = \<lparr>GPFSEL = [], GPSET = [], GPCLR = [], GPLV = []\<rparr>\<rparr>"
      "\<lparr>GPFSEL = [7, 0, 0, 0, 0, 0], GPSET = [0, 0], GPCLR = [0, 0], GPLV = [0, 0]\<rparr>"]
  by (auto simp: gpio_ok_def)

end
