(* ===== verification/LedModule.thy ===== *)
theory LedModule
  imports Gpio
begin

text \<open>
  The kernel module \<open>GPIO_Prj/led_toggle_module/main.c\<close>: a timer handler toggles the LED and arms
  the timer again, a sysfs attribute sets the period. The module's life is a step relation; the
  handler and the exit function may overlap, so each of their actions on shared state is a step.
  The device (\<open>bus\<close>), the kernel's \<open>kstrtol\<close> and \<open>msecs_to_jiffies\<close> are parameters. \<open>jiffies\<close> is an
  \<open>unsigned long\<close> and wraps around; \<open>ticks\<close>, which counts the ticks of that clock without wrapping around, and
  \<open>last_fire\<close>, the tick at which the handler was last started, are history variables. The results of the
  sysfs calls are ignored by the code and not part of the state.
\<close>

datatype led_phase = LNew | LRunning | LNoSysfs | LNoTimer | LGone

record led_state =
  phase :: led_phase
  gpstrReg :: gpio_regs
  gs32isoff :: int
  gs32Period :: int
  timer :: "32 word option"
  in_handler :: bool
  jiffies :: "32 word"
  ticks :: nat
  last_fire :: "nat option"

text \<open>Storing to the period attribute: \<open>-EINVAL\<close>, or the number of bytes taken.\<close>

definition EINVAL :: int where
  "EINVAL = 22"

definition set_period ::
    "(string \<Rightarrow> int option) \<Rightarrow> string \<Rightarrow> led_state \<Rightarrow> int \<times> led_state" where
  "set_period kstrtol buf s =
     (case kstrtol buf of
        None \<Rightarrow> (- EINVAL, s)
      | Some s32val \<Rightarrow>
          if s32val < 10 then (- EINVAL, s)
          else (int (length buf), s\<lparr>gs32Period := wrap32 s32val\<rparr>))"

text \<open>The handler: toggle and write the pin; then arm the timer.\<close>

definition timer_hdl_toggle :: "(gpio_regs \<Rightarrow> gpio_regs) \<Rightarrow> led_state \<Rightarrow> led_state option" where
  "timer_hdl_toggle bus s =
     (let off = (if gs32isoff s = 0 then 1 else 0) in
      map_option (\<lambda>r. s\<lparr>gs32isoff := off, gpstrReg := r\<rparr>) (set_gpio bus (gpstrReg s) LED_PIN off))"

text \<open>The kernel's comparison of times, which allows for the wrap-around.\<close>

definition time_after_eq :: "32 word \<Rightarrow> 32 word \<Rightarrow> bool" where
  "time_after_eq a b \<longleftrightarrow> 0 \<le> sint (a - b)"

definition mod_timer :: "(int \<Rightarrow> 32 word) \<Rightarrow> led_state \<Rightarrow> led_state" where
  "mod_timer msecs_to_jiffies s = s\<lparr>timer := Some (jiffies s + msecs_to_jiffies (gs32Period s))\<rparr>"

definition led_ctrl_init ::
    "(gpio_regs \<Rightarrow> gpio_regs) \<Rightarrow> (int \<Rightarrow> 32 word) \<Rightarrow> led_state \<Rightarrow> led_state option" where
  "led_ctrl_init bus msecs_to_jiffies s =
     (case get_gpio (gpstrReg s) LED_PIN of
        None \<Rightarrow> None
      | Some v \<Rightarrow>
          map_option (\<lambda>r. mod_timer msecs_to_jiffies (s\<lparr>gs32isoff := v, gpstrReg := r, phase := LRunning\<rparr>))
            (set_gpio_mode bus (gpstrReg s) LED_PIN GPIO_MODE_OUTPUT))"

text \<open>
  The steps. \<open>fire\<close>: the timer is due and the kernel starts the handler, which toggles the LED.
  \<open>exit_timer\<close> is \<open>del_timer\<close>: it takes a pending timer back and does not wait for the handler.
\<close>

inductive led_step ::
    "(gpio_regs \<Rightarrow> gpio_regs) \<Rightarrow> (string \<Rightarrow> int option) \<Rightarrow> (int \<Rightarrow> 32 word) \<Rightarrow> led_state \<Rightarrow> led_state \<Rightarrow> bool"
  for bus kstrtol msecs_to_jiffies where
  tick: "led_step bus kstrtol msecs_to_jiffies s (s\<lparr>jiffies := jiffies s + 1, ticks := ticks s + 1\<rparr>)"
| init: "phase s = LNew \<Longrightarrow> led_ctrl_init bus msecs_to_jiffies s = Some t \<Longrightarrow>
     led_step bus kstrtol msecs_to_jiffies s t"
| store: "phase s = LRunning \<Longrightarrow> led_step bus kstrtol msecs_to_jiffies s (snd (set_period kstrtol buf s))"
| fire: "timer s = Some e \<Longrightarrow> time_after_eq (jiffies s) e \<Longrightarrow> \<not> in_handler s \<Longrightarrow> timer_hdl_toggle bus s = Some t \<Longrightarrow>
     led_step bus kstrtol msecs_to_jiffies s (t\<lparr>timer := None, in_handler := True, last_fire := Some (ticks s)\<rparr>)"
| rearm: "in_handler s \<Longrightarrow>
     led_step bus kstrtol msecs_to_jiffies s ((mod_timer msecs_to_jiffies s)\<lparr>in_handler := False\<rparr>)"
| exit_sysfs: "phase s = LRunning \<Longrightarrow> led_step bus kstrtol msecs_to_jiffies s (s\<lparr>phase := LNoSysfs\<rparr>)"
| exit_timer: "phase s = LNoSysfs \<Longrightarrow>
     led_step bus kstrtol msecs_to_jiffies s (s\<lparr>phase := LNoTimer, timer := None\<rparr>)"
| exit_mode: "phase s = LNoTimer \<Longrightarrow> set_gpio_mode bus (gpstrReg s) LED_PIN GPIO_MODE_INPUT = Some r \<Longrightarrow>
     led_step bus kstrtol msecs_to_jiffies s (s\<lparr>phase := LGone, gpstrReg := r\<rparr>)"

inductive_cases led_stepE: "led_step bus kstrtol msecs_to_jiffies s t"

text \<open>What the module relies on: the device, and a \<open>long\<close> of 32 bits.\<close>

definition led_env :: "(gpio_regs \<Rightarrow> gpio_regs) \<Rightarrow> (string \<Rightarrow> int option) \<Rightarrow> bool" where
  "led_env bus kstrtol \<longleftrightarrow> gpio_bus bus \<and> (\<forall>b v. kstrtol b = Some v \<longrightarrow> is_int32 v)"

definition led_init :: "(gpio_regs \<Rightarrow> gpio_regs) \<Rightarrow> (string \<Rightarrow> int option) \<Rightarrow> led_state \<Rightarrow> bool" where
  "led_init bus kstrtol s \<longleftrightarrow> led_env bus kstrtol \<and> phase s = LNew \<and> gpio_ok (gpstrReg s) \<and>
     gs32isoff s = 1 \<and> gs32Period s = 1000 \<and> timer s = None \<and> \<not> in_handler s \<and> last_fire s = None"

text \<open>
  \<open>msecs_to_jiffies\<close> as documented, with \<open>hz\<close> ticks per second: it rounds up, and never returns more than
  \<open>MAX_JIFFY_OFFSET\<close>, that is \<open>(LONG_MAX >> 1) - 1\<close>. Nothing is said of negative arguments.
\<close>

definition MAX_JIFFY_OFFSET :: nat where
  "MAX_JIFFY_OFFSET = 1073741822"

definition jiffies_rounded_up :: "nat \<Rightarrow> (int \<Rightarrow> 32 word) \<Rightarrow> bool" where
  "jiffies_rounded_up hz m2j \<longleftrightarrow> 0 < hz \<and> hz \<le> 1000 \<and>
     (\<forall>m. 0 \<le> m \<and> m \<le> INT_MAX \<longrightarrow>
        unat (m2j m) \<le> MAX_JIFFY_OFFSET \<and> min (nat m * hz) (1000 * MAX_JIFFY_OFFSET) \<le> 1000 * unat (m2j m))"

text \<open>
  The timer, when armed, was armed \<open>k\<close> ticks ago and not before the last start of the handler, with a delay
  of at least 10 ms that is less than half of the range of \<open>jiffies\<close>.
\<close>

definition led_timing :: "nat \<Rightarrow> nat option \<Rightarrow> 32 word option \<Rightarrow> 32 word \<Rightarrow> nat \<Rightarrow> bool" where
  "led_timing hz fired tim jif now \<longleftrightarrow>
     (\<forall>t. fired = Some t \<longrightarrow> t \<le> now \<and>
        (\<forall>e. tim = Some e \<longrightarrow>
          (\<exists>k m. t + k \<le> now \<and> e = jif - of_nat k + m \<and> unat m < 2 ^ 31 \<and> 10 * hz \<le> 1000 * unat m)))"

definition led_inv ::
    "nat \<Rightarrow> (gpio_regs \<Rightarrow> gpio_regs) \<Rightarrow> (string \<Rightarrow> int option) \<Rightarrow> (int \<Rightarrow> 32 word) \<Rightarrow> led_state \<Rightarrow> bool" where
  "led_inv hz bus kstrtol m2j s \<longleftrightarrow> led_env bus kstrtol \<and> jiffies_rounded_up hz m2j \<and> gpio_ok (gpstrReg s) \<and>
     10 \<le> gs32Period s \<and> gs32Period s \<le> INT_MAX \<and>
     (phase s = LNew \<longrightarrow> timer s = None \<and> \<not> in_handler s \<and> last_fire s = None) \<and>
     (phase s \<noteq> LNew \<longrightarrow> gpio_idle (gpstrReg s)) \<and>
     (phase s \<in> {LRunning, LNoSysfs, LNoTimer} \<longrightarrow> pin_mode (gpstrReg s) LED_PIN = 1 \<and>
        (last_fire s \<noteq> None \<longrightarrow> pin_level (gpstrReg s) LED_PIN = (gs32isoff s \<noteq> 0))) \<and>
     (phase s \<in> {LRunning, LNoSysfs} \<longrightarrow> (timer s \<noteq> None) \<noteq> in_handler s) \<and>
     led_timing hz (last_fire s) (timer s) (jiffies s) (ticks s)"

section \<open>The invariant\<close>

lemma led_pin: "LED_PIN < 54" "LED_PIN < 60"
  by (simp_all add: LED_PIN_def)

lemma toggle_Some:
  assumes "gpio_bus bus" and "gpio_idle (gpstrReg s)" and "timer_hdl_toggle bus s = Some t"
  shows "\<exists>r off. t = s\<lparr>gs32isoff := off, gpstrReg := r\<rparr> \<and> gpio_idle r \<and> GPFSEL r = GPFSEL (gpstrReg s) \<and>
    (off = 0 \<longleftrightarrow> gs32isoff s \<noteq> 0) \<and> (pin_mode (gpstrReg s) LED_PIN = 1 \<longrightarrow> pin_level r LED_PIN = (off \<noteq> 0))"
proof -
  define off where "off = (if gs32isoff s = 0 then 1 else 0 :: int)"
  obtain r where "set_gpio bus (gpstrReg s) LED_PIN off = Some r" "gpio_idle r" "GPFSEL r = GPFSEL (gpstrReg s)"
    "pin_mode (gpstrReg s) LED_PIN = 1 \<longrightarrow> pin_level r LED_PIN = (off \<noteq> 0)"
    using set_gpio_levels [OF assms(1,2) led_pin(1), of off] by blast
  then show ?thesis using assms(3)
    by (intro exI [of _ r] exI [of _ off]) (auto simp: timer_hdl_toggle_def off_def Let_def)
qed

lemma init_Some:
  assumes "gpio_bus bus" and "gpio_ok (gpstrReg s)" and "led_ctrl_init bus m2j s = Some t"
  shows "\<exists>r v. t = mod_timer m2j (s\<lparr>gs32isoff := v, gpstrReg := r, phase := LRunning\<rparr>) \<and> gpio_idle r \<and>
    pin_mode r LED_PIN = 1"
proof -
  obtain r where r: "set_gpio_mode bus (gpstrReg s) LED_PIN 1 = Some r" "gpio_idle r"
    and f: "GPFSEL r = (GPFSEL (gpstrReg s))[LED_PIN div 10 :=
      field_upd (GPFSEL (gpstrReg s) ! (LED_PIN div 10)) (LED_PIN mod 10) (of_int 1)]"
    using set_gpio_mode_regs [OF assms(1,2) led_pin(2), of 1] by (auto simp: gpio_idle_def)
  have "pin_mode r LED_PIN = 1" using pin_mode_upd(1) [OF assms(2) f led_pin(2)] by simp
  then show ?thesis using assms(3) r
    by (auto simp: led_ctrl_init_def GPIO_MODE_OUTPUT_def split: option.splits)
qed

lemma set_mode_idle:
  "gpio_bus bus \<Longrightarrow> gpio_ok r \<Longrightarrow> set_gpio_mode bus r LED_PIN m = Some r' \<Longrightarrow> gpio_idle r'"
  using set_gpio_mode_regs [OF _ _ led_pin(2), of bus r m] by (auto simp: gpio_idle_def)

lemma set_period_keeps:
  assumes "\<forall>b v. kstrtol b = Some v \<longrightarrow> is_int32 v" and "10 \<le> gs32Period s" and "gs32Period s \<le> INT_MAX"
  shows "\<exists>p. snd (set_period kstrtol buf s) = s\<lparr>gs32Period := p\<rparr> \<and> 10 \<le> p \<and> p \<le> INT_MAX"
proof (cases "kstrtol buf")
  case None
  then show ?thesis using assms(2,3) by (intro exI [of _ "gs32Period s"]) (simp add: set_period_def)
next
  case (Some v)
  then have "is_int32 v" using assms(1) by blast
  then have w: "wrap32 v = v" "v \<le> INT_MAX" by (auto simp: is_int32_def wrap32_id)
  show ?thesis
  proof (cases "v < 10")
    case True
    then show ?thesis using Some assms(2,3) by (intro exI [of _ "gs32Period s"]) (simp add: set_period_def)
  next
    case False
    then show ?thesis using Some w by (intro exI [of _ v]) (simp add: set_period_def)
  qed
qed

text \<open>A timer with a delay of less than half the range is due only after its delay.\<close>

lemma due_after_delay:
  assumes "time_after_eq j (j - of_nat k + m)" and "unat m < 2 ^ 31"
  shows "unat m \<le> k"
proof (rule ccontr)
  assume "\<not> unat m \<le> k"
  moreover have "uint m = int (unat m)" by simp
  moreover have "unat m < 2147483648" using assms(2) by simp
  ultimately have "- 2147483648 \<le> int k - uint m" and neg: "int k - uint m < 0" by linarith+
  then have d: "- (2 ^ 31) \<le> int k - uint m" "int k - uint m < 2 ^ 31" by simp_all
  have "j - (j - of_nat k + m) = word_of_int (int k - uint m)" by simp
  moreover have "sint (word_of_int (int k - uint m) :: 32 word) = int k - uint m"
    unfolding signed_of_int using d by (simp add: signed_take_bit_int_eq_self)
  ultimately show False using assms(1) neg by (simp add: time_after_eq_def)
qed

lemma period_delay:
  assumes "jiffies_rounded_up hz m2j" and "10 \<le> p" and "p \<le> INT_MAX"
  shows "unat (m2j p) < 2 ^ 31" and "10 * hz \<le> 1000 * unat (m2j p)"
proof -
  have b: "unat (m2j p) \<le> MAX_JIFFY_OFFSET" "min (nat p * hz) (1000 * MAX_JIFFY_OFFSET) \<le> 1000 * unat (m2j p)" and "hz \<le> 1000"
    using assms by (simp_all add: jiffies_rounded_up_def)
  then show "unat (m2j p) < 2 ^ 31" by (simp add: MAX_JIFFY_OFFSET_def)
  have "10 * hz \<le> nat p * hz" using assms(2) by (intro mult_le_mono1) simp
  moreover have "10 * hz \<le> 1000 * MAX_JIFFY_OFFSET" using \<open>hz \<le> 1000\<close> by (simp add: MAX_JIFFY_OFFSET_def)
  ultimately have "10 * hz \<le> min (nat p * hz) (1000 * MAX_JIFFY_OFFSET)" by (rule min.boundedI)
  then show "10 * hz \<le> 1000 * unat (m2j p)" using b(2) by (rule le_trans)
qed

lemma led_timing_intros:
  "led_timing hz None tim jif now"
  "led_timing hz (Some now) None jif now"
  "led_timing hz fired tim jif now \<Longrightarrow> led_timing hz fired None jif now"
  unfolding led_timing_def by auto

lemma led_timing_tick:
  assumes "led_timing hz fired tim jif now"
  shows "led_timing hz fired tim (jif + 1) (Suc now)"
  unfolding led_timing_def
proof (intro allI impI conjI)
  fix t assume t: "fired = Some t"
  then show "t \<le> Suc now" using assms by (auto simp: led_timing_def)
  fix e assume "tim = Some e"
  then obtain k m where "t + k \<le> now" "e = jif - of_nat k + m" "unat m < 2 ^ 31" "10 * hz \<le> 1000 * unat m"
    using assms t unfolding led_timing_def by blast
  then show "\<exists>k m. t + k \<le> Suc now \<and> e = jif + 1 - of_nat k + m \<and> unat m < 2 ^ 31 \<and> 10 * hz \<le> 1000 * unat m"
    by (intro exI [of _ "Suc k"] exI [of _ m]) simp
qed

lemma led_timing_arm:
  assumes "led_timing hz fired tim jif now" and "unat m < 2 ^ 31" and "10 * hz \<le> 1000 * unat m"
  shows "led_timing hz fired (Some (jif + m)) jif now"
  unfolding led_timing_def
proof (intro allI impI conjI)
  fix t assume t: "fired = Some t"
  then show le: "t \<le> now" using assms(1) by (auto simp: led_timing_def)
  fix e assume "Some (jif + m) = Some e"
  then show "\<exists>k m. t + k \<le> now \<and> e = jif - of_nat k + m \<and> unat m < 2 ^ 31 \<and> 10 * hz \<le> 1000 * unat m"
    using le assms(2,3) by (intro exI [of _ 0] exI [of _ m]) simp
qed

lemma led_timing_due:
  assumes "led_timing hz (Some t) (Some e) jif now" and "time_after_eq jif e"
  shows "10 * hz \<le> 1000 * (now - t)"
proof -
  obtain k m where k: "t + k \<le> now" "e = jif - of_nat k + m" "unat m < 2 ^ 31" "10 * hz \<le> 1000 * unat m"
    using assms(1) unfolding led_timing_def by blast
  then have "unat m \<le> k" using assms(2) due_after_delay by blast
  then show ?thesis using k(1,4) by linarith
qed

lemmas led_update_simps = led_inv_def mod_timer_def gpio_idle_def

lemma led_inv_step:
  assumes inv: "led_inv hz bus kstrtol m2j s" and step: "led_step bus kstrtol m2j s t"
  shows "led_inv hz bus kstrtol m2j t"
proof -
  have env: "gpio_bus bus" "\<forall>b v. kstrtol b = Some v \<longrightarrow> is_int32 v"
    using inv by (auto simp: led_inv_def led_env_def)
  have per: "10 \<le> gs32Period s" "gs32Period s \<le> INT_MAX" and ok: "gpio_ok (gpstrReg s)"
    and j: "jiffies_rounded_up hz m2j" and tm: "led_timing hz (last_fire s) (timer s) (jiffies s) (ticks s)"
    using inv by (simp_all add: led_inv_def)
  note arm = led_timing_arm [OF tm period_delay [OF j per]]
  from step show ?thesis
  proof cases
    case tick
    then show ?thesis using inv by (simp add: led_inv_def led_timing_tick)
  next
    case init
    obtain r v where t: "t = mod_timer m2j (s\<lparr>gs32isoff := v, gpstrReg := r, phase := LRunning\<rparr>)"
      "gpio_idle r" "pin_mode r LED_PIN = 1"
      using init_Some [OF env(1) ok init(2)] by blast
    then show ?thesis using inv init(1) by (simp add: led_update_simps led_timing_intros(1))
  next
    case (store buf)
    obtain p where "t = s\<lparr>gs32Period := p\<rparr>" "10 \<le> p" "p \<le> INT_MAX"
      using set_period_keeps [OF env(2) per, of buf] store(1) by auto
    then show ?thesis using inv by (simp add: led_inv_def)
  next
    case (fire e u)
    have new: "phase s \<noteq> LNew" using inv fire(2) by (auto simp: led_inv_def)
    then have "gpio_idle (gpstrReg s)" using inv by (simp add: led_inv_def)
    then obtain r off where u: "u = s\<lparr>gs32isoff := off, gpstrReg := r\<rparr>" "gpio_idle r" "GPFSEL r = GPFSEL (gpstrReg s)"
      "pin_mode (gpstrReg s) LED_PIN = 1 \<longrightarrow> pin_level r LED_PIN = (off \<noteq> 0)"
      using toggle_Some [OF env(1) _ fire(5)] by blast
    have "pin_mode r LED_PIN = pin_mode (gpstrReg s) LED_PIN" using u(3) by (simp add: pin_mode_def)
    then show ?thesis using inv new u fire(1,2,4) by (simp add: led_update_simps led_timing_intros(2))
  next
    case rearm
    then show ?thesis using inv arm by (auto simp: led_update_simps)
  next
    case exit_sysfs
    then show ?thesis using inv by (simp add: led_inv_def)
  next
    case exit_timer
    then show ?thesis using inv led_timing_intros(3) by (auto simp: led_inv_def)
  next
    case (exit_mode r)
    then show ?thesis using inv set_mode_idle [OF env(1) ok exit_mode(3)]
      by (simp add: led_update_simps)
  qed
qed

interpretation led: invariant_system "\<lambda>s. jiffies_rounded_up hz m2j \<and> led_init bus kstrtol s" "led_step bus kstrtol m2j"
  "led_inv hz bus kstrtol m2j" for hz bus kstrtol m2j
proof unfold_locales
  show "jiffies_rounded_up hz m2j \<and> led_init bus kstrtol s \<Longrightarrow> led_inv hz bus kstrtol m2j s" for s
    by (auto simp: led_init_def led_inv_def led_timing_intros(1))
  show "led_inv hz bus kstrtol m2j s \<Longrightarrow> led_step bus kstrtol m2j s t \<Longrightarrow> led_inv hz bus kstrtol m2j t" for s t
    by (rule led_inv_step)
qed

section \<open>Unloading\<close>

lemma led_ticks: "(led_step bus kstrtol m2j)\<^sup>*\<^sup>* s (s\<lparr>jiffies := jiffies s + of_nat k, ticks := ticks s + k\<rparr>)"
proof (induction k)
  case (Suc k)
  let ?s = "s\<lparr>jiffies := jiffies s + of_nat k, ticks := ticks s + k\<rparr>"
  have "led_step bus kstrtol m2j ?s (s\<lparr>jiffies := jiffies s + of_nat (Suc k), ticks := ticks s + Suc k\<rparr>)"
    using led_step.tick [of bus kstrtol m2j ?s] by (simp add: add.commute add.left_commute)
  with Suc show ?case by (rule rtranclp.rtrancl_into_rtrancl)
qed simp

lemma led_init_fires:
  assumes "led_init bus kstrtol s"
  shows "\<exists>t. (led_step bus kstrtol m2j)\<^sup>*\<^sup>* s t \<and> phase t = LRunning \<and> in_handler t \<and> gpio_ok (gpstrReg t)"
proof -
  have env: "gpio_bus bus" and ok: "gpio_ok (gpstrReg s)" and new: "phase s = LNew" "\<not> in_handler s"
    using assms by (auto simp: led_init_def led_env_def)
  obtain r where mode: "set_gpio_mode bus (gpstrReg s) LED_PIN 1 = Some r" and idle: "gpio_idle r"
    using set_gpio_mode_regs [OF env ok led_pin(2), of 1] by (auto simp: gpio_idle_def)
  define v where "v = (if pin_level (gpstrReg s) LED_PIN then 1 else 0 :: int)"
  let ?t1 = "mod_timer m2j (s\<lparr>gs32isoff := v, gpstrReg := r, phase := LRunning\<rparr>)"
  have "led_ctrl_init bus m2j s = Some ?t1"
    using mode get_gpio_level [OF ok led_pin(1)] by (simp add: led_ctrl_init_def GPIO_MODE_OUTPUT_def v_def)
  then have "led_step bus kstrtol m2j s ?t1" using new(1) by (intro led_step.init)
  moreover define t2 where "t2 = ?t1\<lparr>jiffies := jiffies ?t1 + of_nat (unat (m2j (gs32Period s))),
    ticks := ticks ?t1 + unat (m2j (gs32Period s))\<rparr>"
  have "(led_step bus kstrtol m2j)\<^sup>*\<^sup>* ?t1 t2" unfolding t2_def by (rule led_ticks)
  moreover obtain r' where "set_gpio bus r LED_PIN (if v = 0 then 1 else 0) = Some r'" "gpio_idle r'"
    using set_gpio_levels [OF env idle led_pin(1)] by blast
  then have "timer_hdl_toggle bus t2 = Some (t2\<lparr>gs32isoff := if v = 0 then 1 else 0, gpstrReg := r'\<rparr>)"
    by (simp add: timer_hdl_toggle_def t2_def mod_timer_def Let_def)
  then have "led_step bus kstrtol m2j t2
      (t2\<lparr>gs32isoff := if v = 0 then 1 else 0, gpstrReg := r', timer := None, in_handler := True, last_fire := Some (ticks t2)\<rparr>)"
    using led_step.fire [of t2 "jiffies s + m2j (gs32Period s)" bus _ kstrtol m2j] new(2)
    by (auto simp: t2_def mod_timer_def time_after_eq_def)
  ultimately show ?thesis using \<open>gpio_idle r'\<close>
    by (intro exI conjI, elim converse_rtranclp_into_rtranclp [OF _ rtranclp.rtrancl_into_rtrancl])
      (auto simp: t2_def mod_timer_def gpio_idle_def)
qed

section \<open>Properties\<close>

text \<open>C24: in every reachable state of the module the period is at least 10 ms; while it is loaded and
  not yet shutting down its timer, the pin is an output and either the timer is armed or the handler
  is running (the LED never stops); after the first toggle, and not before, the pin is known to show \<open>gs32isoff\<close>; and
  whenever the timer is due, at least 10 ms have passed since the handler was last started, counted in ticks
  of the \<open>jiffies\<close> clock, which may have wrapped around.\<close>

theorem led_module_safe:
  assumes "jiffies_rounded_up hz m2j"
    and "reach (led_init bus kstrtol) (led_step bus kstrtol m2j) s"
  shows "10 \<le> gs32Period s \<and>
    (phase s \<in> {LRunning, LNoSysfs} \<longrightarrow> pin_mode (gpstrReg s) LED_PIN = 1 \<and> (timer s \<noteq> None) \<noteq> in_handler s \<and>
      (last_fire s \<noteq> None \<longrightarrow> pin_level (gpstrReg s) LED_PIN = (gs32isoff s \<noteq> 0))) \<and>
    (\<forall>t e. last_fire s = Some t \<longrightarrow> timer s = Some e \<longrightarrow> time_after_eq (jiffies s) e \<longrightarrow>
      10 * hz \<le> 1000 * (ticks s - t))"
proof -
  have inv: "led_inv hz bus kstrtol m2j s"
    using led.reach_inv [of hz m2j bus kstrtol s] assms by simp
  have "10 * hz \<le> 1000 * (ticks s - t)" if "last_fire s = Some t" "timer s = Some e" "time_after_eq (jiffies s) e" for t e
    by (rule led_timing_due [of hz t e "jiffies s"]) (use inv that in \<open>simp_all add: led_inv_def\<close>)
  then show ?thesis using inv by (simp add: led_inv_def)
qed

definition led_demo :: led_state where
  "led_demo = \<lparr>phase = LNew, gpstrReg = \<lparr>GPFSEL = [7, 0, 0, 0, 0, 0], GPSET = [0, 0], GPCLR = [0, 0], GPLV = [0, 0]\<rparr>,
     gs32isoff = 1, gs32Period = 1000, timer = None, in_handler = False, jiffies = 4294967290, ticks = 0, last_fire = None\<rparr>"

text \<open>100 ticks per second.\<close>

definition m2j_100 :: "int \<Rightarrow> 32 word" where
  "m2j_100 m = word_of_int ((m + 9) div 10)"

lemma m2j_100_rounds: "jiffies_rounded_up 100 m2j_100"
proof -
  have "unat (m2j_100 m) = nat ((m + 9) div 10)" if "0 \<le> m" "m \<le> INT_MAX" for m
  proof -
    have "uint (m2j_100 m) = (m + 9) div 10"
      using that unfolding m2j_100_def by (subst uint_word_of_int) simp
    then show ?thesis by (simp add: unat_eq_nat_uint)
  qed
  moreover have "nat ((m + 9) div 10) \<le> MAX_JIFFY_OFFSET \<and> nat m * 100 \<le> 1000 * nat ((m + 9) div 10)"
    if "0 \<le> m" "m \<le> INT_MAX" for m :: int
  proof -
    define q where "q = (m + 9) div 10"
    have "m \<le> 10 * q" "0 \<le> q" "q \<le> 1073741822" using that unfolding q_def by presburger+
    then show ?thesis unfolding q_def [symmetric] MAX_JIFFY_OFFSET_def by linarith
  qed
  ultimately show ?thesis by (simp add: jiffies_rounded_up_def min.coboundedI1)
qed

lemma led_demo_init: "led_init plain_bus (\<lambda>b. None) led_demo"
  by (simp add: led_init_def led_env_def plain_bus_ok led_demo_def gpio_ok_def)

theorem led_module_safe_witness:
  "\<exists>s. reach (led_init plain_bus (\<lambda>b. None)) (led_step plain_bus (\<lambda>b. None) m2j_100) s
     \<and> phase s = LRunning \<and> in_handler s \<and> timer s = None \<and> 10 \<le> gs32Period s"
proof -
  let ?init = "led_init plain_bus (\<lambda>b. None)" and ?step = "led_step plain_bus (\<lambda>b. None) m2j_100"
  obtain s where s: "?step\<^sup>*\<^sup>* led_demo s" "phase s = LRunning" "in_handler s"
    using led_init_fires [OF led_demo_init] by blast
  have "reach ?init ?step led_demo" using led_demo_init by (rule reach_init)
  then have "reach ?init ?step s" using s(1) by (rule reach_steps)
  from led_module_safe [OF m2j_100_rounds this] this s show ?thesis by auto
qed

text \<open>C25: \<open>led_ctrl_exit\<close> deletes the timer without waiting for the handler: from every freshly loaded
  state some run ends with the module gone and its timer armed, about to call freed code.\<close>

theorem led_unload_race:
  assumes "led_init bus kstrtol s"
  shows "\<exists>t. (led_step bus kstrtol m2j)\<^sup>*\<^sup>* s t \<and> phase t = LGone \<and> timer t \<noteq> None"
proof -
  let ?step = "led_step bus kstrtol m2j"
  have env: "gpio_bus bus" using assms by (simp add: led_init_def led_env_def)
  obtain t where t: "?step\<^sup>*\<^sup>* s t" "phase t = LRunning" "in_handler t" "gpio_ok (gpstrReg t)"
    using led_init_fires [OF assms] by blast
  obtain r where r: "set_gpio_mode bus (gpstrReg t) LED_PIN GPIO_MODE_INPUT = Some r"
    using set_gpio_mode_regs [OF env t(4) led_pin(2), of GPIO_MODE_INPUT] by blast
  define t1 t2 t3 where "t1 = t\<lparr>phase := LNoSysfs\<rparr>" and "t2 = t1\<lparr>phase := LNoTimer, timer := None\<rparr>"
    and "t3 = t2\<lparr>phase := LGone, gpstrReg := r\<rparr>"
  note defs = t1_def t2_def t3_def
  have "?step t t1" unfolding t1_def using t(2) by (rule led_step.exit_sysfs)
  moreover have "?step t1 t2" unfolding t2_def by (rule led_step.exit_timer) (simp add: t1_def)
  moreover have "?step t2 t3" unfolding t3_def by (rule led_step.exit_mode) (use r in \<open>simp_all add: defs\<close>)
  moreover have "?step t3 ((mod_timer m2j t3)\<lparr>in_handler := False\<rparr>)"
    by (rule led_step.rearm) (use t(3) in \<open>simp add: defs\<close>)
  ultimately have "?step\<^sup>*\<^sup>* s ((mod_timer m2j t3)\<lparr>in_handler := False\<rparr>)"
    using t(1) by (meson rtranclp.rtrancl_into_rtrancl)
  moreover have "phase ((mod_timer m2j t3)\<lparr>in_handler := False\<rparr>) = LGone"
    "timer ((mod_timer m2j t3)\<lparr>in_handler := False\<rparr>) \<noteq> None" by (simp_all add: defs mod_timer_def)
  ultimately show ?thesis by blast
qed

theorem led_unload_race_witness:
  "\<exists>t. (led_step plain_bus (\<lambda>b. None) m2j_100)\<^sup>*\<^sup>* led_demo t \<and> phase t = LGone \<and> timer t \<noteq> None"
  by (rule led_unload_race [OF led_demo_init])

end
