(* ===== verification/KernelRace.thy ===== *)
theory KernelRace
  imports Prelude CStrings
begin

text \<open>
  The three kernel modules of studio10: four threads increment a shared counter \<open>IRT_TIME\<close> times
  each, without protection (\<open>multi_race\<close>), with an atomic addition (\<open>multi_atomic\<close>) and under a mutex
  (\<open>multi_mutex\<close>). Each access to the counter is a step; \<open>race++\<close> on the volatile counter is a load
  and a store. \<open>s32i\<close> is the loop variable of each thread. The signed increment is modelled with the
  wrap-around of the target.
\<close>

section \<open>The modules\<close>

definition IRT_TIME :: nat where
  "IRT_TIME = 1000000"

definition NKTHREAD :: nat where
  "NKTHREAD = 4"

datatype kt_pc = KTop | KLoad | KStore int | KUnlock

record kt_state =
  race :: int
  s32i :: "nat \<Rightarrow> nat"
  kpc :: "nat \<Rightarrow> kt_pc"
  MYMUTEX :: "nat option"

text \<open>\<open>hello_init\<close>: the counter is 0, all threads are woken at the head of their loops.\<close>

definition kt_init :: "kt_state \<Rightarrow> bool" where
  "kt_init s \<longleftrightarrow> race s = 0 \<and> s32i s = (\<lambda>_. 0) \<and> kpc s = (\<lambda>_. KTop) \<and> MYMUTEX s = None"

text \<open>\<open>multi_race\<close>: load, store. A thread whose loop is over does not move.\<close>

definition race_next :: "nat \<Rightarrow> nat \<Rightarrow> unit \<Rightarrow> kt_state \<Rightarrow> kt_state option" where
  "race_next iters i c s =
     (case kpc s i of
        KTop \<Rightarrow> if s32i s i < iters then Some (s\<lparr>kpc := (kpc s)(i := KStore (race s))\<rparr>) else None
      | KStore v \<Rightarrow> Some (s\<lparr>race := wrap32 (v + 1), s32i := (s32i s)(i := Suc (s32i s i)), kpc := (kpc s)(i := KTop)\<rparr>)
      | _ \<Rightarrow> None)"

text \<open>\<open>multi_atomic\<close>: one \<open>atomic_add\<close> per iteration.\<close>

definition atomic_next :: "nat \<Rightarrow> nat \<Rightarrow> unit \<Rightarrow> kt_state \<Rightarrow> kt_state option" where
  "atomic_next iters i c s =
     (if s32i s i < iters
      then Some (s\<lparr>race := wrap32 (race s + 1), s32i := (s32i s)(i := Suc (s32i s i))\<rparr>)
      else None)"

text \<open>\<open>multi_mutex\<close>: lock (blocks while the mutex is held), load, store, unlock.\<close>

definition mutex_next :: "nat \<Rightarrow> nat \<Rightarrow> unit \<Rightarrow> kt_state \<Rightarrow> kt_state option" where
  "mutex_next iters i c s =
     (case kpc s i of
        KTop \<Rightarrow>
          if s32i s i < iters \<and> MYMUTEX s = None
          then Some (s\<lparr>MYMUTEX := Some i, kpc := (kpc s)(i := KLoad)\<rparr>) else None
      | KLoad \<Rightarrow> Some (s\<lparr>kpc := (kpc s)(i := KStore (race s))\<rparr>)
      | KStore v \<Rightarrow> Some (s\<lparr>race := wrap32 (v + 1), kpc := (kpc s)(i := KUnlock)\<rparr>)
      | KUnlock \<Rightarrow> Some (s\<lparr>MYMUTEX := None, s32i := (s32i s)(i := Suc (s32i s i)), kpc := (kpc s)(i := KTop)\<rparr>))"

text \<open>What \<open>hello_exit\<close> prints: a line, and the counter.\<close>

definition hello_exit :: "kt_state \<Rightarrow> string" where
  "hello_exit s = ''Unload module.'' @ CHR 0x0A # ''race = '' @ show_int (race s) @ [CHR ''.'', CHR 0x0A]"

definition kt_done :: "nat \<Rightarrow> nat \<Rightarrow> kt_state \<Rightarrow> bool" where
  "kt_done n iters s \<longleftrightarrow> list_all (\<lambda>i. s32i s i = iters \<and> kpc s i = KTop) [0..<n]"

section \<open>Invariants\<close>

definition kt_total :: "nat \<Rightarrow> kt_state \<Rightarrow> nat" where
  "kt_total n s = (\<Sum>i<n. s32i s i)"

lemma kt_total_Suc:
  fixes n :: nat
  assumes "i < n"
  shows "(\<Sum>j<n. ((f :: nat \<Rightarrow> nat)(i := Suc (f i))) j) = Suc (\<Sum>j<n. f j)"
  using sum_upd_eq [OF assms, of "\<lambda>x. x" f "Suc (f i)"] by simp

lemma kt_done_total: "kt_done n iters s \<Longrightarrow> kt_total n s = n * iters"
  by (simp add: kt_done_def kt_total_def list_all_iff)

text \<open>Atomic: the counter is the number of finished iterations, modulo the width.\<close>

definition atomic_inv :: "nat \<Rightarrow> kt_state \<Rightarrow> bool" where
  "atomic_inv n s \<longleftrightarrow> race s = wrap32 (int (kt_total n s))"

interpretation atom: invariant_system kt_init "sched (atomic_next iters) n" "atomic_inv n" for iters n
proof unfold_locales
  show "kt_init s \<Longrightarrow> atomic_inv n s" for s
    by (simp add: kt_init_def atomic_inv_def kt_total_def wrap32_id)
  show "atomic_inv n s \<Longrightarrow> sched (atomic_next iters) n s t \<Longrightarrow> atomic_inv n t" for s t
  proof (elim schedE)
    fix i c assume inv: "atomic_inv n s" and i: "i < n" and st: "atomic_next iters i c s = Some t"
    from st have t: "race t = wrap32 (race s + 1)" "s32i t = (s32i s)(i := Suc (s32i s i))"
      by (auto simp: atomic_next_def split: if_splits)
    have "race t = wrap32 (int (kt_total n s) + 1)"
      using inv t(1) by (simp add: atomic_inv_def wrap32_wrap32_add)
    then show "atomic_inv n t"
      using kt_total_Suc [OF i, of "s32i s"] t(2) by (simp add: atomic_inv_def kt_total_def add.commute)
  qed
qed

text \<open>
  Mutex: the holder is the only thread past \<open>KTop\<close>, the value it has loaded is the counter, and the
  counter is the number of stores: finished iterations, and one more while the holder is about to
  unlock.
\<close>

fun stored :: "kt_pc \<Rightarrow> nat" where
  "stored KUnlock = 1"
| "stored _ = 0"

definition mutex_inv :: "nat \<Rightarrow> kt_state \<Rightarrow> bool" where
  "mutex_inv n s \<longleftrightarrow> (\<forall>i<n. kpc s i \<noteq> KTop \<longleftrightarrow> MYMUTEX s = Some i) \<and>
     (\<forall>i<n. \<forall>v. kpc s i = KStore v \<longrightarrow> v = race s) \<and>
     race s = wrap32 (int (\<Sum>i<n. s32i s i + stored (kpc s i)))"

lemma stored_sum_upd:
  fixes n :: nat
  assumes "i < n"
  shows "(\<Sum>j<n. (f(i := a)) j + stored ((p(i := x)) j)) + f i + stored (p i) = (\<Sum>j<n. f j + stored (p j)) + a + stored x"
proof -
  have "(\<Sum>j<n. ((f(i := a)) j :: nat)) + f i = (\<Sum>j<n. f j) + a"
    using sum_upd_eq [OF assms, of "\<lambda>x. x" f a] by simp
  moreover have "(\<Sum>j<n. stored ((p(i := x)) j)) + stored (p i) = (\<Sum>j<n. stored (p j)) + stored x"
    by (rule sum_upd_eq [OF assms])
  ultimately show ?thesis by (simp add: sum.distrib)
qed

lemma mutex_invI:
  assumes "\<And>i. i < n \<Longrightarrow> kpc s i \<noteq> KTop \<longleftrightarrow> MYMUTEX s = Some i"
    and "\<And>i v. i < n \<Longrightarrow> kpc s i = KStore v \<Longrightarrow> v = race s"
    and "race s = wrap32 (int (\<Sum>i<n. s32i s i + stored (kpc s i)))"
  shows "mutex_inv n s"
  using assms unfolding mutex_inv_def by blast

lemma mutex_invD:
  assumes "mutex_inv n s"
  shows "i < n \<Longrightarrow> kpc s i \<noteq> KTop \<longleftrightarrow> MYMUTEX s = Some i"
    and "i < n \<Longrightarrow> kpc s i = KStore v \<Longrightarrow> v = race s"
    and "race s = wrap32 (int (\<Sum>i<n. s32i s i + stored (kpc s i)))"
  using assms unfolding mutex_inv_def by blast+

text \<open>The four kinds of steps have one shape: the pc of \<open>i\<close> moves, the mutex follows, and the counter keeps its meaning.\<close>

lemma mutex_inv_move:
  assumes inv: "mutex_inv n s" and i: "i < n"
    and free: "MYMUTEX s = Some i \<or> MYMUTEX s = None \<and> kpc s i = KTop"
    and t: "kpc t = (kpc s)(i := x)" "s32i t = (s32i s)(i := a)" "MYMUTEX t = (if x = KTop then None else Some i)"
    and v: "\<And>v. x = KStore v \<Longrightarrow> v = race t"
    and r: "race t = wrap32 (race s + (int a + int (stored x) - int (s32i s i) - int (stored (kpc s i))))"
  shows "mutex_inv n t"
proof (rule mutex_invI)
  have others: "kpc s j = KTop" if "j < n" "j \<noteq> i" for j
    using mutex_invD(1) [OF inv that(1)] free that(2) by auto
  show "kpc t j \<noteq> KTop \<longleftrightarrow> MYMUTEX t = Some j" if "j < n" for j
    using others [OF that] t(1,3) by auto
  show "w = race t" if "j < n" "kpc t j = KStore w" for j w
    using others [OF that(1)] that(2) t(1) v by (auto split: if_splits)
  let ?S = "\<Sum>j<n. s32i s j + stored (kpc s j)" let ?T = "\<Sum>j<n. s32i t j + stored (kpc t j)"
  have "?T + s32i s i + stored (kpc s i) = ?S + a + stored x"
    using stored_sum_upd [OF i, of "s32i s" a "kpc s" x] t(1,2) by simp
  then have "int ?T = int ?S + (int a + int (stored x) - int (s32i s i) - int (stored (kpc s i)))" by linarith
  then show "race t = wrap32 (int ?T)"
    using r mutex_invD(3) [OF inv] by (simp only: wrap32_wrap32_add)
qed

lemma mutex_inv_step:
  assumes inv: "mutex_inv n s" and i: "i < n" and st: "mutex_next iters i c s = Some t"
  shows "mutex_inv n t"
proof -
  note race_id = wrap32_wrap32_add [of _ 0, simplified]
  have race: "wrap32 (race s) = race s" using mutex_invD(3) [OF inv] race_id by metis
  have held: "kpc s i \<noteq> KTop \<Longrightarrow> MYMUTEX s = Some i" using mutex_invD(1) [OF inv i] by blast
  show ?thesis
  proof (cases "kpc s i")
    case KTop
    then show ?thesis using st race
      by (intro mutex_inv_move [OF inv i, of t KLoad "s32i s i"]) (auto simp: mutex_next_def split: if_splits)
  next
    case KLoad
    then show ?thesis using st race held
      by (intro mutex_inv_move [OF inv i, of t "KStore (race s)" "s32i s i"]) (auto simp: mutex_next_def)
  next
    case (KStore v)
    then have "v = race s" by (rule mutex_invD(2) [OF inv i])
    then show ?thesis using KStore st held
      by (intro mutex_inv_move [OF inv i, of t KUnlock "s32i s i"]) (auto simp: mutex_next_def)
  next
    case KUnlock
    then show ?thesis using st race held
      by (intro mutex_inv_move [OF inv i, of t KTop "Suc (s32i s i)"]) (auto simp: mutex_next_def)
  qed
qed

interpretation mut: mutex_system kt_init "sched (mutex_next iters) n" "mutex_inv n"
  "\<lambda>s i. i < n \<and> MYMUTEX s = Some i" "\<lambda>s i. i < n \<and> MYMUTEX s = Some i" for iters n
proof unfold_locales
  show "kt_init s \<Longrightarrow> mutex_inv n s" for s
    by (auto simp: kt_init_def wrap32_id intro!: mutex_invI)
  show "mutex_inv n s \<Longrightarrow> sched (mutex_next iters) n s t \<Longrightarrow> mutex_inv n t" for s t
    by (elim schedE) (rule mutex_inv_step)
qed auto

text \<open>No protection: neither the counter nor a loaded value exceeds the number of stores.\<close>

definition race_inv :: "nat \<Rightarrow> nat \<Rightarrow> kt_state \<Rightarrow> bool" where
  "race_inv n iters s \<longleftrightarrow>
     (int (n * iters) \<le> INT_MAX \<longrightarrow>
        0 \<le> race s \<and> race s \<le> int (kt_total n s) \<and>
        (\<forall>i<n. s32i s i \<le> iters) \<and>
        (\<forall>i<n. \<forall>v. kpc s i = KStore v \<longrightarrow> 0 \<le> v \<and> v \<le> int (kt_total n s) \<and> s32i s i < iters))"

lemma race_inv_step:
  assumes inv: "race_inv n iters s" and i: "i < n" and st: "race_next iters i c s = Some t"
  shows "race_inv n iters t"
proof -
  {
    assume small: "int (n * iters) \<le> INT_MAX"
    with inv have r: "0 \<le> race s" "race s \<le> int (kt_total n s)" and le: "\<And>j. j < n \<Longrightarrow> s32i s j \<le> iters"
      and pend: "\<And>j v. j < n \<Longrightarrow> kpc s j = KStore v \<Longrightarrow> 0 \<le> v \<and> v \<le> int (kt_total n s) \<and> s32i s j < iters"
      unfolding race_inv_def by blast+
    have "0 \<le> race t \<and> race t \<le> int (kt_total n t) \<and> (\<forall>i<n. s32i t i \<le> iters) \<and>
      (\<forall>i<n. \<forall>v. kpc t i = KStore v \<longrightarrow> 0 \<le> v \<and> v \<le> int (kt_total n t) \<and> s32i t i < iters)"
    proof (cases "kpc s i")
      case KTop
      then have t: "t = s\<lparr>kpc := (kpc s)(i := KStore (race s))\<rparr>" "s32i s i < iters"
        using st by (auto simp: race_next_def split: if_splits)
      then show ?thesis using r le pend by (auto simp: kt_total_def)
    next
      case (KStore v)
      then have t: "t = s\<lparr>race := wrap32 (v + 1), s32i := (s32i s)(i := Suc (s32i s i)), kpc := (kpc s)(i := KTop)\<rparr>"
        using st by (simp add: race_next_def)
      have tot: "kt_total n t = Suc (kt_total n s)" using kt_total_Suc [OF i] t by (simp add: kt_total_def)
      have le': "\<And>j. j < n \<Longrightarrow> s32i t j \<le> iters" using le pend [OF i KStore] t by auto
      then have "kt_total n t \<le> (\<Sum>j<n. iters)" unfolding kt_total_def by (intro sum_mono) simp
      then have "kt_total n t \<le> n * iters" by simp
      then have "int (kt_total n t) \<le> int (n * iters)" by (simp only: of_nat_le_iff)
      then have "int (kt_total n t) \<le> 2147483647" using small by linarith
      then have "race t = v + 1" using t tot pend [OF i KStore] by (simp add: wrap32_id)
      moreover have "0 \<le> w \<and> w \<le> int (kt_total n t) \<and> s32i t j < iters" if "j < n" "kpc t j = KStore w" for j w
        using that pend [of j w] tot by (auto simp: t(1) split: if_splits)
      ultimately show ?thesis using le' tot pend [OF i KStore] by auto
    qed (use st in \<open>simp_all add: race_next_def\<close>)
  }
  then show ?thesis unfolding race_inv_def by blast
qed

interpretation racy: invariant_system kt_init "sched (race_next iters) n" "race_inv n iters" for iters n
proof unfold_locales
  show "kt_init s \<Longrightarrow> race_inv n iters s" for s by (auto simp: kt_init_def race_inv_def)
  show "race_inv n iters s \<Longrightarrow> sched (race_next iters) n s t \<Longrightarrow> race_inv n iters t" for s t
    by (elim schedE) (rule race_inv_step)
qed

section \<open>Lost updates\<close>

text \<open>A thread that runs alone for \<open>k\<close> iterations.\<close>

lemma race_solo:
  assumes "i < n" and "kpc s i = KTop" and "s32i s i + k \<le> iters" and "0 \<le> race s" and "race s + int k \<le> INT_MAX"
  shows "(sched (race_next iters) n)\<^sup>*\<^sup>* s (s\<lparr>race := race s + int k, s32i := (s32i s)(i := s32i s i + k)\<rparr>)"
  using assms
proof (induction k)
  case 0
  then show ?case by simp
next
  case (Suc k)
  let ?u = "s\<lparr>race := race s + int k, s32i := (s32i s)(i := s32i s i + k)\<rparr>"
  let ?v = "?u\<lparr>kpc := (kpc s)(i := KStore (race s + int k))\<rparr>"
  let ?w = "s\<lparr>race := race s + int (Suc k), s32i := (s32i s)(i := s32i s i + Suc k)\<rparr>"
  have "race_next iters i () ?u = Some ?v" using Suc.prems by (simp add: race_next_def)
  moreover have "race_next iters i () ?v = Some ?w"
    using Suc.prems by (simp add: race_next_def wrap32_id fun_upd_idem)
  moreover have "(sched (race_next iters) n)\<^sup>*\<^sup>* s ?u" by (rule Suc.IH) (use Suc.prems in auto)
  ultimately show ?case using Suc.prems(1) by (meson rtranclp.rtrancl_into_rtrancl sched)
qed

text \<open>
  How much can be lost: every store stores at least 1, so a thread past its first iteration loads at
  least 1, and whoever finishes stores at least 2.
\<close>

definition race_low :: "nat \<Rightarrow> nat \<Rightarrow> kt_state \<Rightarrow> bool" where
  "race_low n iters s \<longleftrightarrow>
     (\<forall>i<n. 1 \<le> s32i s i \<longrightarrow> 1 \<le> race s) \<and>
     (\<forall>i<n. \<forall>v. kpc s i = KStore v \<longrightarrow> 1 \<le> s32i s i \<longrightarrow> 1 \<le> v) \<and>
     (2 \<le> race s \<or> (\<exists>i<n. s32i s i < iters))"

lemma race_store_value:
  assumes inv: "race_inv n iters s" and small: "int (n * iters) \<le> INT_MAX" and i: "i < n" "kpc s i = KStore v"
  shows "wrap32 (v + 1) = v + 1" and "0 \<le> v"
proof -
  have v: "0 \<le> v" "v \<le> int (kt_total n s)" "s32i s i < iters" and le: "\<forall>j<n. s32i s j \<le> iters"
    using inv small i unfolding race_inv_def by blast+
  have "kt_total n s < (\<Sum>j<n. iters)" unfolding kt_total_def
    by (rule sum_strict_mono_ex1) (use le v(3) i(1) in auto)
  then have "kt_total n s < n * iters" by simp
  then have "int (kt_total n s) < int (n * iters)" by (simp only: of_nat_less_iff)
  then show "wrap32 (v + 1) = v + 1" using v small by (intro wrap32_id) linarith+
  show "0 \<le> v" by (rule v(1))
qed

lemma race_low_step:
  assumes low: "race_low n iters s" and inv: "race_inv n iters s" and small: "int (n * iters) \<le> INT_MAX"
    and two: "2 \<le> iters" and i: "i < n" and st: "race_next iters i c s = Some t"
  shows "race_low n iters t"
proof (cases "kpc s i")
  case KTop
  then have "t = s\<lparr>kpc := (kpc s)(i := KStore (race s))\<rparr>" using st by (auto simp: race_next_def split: if_splits)
  then show ?thesis using low i unfolding race_low_def by auto
next
  case (KStore v)
  note val = race_store_value [OF inv small i KStore]
  have t: "t = s\<lparr>race := v + 1, s32i := (s32i s)(i := Suc (s32i s i)), kpc := (kpc s)(i := KTop)\<rparr>"
    using KStore st val(1) by (simp add: race_next_def)
  have "1 \<le> race t" using t val(2) by simp
  moreover have "1 \<le> w" if "j < n" "kpc t j = KStore w" "1 \<le> s32i t j" for j w
    using that low unfolding race_low_def t by (auto split: if_splits)
  moreover have "2 \<le> race t \<or> (\<exists>j<n. s32i t j < iters)"
  proof (cases "Suc (s32i s i) < iters")
    case False
    then have "1 \<le> s32i s i" using two by simp
    then have "1 \<le> v" using low i KStore unfolding race_low_def by blast
    then show ?thesis using t by simp
  qed (use i t in auto)
  ultimately show ?thesis unfolding race_low_def by blast
qed (use st in \<open>simp_all add: race_next_def\<close>)

interpretation low: invariant_system kt_init "sched (race_next iters) n"
  "\<lambda>s. int (n * iters) \<le> INT_MAX \<longrightarrow> 2 \<le> iters \<longrightarrow> 0 < n \<longrightarrow> race_inv n iters s \<and> race_low n iters s" for iters n
proof unfold_locales
  show "int (n * iters) \<le> INT_MAX \<longrightarrow> 2 \<le> iters \<longrightarrow> 0 < n \<longrightarrow> race_inv n iters s \<and> race_low n iters s" if "kt_init s" for s
    using that racy.init_inv [of s] by (auto simp: kt_init_def race_low_def)
  show "int (n * iters) \<le> INT_MAX \<longrightarrow> 2 \<le> iters \<longrightarrow> 0 < n \<longrightarrow> race_inv n iters t \<and> race_low n iters t"
    if "int (n * iters) \<le> INT_MAX \<longrightarrow> 2 \<le> iters \<longrightarrow> 0 < n \<longrightarrow> race_inv n iters s \<and> race_low n iters s"
      and "sched (race_next iters) n s t" for s t
    using that by (elim schedE) (use race_inv_step race_low_step in blast)
qed

text \<open>
  The worst run: thread 0 loads 0; thread 1 runs all but its last iteration, the others run to their
  ends; thread 0 stores 1, which thread 1 loads; thread 0 runs to its end; thread 1 stores 2.
\<close>

lemma race_worst:
  assumes "kt_init s" and "2 \<le> k" and "int (3 * k) \<le> INT_MAX"
  shows "\<exists>t. (sched (race_next k) 4)\<^sup>*\<^sup>* s t \<and> kt_done 4 k t \<and> race t = 2"
proof -
  let ?R = "(sched (race_next k) 4)\<^sup>*\<^sup>*"
  define S where "S r f p = s\<lparr>race := r, s32i := f, kpc := p\<rparr>" for r f p
  define f0 where "f0 = (\<lambda>_ :: nat. 0 :: nat)"
  define p0 where "p0 = (\<lambda>_ :: nat. KTop)"
  have step: "?R s (S r g q)" if "?R s (S r' f p)" "race_next k i () (S r' f p) = Some (S r g q)" "i < 4" for r r' f g p q i
    using that by (meson rtranclp.rtrancl_into_rtrancl sched)
  have solo: "?R s (S (r + int m) (f(i := f i + m)) p)"
    if "?R s (S r f p)" "i < 4" "p i = KTop" "f i + m \<le> k" "0 \<le> r" "r + int m \<le> INT_MAX" for r f p i m
  proof -
    have eq: "(S r f p)\<lparr>race := race (S r f p) + int m, s32i := (s32i (S r f p))(i := s32i (S r f p) i + m)\<rparr>
        = S (r + int m) (f(i := f i + m)) p"
      by (rule kt_state.equality) (simp_all add: S_def)
    have "?R (S r f p) (S (r + int m) (f(i := f i + m)) p)"
      using race_solo [of i 4 "S r f p" m k] that(2-6) unfolding eq by (simp add: S_def)
    with that(1) show ?thesis by (rule rtranclp_trans)
  qed
  have load: "race_next k i () (S r f p) = Some (S r f (p(i := KStore r)))" if "p i = KTop" "f i < k" for r f p i
    using that by (simp add: S_def race_next_def)
  have store: "race_next k i () (S r f p) = Some (S (v + 1) (f(i := Suc (f i))) (p(i := KTop)))"
    if "p i = KStore v" "is_int32 (v + 1)" for r f p i v
    using that by (simp add: S_def race_next_def wrap32_id is_int32_def)
  have k: "0 + int (k - 1) + int k + int k \<le> 2147483647" "0 + int (k - 1) \<le> 2147483647"
    "0 + int (k - 1) + int k \<le> 2147483647" "1 + int (k - 1) \<le> 2147483647" using assms(2,3) by linarith+
  have "s = S 0 f0 p0" using assms(1) by (simp add: S_def f0_def p0_def kt_init_def)
  then have "?R s (S 0 f0 p0)" by simp
  then have "?R s (S 0 f0 (p0(0 := KStore 0)))"
    by (rule step [OF _ load]) (use assms(2) in \<open>simp_all add: f0_def p0_def\<close>)
  then have "?R s (S (0 + int (k - 1)) (f0(1 := f0 1 + (k - 1))) (p0(0 := KStore 0)))"
    by (rule solo) (use k in \<open>simp_all add: f0_def p0_def\<close>)
  moreover define f1 where "f1 = f0(1 := f0 1 + (k - 1))"
  ultimately have "?R s (S (0 + int (k - 1)) f1 (p0(0 := KStore 0)))" by simp
  then have "?R s (S (0 + int (k - 1) + int k) (f1(2 := f1 2 + k)) (p0(0 := KStore 0)))"
    by (rule solo) (use k in \<open>simp_all add: f1_def f0_def p0_def\<close>)
  moreover define f2 where "f2 = f1(2 := f1 2 + k)"
  ultimately have "?R s (S (0 + int (k - 1) + int k) f2 (p0(0 := KStore 0)))" by simp
  then have "?R s (S (0 + int (k - 1) + int k + int k) (f2(3 := f2 3 + k)) (p0(0 := KStore 0)))"
    by (rule solo) (use k in \<open>simp_all add: f2_def f1_def f0_def p0_def\<close>)
  moreover define f3 where "f3 = f2(3 := f2 3 + k)"
  ultimately have "?R s (S (0 + int (k - 1) + int k + int k) f3 (p0(0 := KStore 0)))" by simp
  then have "?R s (S (0 + 1) (f3(0 := Suc (f3 0))) (p0(0 := KStore 0, 0 := KTop)))"
    by (rule step [OF _ store]) (simp_all add: is_int32_def)
  then have "?R s (S 1 (f3(0 := Suc (f3 0))) p0)" by (simp add: p0_def fun_upd_idem)
  moreover define f4 where "f4 = f3(0 := Suc (f3 0))"
  ultimately have "?R s (S 1 f4 p0)" by simp
  then have "?R s (S 1 f4 (p0(1 := KStore 1)))"
    by (rule step [OF _ load]) (use assms(2) in \<open>simp_all add: f4_def f3_def f2_def f1_def f0_def p0_def\<close>)
  then have "?R s (S (1 + int (k - 1)) (f4(0 := f4 0 + (k - 1))) (p0(1 := KStore 1)))"
    by (rule solo) (use k assms(2) in \<open>simp_all add: f4_def f3_def f2_def f1_def f0_def p0_def\<close>)
  moreover define f5 where "f5 = f4(0 := f4 0 + (k - 1))"
  ultimately have "?R s (S (1 + int (k - 1)) f5 (p0(1 := KStore 1)))" by simp
  then have "?R s (S (1 + 1) (f5(1 := Suc (f5 1))) (p0(1 := KStore 1, 1 := KTop)))"
    by (rule step [OF _ store]) (simp_all add: is_int32_def)
  moreover have "f5(1 := Suc (f5 1)) = (\<lambda>j. if j < 4 then k else 0)"
    using assms(2) by (auto simp: f5_def f4_def f3_def f2_def f1_def f0_def fun_eq_iff)
  then have "kt_done 4 k (S (1 + 1) (f5(1 := Suc (f5 1))) (p0(1 := KStore 1, 1 := KTop)))"
    by (simp add: kt_done_def S_def p0_def list_all_iff)
  ultimately show ?thesis by (intro exI conjI) (auto simp: S_def)
qed

section \<open>Unloading\<close>

text \<open>
  \<open>rmmod\<close>: \<open>hello_exit\<close> prints the counter and, its calls of \<open>kthread_stop\<close> being commented out, does not
  wait for the threads; then the module's code and data are gone, and a thread that still has to run
  executes freed memory (\<open>k_oops\<close>).
\<close>

record kmod =
  kt :: kt_state
  k_loaded :: bool
  k_text :: "string option"
  k_oops :: bool

definition kmod_init :: "kmod \<Rightarrow> bool" where
  "kmod_init s \<longleftrightarrow> kt_init (kt s) \<and> k_loaded s \<and> k_text s = None \<and> \<not> k_oops s"

definition kmod_next :: "(nat \<Rightarrow> unit \<Rightarrow> kt_state \<Rightarrow> kt_state option) \<Rightarrow> nat \<Rightarrow> bool \<Rightarrow> kmod \<Rightarrow> kmod option" where
  "kmod_next nxt i rmmod s =
     (if k_oops s then None
      else if rmmod then
        (if k_loaded s then Some (s\<lparr>k_loaded := False, k_text := Some (hello_exit (kt s))\<rparr>) else None)
      else
        (case nxt i () (kt s) of
           None \<Rightarrow> None
         | Some t \<Rightarrow> Some (if k_loaded s then s\<lparr>kt := t\<rparr> else s\<lparr>k_oops := True\<rparr>)))"

lemma kmod_loaded_reach:
  assumes "reach kmod_init (sched (kmod_next nxt) n) s"
  shows "reach kt_init (sched nxt n) (kt s) \<and> (k_loaded s \<longrightarrow> \<not> k_oops s)"
  using assms
proof (induction rule: reach.induct)
  case (reach_init s)
  then show ?case by (auto simp: kmod_init_def intro: reach.reach_init)
next
  case (reach_step s t)
  from reach_step(2) obtain i c where i: "i < n" "kmod_next nxt i c s = Some t" by (elim schedE)
  then have "kt t = kt s \<or> nxt i () (kt s) = Some (kt t)" "k_loaded t \<longrightarrow> k_loaded s \<and> \<not> k_oops t"
    by (auto simp: kmod_next_def split: if_splits option.splits)
  then show ?case using reach_step.IH i(1) by (metis reach.reach_step sched)
qed

section \<open>Properties\<close>

lemma total_small: "int (NKTHREAD * IRT_TIME) = 4000000"
  by (simp add: NKTHREAD_def IRT_TIME_def)

lemma counter_when_done:
  assumes "reach kt_init (sched (atomic_next IRT_TIME) NKTHREAD) s \<or> reach kt_init (sched (mutex_next IRT_TIME) NKTHREAD) s"
    and "kt_done NKTHREAD IRT_TIME s"
  shows "race s = 4000000"
  using assms(1)
proof
  assume "reach kt_init (sched (atomic_next IRT_TIME) NKTHREAD) s"
  then have "race s = wrap32 (int (kt_total NKTHREAD s))"
    using atom.reach_inv by (simp add: atomic_inv_def)
  then show ?thesis using total_small by (simp only: kt_done_total [OF assms(2)]) (simp add: wrap32_id)
next
  assume "reach kt_init (sched (mutex_next IRT_TIME) NKTHREAD) s"
  then have "race s = wrap32 (int (\<Sum>i<NKTHREAD. s32i s i + stored (kpc s i)))"
    using mut.reach_inv mutex_invD(3) by blast
  moreover have "(\<Sum>i<NKTHREAD. s32i s i + stored (kpc s i)) = kt_total NKTHREAD s"
    unfolding kt_total_def using assms(2) by (intro sum.cong) (auto simp: kt_done_def list_all_iff)
  ultimately show ?thesis using total_small by (simp only: kt_done_total [OF assms(2)]) (simp add: wrap32_id)
qed

text \<open>Unloaded when its threads are done, the module of \<open>multi_atomic\<close> or \<open>multi_mutex\<close> reports 4000000 and
  nothing is left to run; unloaded at once, it reports 0 and a thread runs freed code.\<close>

theorem kmod_unload:
  assumes "nxt = atomic_next IRT_TIME \<or> nxt = mutex_next IRT_TIME" and "kmod_init s0"
  shows "(\<forall>s. reach kmod_init (sched (kmod_next nxt) NKTHREAD) s \<and> k_loaded s \<and> kt_done NKTHREAD IRT_TIME (kt s) \<longrightarrow>
      (\<exists>t. kmod_next nxt 0 True s = Some t \<and> k_text t = Some (''Unload module.'' @ CHR 0x0A # ''race = '' @ show_int 4000000 @ [CHR ''.'', CHR 0x0A]) \<and>
        (\<forall>i<NKTHREAD. \<forall>c. kmod_next nxt i c t = None))) \<and>
    (\<exists>t. run (kmod_next nxt) [(0, True), (0, False)] s0 = Some t \<and>
      k_text t = Some (''Unload module.'' @ CHR 0x0A # ''race = '' @ show_int 0 @ [CHR ''.'', CHR 0x0A]) \<and> k_oops t)"
proof (intro conjI allI impI)
  fix s assume s: "reach kmod_init (sched (kmod_next nxt) NKTHREAD) s \<and> k_loaded s \<and> kt_done NKTHREAD IRT_TIME (kt s)"
  then have r: "reach kt_init (sched nxt NKTHREAD) (kt s)" "\<not> k_oops s" using kmod_loaded_reach by blast+
  then have race: "race (kt s) = 4000000" using assms(1) s counter_when_done by blast
  have "nxt i () (kt s) = None" if "i < NKTHREAD" for i
    using assms(1) s that by (auto simp: kt_done_def list_all_iff atomic_next_def mutex_next_def)
  then show "\<exists>t. kmod_next nxt 0 True s = Some t \<and> k_text t = Some (''Unload module.'' @ CHR 0x0A # ''race = '' @ show_int 4000000 @ [CHR ''.'', CHR 0x0A]) \<and>
      (\<forall>i<NKTHREAD. \<forall>c. kmod_next nxt i c t = None)"
    using s r(2) race by (auto simp: kmod_next_def hello_exit_def)
next
  show "\<exists>t. run (kmod_next nxt) [(0, True), (0, False)] s0 = Some t \<and>
      k_text t = Some (''Unload module.'' @ CHR 0x0A # ''race = '' @ show_int 0 @ [CHR ''.'', CHR 0x0A]) \<and> k_oops t"
    using assms by (auto simp: kmod_init_def kt_init_def kmod_next_def atomic_next_def mutex_next_def hello_exit_def IRT_TIME_def)
qed

text \<open>C10: with the atomic addition, and with the mutex, the counter is exactly 4000000 when all four
  threads are done, in every interleaving; and at most one thread ever holds the mutex.\<close>

theorem counter_exact:
  assumes "reach kt_init (sched (atomic_next IRT_TIME) NKTHREAD) s \<or> reach kt_init (sched (mutex_next IRT_TIME) NKTHREAD) s"
    and "kt_done NKTHREAD IRT_TIME s"
  shows "race s = 4000000"
  using assms by (rule counter_when_done)

text \<open>A run to the end, for the witness: the threads one after the other.\<close>

lemma atomic_solo:
  assumes "i < n" and "s32i s i + k \<le> iters"
  shows "\<exists>t. (sched (atomic_next iters) n)\<^sup>*\<^sup>* s t \<and> s32i t = (s32i s)(i := s32i s i + k) \<and> kpc t = kpc s"
  using assms(2)
proof (induction k)
  case 0
  have "s32i s = (s32i s)(i := s32i s i + 0)" by simp
  then show ?case by blast
next
  case (Suc k)
  have "s32i s i + k \<le> iters" using Suc.prems by simp
  from Suc.IH [OF this] obtain t
    where t: "(sched (atomic_next iters) n)\<^sup>*\<^sup>* s t" "s32i t = (s32i s)(i := s32i s i + k)" "kpc t = kpc s"
    by blast
  let ?u = "t\<lparr>race := wrap32 (race t + 1), s32i := (s32i t)(i := Suc (s32i t i))\<rparr>"
  have "atomic_next iters i () t = Some ?u" using t(2) Suc.prems by (simp add: atomic_next_def)
  then have "(sched (atomic_next iters) n)\<^sup>*\<^sup>* s ?u" using t(1) assms(1) by (meson rtranclp.rtrancl_into_rtrancl sched)
  then show ?case using t(2,3) by (intro exI [of _ ?u]) simp
qed

lemma atomic_all:
  assumes "kt_init s" and "m \<le> n"
  shows "\<exists>t. (sched (atomic_next iters) n)\<^sup>*\<^sup>* s t \<and> s32i t = (\<lambda>i. if i < m then iters else 0) \<and> kpc t = (\<lambda>_. KTop)"
  using assms(2)
proof (induction m)
  case 0
  then show ?case using assms(1) by (auto simp: kt_init_def)
next
  case (Suc m)
  then obtain t where t: "(sched (atomic_next iters) n)\<^sup>*\<^sup>* s t" "s32i t = (\<lambda>i. if i < m then iters else 0)" "kpc t = (\<lambda>_. KTop)"
    by auto
  obtain u where "(sched (atomic_next iters) n)\<^sup>*\<^sup>* t u" "s32i u = (s32i t)(m := s32i t m + iters)" "kpc u = kpc t"
    using atomic_solo [of m n t iters iters] Suc.prems t(2) by auto
  moreover have "(s32i t)(m := s32i t m + iters) = (\<lambda>i. if i < Suc m then iters else 0)"
    unfolding t(2) by (rule ext) auto
  ultimately show ?case using t(1,3) by (intro exI [of _ u]) (auto intro: rtranclp_trans)
qed

definition kt_start :: kt_state where
  "kt_start = \<lparr>race = 0, s32i = \<lambda>_. 0, kpc = \<lambda>_. KTop, MYMUTEX = None\<rparr>"

theorem counter_exact_witness:
  "\<exists>s. reach kt_init (sched (atomic_next IRT_TIME) NKTHREAD) s \<and> kt_done NKTHREAD IRT_TIME s \<and> race s = 4000000"
proof -
  have init: "kt_init kt_start" by (simp add: kt_init_def kt_start_def)
  obtain t where t: "(sched (atomic_next IRT_TIME) NKTHREAD)\<^sup>*\<^sup>* kt_start t"
    "s32i t = (\<lambda>i. if i < NKTHREAD then IRT_TIME else 0)" "kpc t = (\<lambda>_. KTop)"
    using atomic_all [OF init order_refl] by blast
  have r: "reach kt_init (sched (atomic_next IRT_TIME) NKTHREAD) t"
    by (rule reach_steps [OF reach_init [of kt_init, OF init] t(1)])
  have d: "kt_done NKTHREAD IRT_TIME t" using t by (simp add: kt_done_def list_all_iff)
  show ?thesis using counter_exact [OF disjI1 [OF r] d] r d by blast
qed

text \<open>C35: without protection some interleaving of the complete run ends with 2: all but two of the 4000000
  updates are lost; and that is the least: every complete run, whatever \<open>hello_exit\<close> prints, ends between
  2 and 4000000, and no run is ever beyond that.\<close>

theorem race_loses_updates:
  assumes "kt_init s"
  shows "(\<exists>t. (sched (race_next IRT_TIME) NKTHREAD)\<^sup>*\<^sup>* s t \<and> kt_done NKTHREAD IRT_TIME t \<and> race t = 2) \<and>
    (\<forall>u. (sched (race_next IRT_TIME) NKTHREAD)\<^sup>*\<^sup>* s u \<longrightarrow> 0 \<le> race u \<and> race u \<le> 4000000 \<and>
      (kt_done NKTHREAD IRT_TIME u \<longrightarrow> 2 \<le> race u))"
proof (intro conjI allI impI)
  let ?n = NKTHREAD and ?k = IRT_TIME
  show "\<exists>t. (sched (race_next ?k) ?n)\<^sup>*\<^sup>* s t \<and> kt_done ?n ?k t \<and> race t = 2"
    using race_worst [OF assms, of ?k] by (simp add: NKTHREAD_def IRT_TIME_def)
  fix u assume u: "(sched (race_next ?k) ?n)\<^sup>*\<^sup>* s u"
  have small: "int (?n * ?k) \<le> 2147483647" using total_small by simp
  have "race_inv ?n ?k u \<and> race_low ?n ?k u"
    using low.steps_inv [OF u] low.init_inv [OF assms, of ?n ?k] small by (simp add: NKTHREAD_def IRT_TIME_def)
  then have inv: "race_inv ?n ?k u" and low: "race_low ?n ?k u" by blast+
  show "0 \<le> race u" and "race u \<le> 4000000"
  proof -
    from inv small have r: "0 \<le> race u" "race u \<le> int (kt_total ?n u)" and "\<forall>i<?n. s32i u i \<le> ?k"
      unfolding race_inv_def by blast+
    then have "kt_total ?n u \<le> (\<Sum>i<?n. ?k)" unfolding kt_total_def by (intro sum_mono) simp
    then have "kt_total ?n u \<le> ?n * ?k" by simp
    then have "int (kt_total ?n u) \<le> int (?n * ?k)" by (simp only: of_nat_le_iff)
    then show "0 \<le> race u" "race u \<le> 4000000" using r total_small by linarith+
  qed
  show "2 \<le> race u" if "kt_done ?n ?k u"
    using low that by (auto simp: race_low_def kt_done_def list_all_iff)
qed

theorem race_loses_updates_witness:
  "\<exists>t. (sched (race_next IRT_TIME) NKTHREAD)\<^sup>*\<^sup>* kt_start t \<and> kt_done NKTHREAD IRT_TIME t \<and> race t = 2"
proof -
  have "kt_init kt_start" by (simp add: kt_init_def kt_start_def)
  from race_loses_updates [OF this] show ?thesis by blast
qed

end
