(* ===== verification/SharedMemory.thy ===== *)
theory SharedMemory
  imports Prelude CStrings
begin

text \<open>
  The leader and the follower of studio15: two processes that share an array and three guard
  variables. Every access to shared memory is a step, \<open>memcpy\<close> copies element by element, and the
  two processes (thread 0 the leader, thread 1 the follower) interleave freely, from the calls that open the
  object on. Both are built with the same size of the array, any number, and the same macros. A new shared
  memory object has length 0, and is filled with zeros when it is given its length; opening it fails before the
  leader has created it and after it has been unlinked, and an access to it before it has its length is a SIGBUS.
  The other calls (\<open>malloc\<close>, \<open>ftruncate\<close>, \<open>mmap\<close> and the \<open>shm_open\<close> of the leader) succeed.
\<close>

section \<open>The programs\<close>

text \<open>
  What the two programs are compiled with: the default of \<open>shm_ds.h\<close>, and the build of the Makefile, in
  which the follower copies the array instead of printing it and the leader reports its stages.
\<close>

record shm_build =
  SIZE_SHARE_MEM :: nat
  studio15_q6 :: bool
  enable_stage_output :: bool

definition default_build :: shm_build where
  "default_build = \<lparr>SIZE_SHARE_MEM = 10, studio15_q6 = False, enable_stage_output = False\<rparr>"

definition makefile_build :: shm_build where
  "makefile_build = \<lparr>SIZE_SHARE_MEM = 10000000, studio15_q6 = True, enable_stage_output = True\<rparr>"

definition stages :: "string list" where
  "stages = [''Step 1: Generate Random Array Finished!'', ''Step 2: Mapping Finished!'',
     ''Step 2: Copying Finished! Wait to exit!'', ''Step 3: Successfully Exit!'']"

definition stage_text :: "shm_build \<Rightarrow> nat \<Rightarrow> string" where
  "stage_text b k = (if enable_stage_output b then stages ! k @ [CHR 0x0A] else [])"

definition rnd_populate :: "(nat \<Rightarrow> int) \<Rightarrow> nat \<Rightarrow> int list" where
  "rnd_populate rand s32len = map (\<lambda>s32i. rand s32i mod 1000) [0..<s32len]"

text \<open>\<open>print_intlist\<close>: element \<open>k\<close>, and all of them.\<close>

definition print_int :: "nat \<Rightarrow> int \<Rightarrow> string" where
  "print_int s32i v = ''['' @ fmt_d 5 v @ ''] '' @ (if (s32i + 1) mod 5 = 0 then [CHR 0x0A] else [])"

definition print_intlist :: "int list \<Rightarrow> string" where
  "print_intlist xs = concat (map (\<lambda>s32i. print_int s32i (xs ! s32i)) [0..<length xs])"

datatype leader_pc = LOpen | LTrunc | LMap | LResetW | LWaitW | LCopy nat | LSetR | LResetD | LWaitD | LPrint | LDone

datatype follower_pc = FOpen | FMap | FSetW | FResetR | FWaitR | FRead nat | FSetD | FDone | FFail | FBus

text \<open>\<open>ps32local\<close> is the leader's local array and \<open>fs32local\<close> the follower's, which \<open>malloc\<close> returns with
  contents \<open>junk\<close>. \<open>created\<close>: the object has a name; \<open>sized\<close>: it has its length. The follower ends in \<open>FFail\<close> when
  it cannot open the object (\<open>mmap\<close> of the descriptor -1 fails), in \<open>FBus\<close> on a SIGBUS.\<close>

record shm =
  s32write_guard :: int
  s32read_guard :: int
  s32delete_guard :: int
  as32data :: "int list"
  created :: bool
  sized :: bool
  ps32local :: "int list"
  fs32local :: "int list"
  lpc :: leader_pc
  fpc :: follower_pc
  lout :: string
  fout :: string

definition shm_init :: "shm_build \<Rightarrow> (nat \<Rightarrow> int) \<Rightarrow> (nat \<Rightarrow> int) \<Rightarrow> shm \<Rightarrow> bool" where
  "shm_init b rand junk s \<longleftrightarrow> s = \<lparr>s32write_guard = 0, s32read_guard = 0, s32delete_guard = 0,
     as32data = replicate (SIZE_SHARE_MEM b) 0, created = False, sized = False,
     ps32local = rnd_populate rand (SIZE_SHARE_MEM b), fs32local = map junk [0..<SIZE_SHARE_MEM b],
     lpc = LOpen, fpc = FOpen, lout = [], fout = []\<rparr>"

definition leader_next :: "shm_build \<Rightarrow> shm \<Rightarrow> shm option" where
  "leader_next b s =
     (case lpc s of
        LOpen \<Rightarrow> Some (s\<lparr>created := True, lout := lout s @ stage_text b 0, lpc := LTrunc\<rparr>)
      | LTrunc \<Rightarrow> Some (s\<lparr>sized := True, lpc := LMap\<rparr>)
      | LMap \<Rightarrow> Some (s\<lparr>lpc := LResetW\<rparr>)
      | LResetW \<Rightarrow>
          Some (s\<lparr>s32write_guard := 0, lout := lout s @ stage_text b 1, lpc := LWaitW\<rparr>)
      | LWaitW \<Rightarrow> Some (if s32write_guard s = 0 then s else s\<lparr>lpc := LCopy 0\<rparr>)
      | LCopy k \<Rightarrow>
          Some (if k < SIZE_SHARE_MEM b
                then s\<lparr>as32data := (as32data s)[k := ps32local s ! k], lpc := LCopy (Suc k)\<rparr>
                else s\<lparr>lout := lout s @ stage_text b 2, lpc := LSetR\<rparr>)
      | LSetR \<Rightarrow> Some (s\<lparr>s32read_guard := 1, lpc := LResetD\<rparr>)
      | LResetD \<Rightarrow> Some (s\<lparr>s32delete_guard := 0, lpc := LWaitD\<rparr>)
      | LWaitD \<Rightarrow> Some (if s32delete_guard s = 0 then s else s\<lparr>lpc := LPrint\<rparr>)
      | LPrint \<Rightarrow>
          Some (s\<lparr>lout := lout s @ (if studio15_q6 b then [] else print_intlist (ps32local s)) @
              stage_text b 3, created := False, lpc := LDone\<rparr>)
      | LDone \<Rightarrow> None)"

definition follower_next :: "shm_build \<Rightarrow> shm \<Rightarrow> shm option" where
  "follower_next b s =
     (case fpc s of
        FOpen \<Rightarrow> Some (s\<lparr>fpc := if created s then FMap else FFail\<rparr>)
      | FMap \<Rightarrow> Some (s\<lparr>fpc := FSetW\<rparr>)
      | FSetW \<Rightarrow> Some (if sized s then s\<lparr>s32write_guard := 1, fpc := FResetR\<rparr> else s\<lparr>fpc := FBus\<rparr>)
      | FResetR \<Rightarrow> Some (s\<lparr>s32read_guard := 0, fpc := FWaitR\<rparr>)
      | FWaitR \<Rightarrow> Some (if s32read_guard s = 0 then s else s\<lparr>fpc := FRead 0\<rparr>)
      | FRead k \<Rightarrow>
          Some (if k < SIZE_SHARE_MEM b then
                  (if studio15_q6 b then s\<lparr>fs32local := (fs32local s)[k := as32data s ! k], fpc := FRead (Suc k)\<rparr>
                   else s\<lparr>fout := fout s @ print_int k (as32data s ! k), fpc := FRead (Suc k)\<rparr>)
                else s\<lparr>fpc := FSetD\<rparr>)
      | FSetD \<Rightarrow> Some (s\<lparr>s32delete_guard := 1, created := False, fpc := FDone\<rparr>)
      | FDone \<Rightarrow> None
      | FFail \<Rightarrow> None
      | FBus \<Rightarrow> None)"

definition shm_next :: "shm_build \<Rightarrow> nat \<Rightarrow> unit \<Rightarrow> shm \<Rightarrow> shm option" where
  "shm_next b i c s = (if i = 0 then leader_next b s else follower_next b s)"

abbreviation shm_step :: "shm_build \<Rightarrow> shm \<Rightarrow> shm \<Rightarrow> bool" where
  "shm_step b \<equiv> sched (shm_next b) 2"

lemma shm_step_cases:
  "shm_step b s t \<Longrightarrow> (leader_next b s = Some t \<Longrightarrow> P) \<Longrightarrow> (follower_next b s = Some t \<Longrightarrow> P) \<Longrightarrow> P"
  by (auto elim!: schedE simp: shm_next_def split: if_splits)

lemma leader_step: "leader_next b s = Some t \<Longrightarrow> shm_step b s t"
  by (rule sched [where i = 0 and c = "()"]) (simp_all add: shm_next_def)

lemma follower_step: "follower_next b s = Some t \<Longrightarrow> shm_step b s t"
  by (rule sched [where i = 1 and c = "()"]) (simp_all add: shm_next_def)

section \<open>The invariant\<close>

fun lstage :: "leader_pc \<Rightarrow> nat" where
  "lstage LOpen = 0" | "lstage LTrunc = 1" | "lstage LMap = 2" | "lstage LResetW = 3" | "lstage LWaitW = 4"
| "lstage (LCopy k) = 5" | "lstage LSetR = 6" | "lstage LResetD = 7" | "lstage LWaitD = 8" | "lstage LPrint = 9"
| "lstage LDone = 10"

fun fstage :: "follower_pc \<Rightarrow> nat" where
  "fstage FOpen = 0" | "fstage FFail = 0" | "fstage FMap = 1" | "fstage FSetW = 1" | "fstage FBus = 1" | "fstage FResetR = 2" | "fstage FWaitR = 3"
| "fstage (FRead k) = 4" | "fstage FSetD = 5" | "fstage FDone = 6"

fun copied :: "nat \<Rightarrow> leader_pc \<Rightarrow> nat" where
  "copied n (LCopy k) = k"
| "copied n l = (if lstage l < 5 then 0 else n)"

fun consumed :: "nat \<Rightarrow> follower_pc \<Rightarrow> nat" where
  "consumed n (FRead k) = k"
| "consumed n f = (if fstage f < 4 then 0 else n)"

text \<open>What the leader has reported.\<close>

definition leader_log :: "shm_build \<Rightarrow> int list \<Rightarrow> leader_pc \<Rightarrow> string" where
  "leader_log b loc l =
     (if 1 \<le> lstage l then stage_text b 0 else []) @
     (if 4 \<le> lstage l then stage_text b 1 else []) @
     (if 6 \<le> lstage l then stage_text b 2 else []) @
     (if 10 \<le> lstage l then (if studio15_q6 b then [] else print_intlist loc) @
        stage_text b 3 else [])"

definition first_ints :: "nat \<Rightarrow> int list \<Rightarrow> string" where
  "first_ints k xs = concat (map (\<lambda>i. print_int i (xs ! i)) [0..<k])"

text \<open>What the guards tell, given where the two processes are.\<close>

definition ctl_ok :: "int \<Rightarrow> int \<Rightarrow> int \<Rightarrow> bool \<Rightarrow> bool \<Rightarrow> leader_pc \<Rightarrow> follower_pc \<Rightarrow> bool" where
  "ctl_ok wg rg dg cr sz l f \<longleftrightarrow>
     (rg \<noteq> 0 \<longrightarrow> 7 \<le> lstage l) \<and> (4 \<le> fstage f \<longrightarrow> 7 \<le> lstage l) \<and>
     (wg \<noteq> 0 \<longrightarrow> 2 \<le> fstage f) \<and> (5 \<le> lstage l \<longrightarrow> 2 \<le> fstage f) \<and>
     (dg \<noteq> 0 \<longrightarrow> f = FDone) \<and> (9 \<le> lstage l \<longrightarrow> f = FDone) \<and>
     (sz \<longleftrightarrow> 2 \<le> lstage l) \<and> (2 \<le> fstage f \<longrightarrow> 2 \<le> lstage l) \<and>
     (l = LOpen \<longrightarrow> fstage f = 0 \<and> \<not> cr) \<and> (1 \<le> lstage l \<longrightarrow> f \<noteq> FDone \<longrightarrow> cr)"

text \<open>How far the copies are.\<close>

definition dat_ok :: "nat \<Rightarrow> int list \<Rightarrow> int list \<Rightarrow> leader_pc \<Rightarrow> bool" where
  "dat_ok n loc dat l \<longleftrightarrow>
     length loc = n \<and> length dat = n \<and> copied n l \<le> n \<and> take (copied n l) dat = take (copied n l) loc"

definition got_ok :: "shm_build \<Rightarrow> int list \<Rightarrow> follower_pc \<Rightarrow> int list \<Rightarrow> string \<Rightarrow> bool" where
  "got_ok b loc f floc out \<longleftrightarrow>
     (let n = SIZE_SHARE_MEM b; k = consumed n f in
      k \<le> n \<and> length floc = n \<and>
      (if studio15_q6 b then out = [] \<and> take k floc = take k loc else out = first_ints k loc))"

definition shm_inv :: "shm_build \<Rightarrow> (nat \<Rightarrow> int) \<Rightarrow> shm \<Rightarrow> bool" where
  "shm_inv b rand s \<longleftrightarrow>
     ctl_ok (s32write_guard s) (s32read_guard s) (s32delete_guard s) (created s) (sized s) (lpc s) (fpc s) \<and>
     dat_ok (SIZE_SHARE_MEM b) (ps32local s) (as32data s) (lpc s) \<and>
     got_ok b (ps32local s) (fpc s) (fs32local s) (fout s) \<and>
     ps32local s = rnd_populate rand (SIZE_SHARE_MEM b) \<and>
     lout s = leader_log b (ps32local s) (lpc s)"

lemma first_ints_0 [simp]: "first_ints 0 xs = []"
  by (simp add: first_ints_def)

lemma first_ints_Suc: "first_ints (Suc k) xs = first_ints k xs @ print_int k (xs ! k)"
  by (simp add: first_ints_def)

lemma dat_ok_same:
  assumes "dat_ok n loc dat l" and "6 \<le> lstage l"
  shows "dat = loc"
proof -
  have "copied n l = n" using assms(2) by (cases l) simp_all
  then have "take (length dat) dat = take (length loc) loc" using assms(1) by (simp add: dat_ok_def)
  then show ?thesis by simp
qed

lemma take_Suc_upd:
  "take k ys = take k xs \<Longrightarrow> k < length xs \<Longrightarrow> length ys = length xs \<Longrightarrow>
   take (Suc k) (ys[k := xs ! k]) = take (Suc k) xs"
  by (simp add: take_Suc_conv_app_nth)

lemma shm_inv_init: "shm_init b rand junk s \<Longrightarrow> shm_inv b rand s"
  by (simp add: shm_init_def shm_inv_def ctl_ok_def dat_ok_def got_ok_def leader_log_def rnd_populate_def)

lemma ctl_leader:
  assumes "leader_next b s = Some t"
    and "ctl_ok (s32write_guard s) (s32read_guard s) (s32delete_guard s) (created s) (sized s) (lpc s) (fpc s)"
  shows "ctl_ok (s32write_guard t) (s32read_guard t) (s32delete_guard t) (created t) (sized t) (lpc t) (fpc t)"
  using assms unfolding leader_next_def ctl_ok_def
  by (cases "lpc s"; clarsimp split: if_splits)

lemma ctl_follower:
  assumes "follower_next b s = Some t"
    and "ctl_ok (s32write_guard s) (s32read_guard s) (s32delete_guard s) (created s) (sized s) (lpc s) (fpc s)"
  shows "ctl_ok (s32write_guard t) (s32read_guard t) (s32delete_guard t) (created t) (sized t) (lpc t) (fpc t)"
  using assms unfolding follower_next_def ctl_ok_def
  by (cases "fpc s"; clarsimp split: if_splits)

lemma dat_leader:
  assumes "leader_next b s = Some t" and "dat_ok (SIZE_SHARE_MEM b) (ps32local s) (as32data s) (lpc s)"
  shows "dat_ok (SIZE_SHARE_MEM b) (ps32local t) (as32data t) (lpc t)"
proof (cases "lpc s")
  case (LCopy k)
  then show ?thesis using assms
    by (cases "k < SIZE_SHARE_MEM b") (auto simp: leader_next_def dat_ok_def intro!: take_Suc_upd)
qed (use assms in \<open>auto simp: leader_next_def dat_ok_def split: if_splits\<close>)

lemma got_follower:
  assumes "follower_next b s = Some t" and "got_ok b (ps32local s) (fpc s) (fs32local s) (fout s)"
    and "4 \<le> fstage (fpc s) \<Longrightarrow> as32data s = ps32local s" and "length (ps32local s) = SIZE_SHARE_MEM b"
  shows "got_ok b (ps32local t) (fpc t) (fs32local t) (fout t)"
proof (cases "fpc s")
  case (FRead k)
  then have "as32data s = ps32local s" using assms(3) by simp
  then show ?thesis using FRead assms
    by (cases "k < SIZE_SHARE_MEM b"; cases "studio15_q6 b")
      (auto simp: follower_next_def got_ok_def Let_def first_ints_Suc intro!: take_Suc_upd)
qed (use assms(1,2) in \<open>auto simp: follower_next_def got_ok_def Let_def split: if_splits\<close>)

lemma leader_frame:
  "leader_next b s = Some t \<Longrightarrow> fpc t = fpc s \<and> fs32local t = fs32local s \<and> fout t = fout s \<and> ps32local t = ps32local s"
  by (auto simp: leader_next_def split: leader_pc.splits if_splits)

lemma follower_frame:
  "follower_next b s = Some t \<Longrightarrow> lpc t = lpc s \<and> lout t = lout s \<and> as32data t = as32data s \<and> ps32local t = ps32local s"
  by (auto simp: follower_next_def split: follower_pc.splits if_splits)

lemma leader_logs:
  "leader_next b s = Some t \<Longrightarrow> lout s = leader_log b (ps32local s) (lpc s) \<Longrightarrow> lout t = leader_log b (ps32local t) (lpc t)"
  by (auto simp: leader_next_def leader_log_def split: leader_pc.splits if_splits)

lemma shm_inv_step:
  assumes inv: "shm_inv b rand s" and step: "shm_step b s t"
  shows "shm_inv b rand t"
proof -
  have c: "ctl_ok (s32write_guard s) (s32read_guard s) (s32delete_guard s) (created s) (sized s) (lpc s) (fpc s)"
    and d: "dat_ok (SIZE_SHARE_MEM b) (ps32local s) (as32data s) (lpc s)"
    and g: "got_ok b (ps32local s) (fpc s) (fs32local s) (fout s)"
    and o: "ps32local s = rnd_populate rand (SIZE_SHARE_MEM b)" "lout s = leader_log b (ps32local s) (lpc s)"
    using inv unfolding shm_inv_def by blast+
  from step show ?thesis
  proof (rule shm_step_cases)
    assume st: "leader_next b s = Some t"
    show ?thesis unfolding shm_inv_def
      using ctl_leader [OF st c] dat_leader [OF st d] leader_logs [OF st o(2)] leader_frame [OF st] g o(1) by simp
  next
    assume st: "follower_next b s = Some t"
    have "as32data s = ps32local s" if "4 \<le> fstage (fpc s)"
      using dat_ok_same [OF d] c that by (simp add: ctl_ok_def)
    moreover have "length (ps32local s) = SIZE_SHARE_MEM b" using d by (simp add: dat_ok_def)
    ultimately have "got_ok b (ps32local t) (fpc t) (fs32local t) (fout t)"
      using got_follower [OF st g] by blast
    then show ?thesis unfolding shm_inv_def
      using ctl_follower [OF st c] follower_frame [OF st] d o by simp
  qed
qed

interpretation shm: invariant_system "shm_init b rand junk" "shm_step b" "shm_inv b rand" for b rand junk
  by unfold_locales (auto intro: shm_inv_init shm_inv_step)

section \<open>Hanging and finishing\<close>

definition shm_finished :: "shm \<Rightarrow> bool" where
  "shm_finished s \<longleftrightarrow> lpc s = LDone \<and> fpc s = FDone"

text \<open>
  A guard was set before its waiter resets it: the waiter will wait for ever. Or the follower could
  not open the object, or stored into it before it had its length.
\<close>

definition write_lost :: "shm \<Rightarrow> bool" where
  "write_lost s \<longleftrightarrow> 2 \<le> fstage (fpc s) \<and> (lpc s = LMap \<or> lpc s = LResetW \<or> lpc s = LWaitW \<and> s32write_guard s = 0)"

definition read_lost :: "shm \<Rightarrow> bool" where
  "read_lost s \<longleftrightarrow> 7 \<le> lstage (lpc s) \<and> (fpc s = FResetR \<or> fpc s = FWaitR \<and> s32read_guard s = 0)"

definition delete_lost :: "shm \<Rightarrow> bool" where
  "delete_lost s \<longleftrightarrow> fpc s = FDone \<and> (lpc s = LResetD \<or> lpc s = LWaitD \<and> s32delete_guard s = 0)"

definition doomed :: "shm \<Rightarrow> bool" where
  "doomed s \<longleftrightarrow> fpc s = FFail \<or> fpc s = FBus \<or> write_lost s \<or> read_lost s \<or> delete_lost s"

lemmas doomed_defs = doomed_def write_lost_def read_lost_def delete_lost_def

text \<open>Whether a state is doomed depends on the program counters and the guards only.\<close>

definition lost :: "int \<Rightarrow> int \<Rightarrow> int \<Rightarrow> leader_pc \<Rightarrow> follower_pc \<Rightarrow> bool" where
  "lost wg rg dg l f \<longleftrightarrow>
     f = FFail \<or> f = FBus \<or> 2 \<le> fstage f \<and> (l = LMap \<or> l = LResetW \<or> l = LWaitW \<and> wg = 0) \<or>
     7 \<le> lstage l \<and> (f = FResetR \<or> f = FWaitR \<and> rg = 0) \<or> f = FDone \<and> (l = LResetD \<or> l = LWaitD \<and> dg = 0)"

lemma doomed_lost: "doomed s \<longleftrightarrow> lost (s32write_guard s) (s32read_guard s) (s32delete_guard s) (lpc s) (fpc s)"
  unfolding doomed_defs lost_def by simp

lemma doomed_leader: "leader_next b s = Some t \<Longrightarrow> doomed s \<Longrightarrow> doomed t"
  unfolding doomed_lost leader_next_def lost_def
  by (cases "lpc s"; clarsimp split: if_splits)

lemma doomed_follower: "follower_next b s = Some t \<Longrightarrow> doomed s \<Longrightarrow> doomed t"
  unfolding doomed_lost follower_next_def lost_def
  by (cases "fpc s"; clarsimp split: if_splits)

lemma doomed_step: "shm_step b s t \<Longrightarrow> doomed s \<Longrightarrow> doomed t"
  by (erule shm_step_cases) (auto intro: doomed_leader doomed_follower)

lemma doomed_steps: "(shm_step b)\<^sup>*\<^sup>* s t \<Longrightarrow> doomed s \<Longrightarrow> doomed t"
  by (induction rule: rtranclp_induct) (auto intro: doomed_step)

lemma doomed_not_finished: "doomed s \<Longrightarrow> \<not> shm_finished s"
  by (auto simp: doomed_defs shm_finished_def)

text \<open>The actions that are left, counting every turn of the copying loops.\<close>

fun lrank :: "nat \<Rightarrow> leader_pc \<Rightarrow> nat" where
  "lrank n (LCopy k) = 6 + (n - k)"
| "lrank n LOpen = 11 + n" | "lrank n LTrunc = 10 + n" | "lrank n LMap = 9 + n" | "lrank n LResetW = 8 + n" | "lrank n LWaitW = 7 + n" | "lrank n LSetR = 5"
| "lrank n LResetD = 4" | "lrank n LWaitD = 3" | "lrank n LPrint = 2" | "lrank n LDone = 1"

fun frank :: "nat \<Rightarrow> follower_pc \<Rightarrow> nat" where
  "frank n (FRead k) = 6 + (n - k)"
| "frank n FOpen = 11 + n" | "frank n FMap = 10 + n" | "frank n FSetW = 9 + n" | "frank n FResetR = 8 + n" | "frank n FWaitR = 7 + n"
| "frank n FSetD = 5" | "frank n FDone = 1" | "frank n FFail = 0" | "frank n FBus = 0"

definition shm_work :: "nat \<Rightarrow> shm \<Rightarrow> nat" where
  "shm_work n s = lrank n (lpc s) + frank n (fpc s)"

text \<open>Whose turn it is in a run that finishes.\<close>

definition leaders_turn :: "shm \<Rightarrow> bool" where
  "leaders_turn s \<longleftrightarrow>
     lpc s \<in> {LOpen, LTrunc, LMap, LResetW, LResetD} \<or> fpc s = FDone \<or> (fpc s = FWaitR \<and> lstage (lpc s) \<le> 6)"

lemma leader_progress:
  assumes "shm_inv b rand s" and "\<not> doomed s" and "\<not> shm_finished s" and "leaders_turn s"
  shows "\<exists>t. leader_next b s = Some t \<and> \<not> doomed t \<and> shm_work (SIZE_SHARE_MEM b) t < shm_work (SIZE_SHARE_MEM b) s"
proof -
  have c: "ctl_ok (s32write_guard s) (s32read_guard s) (s32delete_guard s) (created s) (sized s) (lpc s) (fpc s)"
    using assms(1) unfolding shm_inv_def by blast
  show ?thesis
  proof (cases "lpc s")
    case LOpen
    then show ?thesis using assms c by (auto simp: leader_next_def shm_work_def doomed_lost lost_def ctl_ok_def)
  next
    case LTrunc
    then show ?thesis using assms c by (auto simp: leader_next_def shm_work_def doomed_lost lost_def ctl_ok_def)
  next
    case LMap
    then show ?thesis using assms c by (auto simp: leader_next_def shm_work_def doomed_lost lost_def ctl_ok_def)
  next
    case LResetW
    then show ?thesis using assms c by (auto simp: leader_next_def shm_work_def doomed_lost lost_def ctl_ok_def)
  next
    case LWaitW
    then have "s32write_guard s \<noteq> 0" using assms(2,4) by (auto simp: leaders_turn_def doomed_lost lost_def)
    then show ?thesis using LWaitW assms c
      by (auto simp: leader_next_def shm_work_def doomed_lost lost_def ctl_ok_def)
  next
    case (LCopy k)
    show ?thesis using LCopy assms c
      by (cases "k < SIZE_SHARE_MEM b") (auto simp: leader_next_def shm_work_def doomed_lost lost_def ctl_ok_def)
  next
    case LSetR
    then show ?thesis using assms c
      by (auto simp: leader_next_def shm_work_def doomed_lost lost_def ctl_ok_def leaders_turn_def)
  next
    case LResetD
    then show ?thesis using assms c by (auto simp: leader_next_def shm_work_def doomed_lost lost_def ctl_ok_def)
  next
    case LWaitD
    then have "s32delete_guard s \<noteq> 0" using assms(2,4) by (auto simp: leaders_turn_def doomed_lost lost_def)
    then show ?thesis using LWaitD assms c
      by (auto simp: leader_next_def shm_work_def doomed_lost lost_def ctl_ok_def)
  next
    case LPrint
    then show ?thesis using assms c by (auto simp: leader_next_def shm_work_def doomed_lost lost_def ctl_ok_def)
  next
    case LDone
    then show ?thesis using assms(3) c by (auto simp: shm_finished_def ctl_ok_def)
  qed
qed

lemma follower_progress:
  assumes "shm_inv b rand s" and "\<not> doomed s" and "\<not> leaders_turn s"
  shows "\<exists>t. follower_next b s = Some t \<and> \<not> doomed t \<and> shm_work (SIZE_SHARE_MEM b) t < shm_work (SIZE_SHARE_MEM b) s"
proof -
  have c: "ctl_ok (s32write_guard s) (s32read_guard s) (s32delete_guard s) (created s) (sized s) (lpc s) (fpc s)"
    using assms(1) unfolding shm_inv_def by blast
  show ?thesis
  proof (cases "fpc s")
    case FOpen
    then show ?thesis using assms c
      by (cases "lpc s") (simp_all add: follower_next_def shm_work_def doomed_lost lost_def ctl_ok_def leaders_turn_def)
  next
    case FSetW
    then show ?thesis using assms c
      by (cases "lpc s") (simp_all add: follower_next_def shm_work_def doomed_lost lost_def ctl_ok_def leaders_turn_def)
  next
    case FWaitR
    then have "s32read_guard s \<noteq> 0" using assms(2,3) by (auto simp: leaders_turn_def doomed_lost lost_def)
    then show ?thesis using FWaitR assms c
      by (auto simp: follower_next_def shm_work_def doomed_lost lost_def ctl_ok_def leaders_turn_def)
  next
    case (FRead k)
    then show ?thesis using assms c
      by (cases "k < SIZE_SHARE_MEM b")
        (auto simp: follower_next_def shm_work_def doomed_lost lost_def ctl_ok_def leaders_turn_def)
  qed (use assms c in \<open>auto simp: follower_next_def shm_work_def doomed_lost lost_def ctl_ok_def leaders_turn_def\<close>)
qed

interpretation shm: progress_system "shm_step b" "\<lambda>s. shm_inv b rand s \<and> \<not> doomed s" shm_finished "shm_work (SIZE_SHARE_MEM b)" for b rand
proof unfold_locales
  fix s assume g: "shm_inv b rand s \<and> \<not> doomed s" and nf: "\<not> shm_finished s"
  have "\<exists>t. shm_step b s t \<and> \<not> doomed t \<and> shm_work (SIZE_SHARE_MEM b) t < shm_work (SIZE_SHARE_MEM b) s"
  proof (cases "leaders_turn s")
    case True
    then show ?thesis using leader_progress [of b rand s] g nf leader_step by blast
  next
    case False
    then show ?thesis using follower_progress [of b rand s] g follower_step by blast
  qed
  then show "\<exists>t. shm_step b s t \<and> (shm_inv b rand t \<and> \<not> doomed t) \<and> shm_work (SIZE_SHARE_MEM b) t < shm_work (SIZE_SHARE_MEM b) s"
    using g shm_inv_step by blast
qed

section \<open>Properties\<close>

text \<open>C9: what arrives is what was sent, in every interleaving, for any size of the array and in both builds:
  when the follower is done it has printed exactly the leader's array, or in the build of the
  Makefile holds it in its own; the leader prints its array or reports its four stages; all numbers
  are from 0 to 999.\<close>

theorem shm_transfers:
  assumes "reach (shm_init b rand junk) (shm_step b) s" and "A = rnd_populate rand (SIZE_SHARE_MEM b)"
  shows "(fpc s = FDone \<longrightarrow> (if studio15_q6 b then fs32local s = A \<and> fout s = [] else fout s = print_intlist A)) \<and>
    (lpc s = LDone \<longrightarrow> lout s = stage_text b 0 @ stage_text b 1 @ stage_text b 2 @
       (if studio15_q6 b then [] else print_intlist A) @ stage_text b 3) \<and>
    list_all (\<lambda>v. 0 \<le> v \<and> v < 1000) A \<and> length A = SIZE_SHARE_MEM b"
proof -
  have inv: "shm_inv b rand s" using assms(1) by (rule shm.reach_inv)
  have l: "length A = SIZE_SHARE_MEM b" by (simp add: assms(2) rnd_populate_def)
  have loc: "ps32local s = A" using inv by (simp add: shm_inv_def assms(2))
  have "got_ok b A (fpc s) (fs32local s) (fout s)" using inv unfolding shm_inv_def loc by blast
  then have f: "fpc s = FDone \<longrightarrow> (if studio15_q6 b then fs32local s = A \<and> fout s = [] else fout s = print_intlist A)"
    by (auto simp: got_ok_def Let_def l first_ints_def print_intlist_def)
  have "lout s = leader_log b A (lpc s)" using inv unfolding shm_inv_def loc by blast
  then show ?thesis using f l by (simp add: leader_log_def assms(2) rnd_populate_def list_all_iff)
qed

definition shm_start :: "shm_build \<Rightarrow> (nat \<Rightarrow> int) \<Rightarrow> (nat \<Rightarrow> int) \<Rightarrow> shm" where
  "shm_start b rand junk = \<lparr>s32write_guard = 0, s32read_guard = 0, s32delete_guard = 0,
     as32data = replicate (SIZE_SHARE_MEM b) 0, created = False, sized = False,
     ps32local = rnd_populate rand (SIZE_SHARE_MEM b), fs32local = map junk [0..<SIZE_SHARE_MEM b],
     lpc = LOpen, fpc = FOpen, lout = [], fout = []\<rparr>"

lemma shm_start_init: "shm_init b rand junk (shm_start b rand junk)"
  by (simp add: shm_init_def shm_start_def)

lemma shm_start_not_doomed: "\<not> doomed (shm_start b rand junk)"
  by (simp add: doomed_defs shm_start_def)

theorem shm_transfers_witness:
  "\<exists>s. reach (shm_init makefile_build (\<lambda>k. int k) (\<lambda>k. 77)) (shm_step makefile_build) s \<and> shm_finished s \<and>
     fs32local s ! 1234567 = 567"
proof -
  let ?i = "shm_init makefile_build (\<lambda>k. int k) (\<lambda>k. 77)"
  note st = shm_start_init [of makefile_build "\<lambda>k. int k" "\<lambda>k. 77"]
  obtain s where s: "(shm_step makefile_build)\<^sup>*\<^sup>* (shm_start makefile_build (\<lambda>k. int k) (\<lambda>k. 77)) s" "shm_finished s"
    using shm.can_finish shm_inv_init [OF st] shm_start_not_doomed by blast
  have r: "reach ?i (shm_step makefile_build) s" by (rule reach_steps [OF reach_init [of ?i, OF st] s(1)])
  have "fs32local s = rnd_populate (\<lambda>k. int k) 10000000"
    using shm_transfers [OF r refl] s(2) by (simp add: shm_finished_def makefile_build_def)
  then have "fs32local s ! 1234567 = 567" by (simp add: rnd_populate_def del: upt_rec_numeral)
  then show ?thesis using r s(2) by blast
qed

definition shm_runs :: "shm_build \<Rightarrow> nat list \<Rightarrow> shm \<Rightarrow> shm option" where
  "shm_runs b es s = run (shm_next b) (map (\<lambda>i. (i, ())) es) s"

lemma shm_runs_steps: "shm_runs b es s = Some t \<Longrightarrow> list_all (\<lambda>i. i < 2) es \<Longrightarrow> (shm_step b)\<^sup>*\<^sup>* s t"
  unfolding shm_runs_def by (rule run_steps) (auto simp: list_all_iff)

lemmas shm_eval = shm_runs_def shm_next_def leader_next_def follower_next_def

text \<open>Each copying loop runs to its end when only its process is scheduled, and leaves the rest alone.\<close>

lemma leader_copies:
  "lpc s = LCopy k \<Longrightarrow> k \<le> SIZE_SHARE_MEM b \<Longrightarrow>
   \<exists>d out. (shm_step b)\<^sup>*\<^sup>* s (s\<lparr>as32data := d, lout := out, lpc := LSetR\<rparr>)"
proof (induction "SIZE_SHARE_MEM b - k" arbitrary: k s)
  case 0
  then have "leader_next b s = Some (s\<lparr>as32data := as32data s, lout := lout s @ stage_text b 2, lpc := LSetR\<rparr>)"
    by (simp add: leader_next_def)
  from leader_step [OF this] show ?case by blast
next
  case (Suc m)
  let ?s = "s\<lparr>as32data := (as32data s)[k := ps32local s ! k], lpc := LCopy (Suc k)\<rparr>"
  have "leader_next b s = Some ?s" using Suc by (simp add: leader_next_def)
  then have "shm_step b s ?s" by (rule leader_step)
  moreover obtain d out where "(shm_step b)\<^sup>*\<^sup>* ?s (?s\<lparr>as32data := d, lout := out, lpc := LSetR\<rparr>)"
    using Suc.hyps(1) [of "Suc k" ?s] Suc.hyps(2) Suc.prems(2) by fastforce
  ultimately have "(shm_step b)\<^sup>*\<^sup>* s (s\<lparr>as32data := d, lout := out, lpc := LSetR\<rparr>)"
    by (simp add: converse_rtranclp_into_rtranclp)
  then show ?case by blast
qed

lemma follower_reads:
  "fpc s = FRead k \<Longrightarrow> k \<le> SIZE_SHARE_MEM b \<Longrightarrow>
   \<exists>d out. (shm_step b)\<^sup>*\<^sup>* s (s\<lparr>fs32local := d, fout := out, fpc := FSetD\<rparr>)"
proof (induction "SIZE_SHARE_MEM b - k" arbitrary: k s)
  case 0
  then have "follower_next b s = Some (s\<lparr>fs32local := fs32local s, fout := fout s, fpc := FSetD\<rparr>)"
    by (simp add: follower_next_def)
  from follower_step [OF this] show ?case by blast
next
  case (Suc m)
  obtain d1 o1 where "follower_next b s = Some (s\<lparr>fs32local := d1, fout := o1, fpc := FRead (Suc k)\<rparr>)"
  proof (cases "studio15_q6 b")
    case True
    then show ?thesis using Suc by (intro that [of "fout s" "(fs32local s)[k := as32data s ! k]"]) (simp add: follower_next_def)
  next
    case False
    then show ?thesis using Suc by (intro that [of "fout s @ print_int k (as32data s ! k)" "fs32local s"]) (simp add: follower_next_def)
  qed
  then have "shm_step b s (s\<lparr>fs32local := d1, fout := o1, fpc := FRead (Suc k)\<rparr>)" by (rule follower_step)
  moreover obtain d out where "(shm_step b)\<^sup>*\<^sup>* (s\<lparr>fs32local := d1, fout := o1, fpc := FRead (Suc k)\<rparr>)
      (s\<lparr>fs32local := d, fout := out, fpc := FSetD\<rparr>)"
    using Suc.hyps(1) [of "Suc k" "s\<lparr>fs32local := d1, fout := o1, fpc := FRead (Suc k)\<rparr>"] Suc.hyps(2) Suc.prems(2) by fastforce
  ultimately have "(shm_step b)\<^sup>*\<^sup>* s (s\<lparr>fs32local := d, fout := out, fpc := FSetD\<rparr>)"
    by (rule converse_rtranclp_into_rtranclp)
  then show ?case by blast
qed

lemma lost_write: "\<exists>t. (shm_step b)\<^sup>*\<^sup>* (shm_start b rand junk) t \<and> write_lost t"
proof -
  obtain t where "shm_runs b [0, 0, 1, 1, 1] (shm_start b rand junk) = Some t" "write_lost t"
    by (simp add: shm_eval shm_start_def write_lost_def)
  then show ?thesis using shm_runs_steps by fastforce
qed

text \<open>The leader has copied the array; the follower has not come further than given.\<close>

lemma after_copy:
  assumes "shm_runs b es (shm_start b rand junk) = Some s" and "list_all (\<lambda>i. i < 2) es" and "lpc s = LCopy 0"
  shows "\<exists>d out. (shm_step b)\<^sup>*\<^sup>* (shm_start b rand junk)
    (s\<lparr>as32data := d, lout := out, s32read_guard := 1, lpc := LResetD\<rparr>)"
proof -
  have a: "(shm_step b)\<^sup>*\<^sup>* (shm_start b rand junk) s" using shm_runs_steps assms(1,2) .
  obtain d out where c: "(shm_step b)\<^sup>*\<^sup>* s (s\<lparr>as32data := d, lout := out, lpc := LSetR\<rparr>)"
    using leader_copies assms(3) by blast
  have "shm_step b (s\<lparr>as32data := d, lout := out, lpc := LSetR\<rparr>)
      (s\<lparr>as32data := d, lout := out, s32read_guard := 1, lpc := LResetD\<rparr>)"
    by (rule leader_step) (simp add: leader_next_def)
  with rtranclp_trans [OF a c] show ?thesis by (blast intro: rtranclp.rtrancl_into_rtrancl)
qed

lemma lost_read: "\<exists>t. (shm_step b)\<^sup>*\<^sup>* (shm_start b rand junk) t \<and> read_lost t"
proof -
  obtain s where s: "shm_runs b [0, 0, 0, 0, 1, 1, 1, 0] (shm_start b rand junk) = Some s" "lpc s = LCopy 0" "fpc s = FResetR"
    by (simp add: shm_eval shm_start_def)
  from after_copy [OF s(1) _ s(2)] obtain d out where
    "(shm_step b)\<^sup>*\<^sup>* (shm_start b rand junk) (s\<lparr>as32data := d, lout := out, s32read_guard := 1, lpc := LResetD\<rparr>)"
    by auto
  moreover have "read_lost (s\<lparr>as32data := d, lout := out, s32read_guard := 1, lpc := LResetD\<rparr>)"
    by (simp add: read_lost_def s(3))
  ultimately show ?thesis by blast
qed

lemma lost_delete: "\<exists>t. (shm_step b)\<^sup>*\<^sup>* (shm_start b rand junk) t \<and> delete_lost t"
proof -
  obtain s where s: "shm_runs b [0, 0, 0, 0, 1, 1, 1, 1, 0] (shm_start b rand junk) = Some s" "lpc s = LCopy 0" "fpc s = FWaitR"
    by (simp add: shm_eval shm_start_def)
  from after_copy [OF s(1) _ s(2)] obtain d out where
    a: "(shm_step b)\<^sup>*\<^sup>* (shm_start b rand junk) (s\<lparr>as32data := d, lout := out, s32read_guard := 1, lpc := LResetD\<rparr>)"
    by auto
  let ?u = "s\<lparr>as32data := d, lout := out, s32read_guard := 1, lpc := LResetD, fpc := FRead 0\<rparr>"
  have "shm_step b (s\<lparr>as32data := d, lout := out, s32read_guard := 1, lpc := LResetD\<rparr>) ?u"
    by (rule follower_step) (simp add: follower_next_def s(3))
  with a have u: "(shm_step b)\<^sup>*\<^sup>* (shm_start b rand junk) ?u" by (rule rtranclp.rtrancl_into_rtrancl)
  obtain d' out' where r: "(shm_step b)\<^sup>*\<^sup>* ?u (?u\<lparr>fs32local := d', fout := out', fpc := FSetD\<rparr>)"
    using follower_reads [of ?u 0 b] by auto
  let ?t = "?u\<lparr>fs32local := d', fout := out', s32delete_guard := 1, created := False, fpc := FDone\<rparr>"
  have "shm_step b (?u\<lparr>fs32local := d', fout := out', fpc := FSetD\<rparr>) ?t"
    by (rule follower_step) (simp add: follower_next_def)
  with rtranclp_trans [OF u r] have "(shm_step b)\<^sup>*\<^sup>* (shm_start b rand junk) ?t" by (rule rtranclp.rtrancl_into_rtrancl)
  moreover have "delete_lost ?t" by (simp add: delete_lost_def)
  ultimately show ?thesis by blast
qed

lemma open_fails: "\<exists>t. (shm_step b)\<^sup>*\<^sup>* (shm_start b rand junk) t \<and> fpc t = FFail"
proof -
  obtain t where "shm_runs b [1] (shm_start b rand junk) = Some t" "fpc t = FFail"
    by (simp add: shm_eval shm_start_def)
  then show ?thesis using shm_runs_steps by fastforce
qed

lemma bus_error: "\<exists>t. (shm_step b)\<^sup>*\<^sup>* (shm_start b rand junk) t \<and> fpc t = FBus"
proof -
  obtain t where "shm_runs b [0, 1, 1, 1] (shm_start b rand junk) = Some t" "fpc t = FBus"
    by (simp add: shm_eval shm_start_def)
  then show ?thesis using shm_runs_steps by fastforce
qed

text \<open>C17: from a state that the two processes reach they can both finish, unless the follower could not
  open the object, or stored into it before the leader had given it its length, or a guard has been lost: set before
  its waiter resets it, so that the waiter waits for ever; in each of these five cases they cannot. A run that finishes
  and runs into each of the five exist.\<close>

theorem shm_finish_iff_not_doomed:
  assumes "shm_init b rand junk s"
  shows "(\<forall>t. (shm_step b)\<^sup>*\<^sup>* s t \<longrightarrow> ((\<exists>u. (shm_step b)\<^sup>*\<^sup>* t u \<and> shm_finished u) \<longleftrightarrow>
      \<not> (fpc t = FFail \<or> fpc t = FBus \<or> write_lost t \<or> read_lost t \<or> delete_lost t))) \<and>
    (\<exists>t. (shm_step b)\<^sup>*\<^sup>* s t \<and> shm_finished t) \<and>
    (\<exists>t. (shm_step b)\<^sup>*\<^sup>* s t \<and> fpc t = FFail) \<and> (\<exists>t. (shm_step b)\<^sup>*\<^sup>* s t \<and> fpc t = FBus) \<and>
    (\<exists>t. (shm_step b)\<^sup>*\<^sup>* s t \<and> write_lost t) \<and> (\<exists>t. (shm_step b)\<^sup>*\<^sup>* s t \<and> read_lost t) \<and>
    (\<exists>t. (shm_step b)\<^sup>*\<^sup>* s t \<and> delete_lost t)"
proof -
  have s: "s = shm_start b rand junk" using assms by (simp add: shm_init_def shm_start_def)
  have iff: "(\<exists>u. (shm_step b)\<^sup>*\<^sup>* t u \<and> shm_finished u) \<longleftrightarrow> \<not> doomed t" if "(shm_step b)\<^sup>*\<^sup>* s t" for t
  proof
    show "\<exists>u. (shm_step b)\<^sup>*\<^sup>* t u \<and> shm_finished u \<Longrightarrow> \<not> doomed t"
      using doomed_steps doomed_not_finished by blast
    have "shm_inv b rand t" using shm.steps_inv [OF that] shm_inv_init [OF assms] by blast
    then show "\<not> doomed t \<Longrightarrow> \<exists>u. (shm_step b)\<^sup>*\<^sup>* t u \<and> shm_finished u" using shm.can_finish by blast
  qed
  have "\<exists>t. (shm_step b)\<^sup>*\<^sup>* s t \<and> shm_finished t"
    using iff [OF rtranclp.rtrancl_refl] shm_start_not_doomed [of b rand junk] unfolding s by blast
  then show ?thesis using iff open_fails bus_error lost_write lost_read lost_delete unfolding s doomed_def by blast
qed

theorem shm_finish_iff_not_doomed_witness:
  "(\<exists>t. (shm_step makefile_build)\<^sup>*\<^sup>* (shm_start makefile_build (\<lambda>k. 0) (\<lambda>k. 0)) t \<and> shm_finished t) \<and>
   (\<exists>t. (shm_step default_build)\<^sup>*\<^sup>* (shm_start default_build (\<lambda>k. 0) (\<lambda>k. 0)) t \<and> fpc t = FBus)"
  using shm_finish_iff_not_doomed [OF shm_start_init [of makefile_build "\<lambda>k. 0" "\<lambda>k. 0"]]
    shm_finish_iff_not_doomed [OF shm_start_init [of default_build "\<lambda>k. 0" "\<lambda>k. 0"]]
  by blast

end
