(* ===== verification/Sockets.thy ===== *)
theory Sockets
  imports Prelude CStrings
begin

text \<open>
  The socket programs of studio14: the local server and client (\<open>AF_Local\<close>), the internet server and
  client (\<open>AF_INET\<close>) and the helpers of \<open>network_util.c\<close>. A connection is the list of bytes that the
  peer sends; the answers of the operating system are arguments. \<open>mem n\<close> is a block of \<open>n\<close> bytes with
  arbitrary contents, or \<open>None\<close> when the allocation fails. Accesses outside a buffer end in
  \<open>Overrun\<close>.
\<close>

section \<open>The local server\<close>

abbreviation (input) NUL :: char where
  "NUL \<equiv> CHR 0x00"

definition CONNECT_RETRY :: nat where
  "CONNECT_RETRY = 5"


datatype srv_end = Exit int | Waiting | Overrun





text \<open>
  \<open>accept\<close>, at most \<open>k\<close> times: the peers are given by the list of events, a failed call or the bytes
  of a connection. When the list is exhausted the server waits.
\<close>

datatype accepted = Conn string "string option list" | RetryOver | NoPeer

fun accept_retry :: "nat \<Rightarrow> string option list \<Rightarrow> accepted" where
  "accept_retry 0 es = RetryOver"
| "accept_retry (Suc k) [] = NoPeer"
| "accept_retry (Suc k) (None # es) = accept_retry k es"
| "accept_retry (Suc k) (Some m # es) = Conn m es"

lemma accept_retry_shorter: "accept_retry k es = Conn m rest \<Longrightarrow> length rest < length es"
  by (induction k es rule: accept_retry.induct) auto




section \<open>The local client\<close>

text \<open>
  \<open>gets\<close> into the 256 bytes of \<open>acBuf\<close>: the line and a NUL; a longer line overflows the buffer.
\<close>

definition client_gets :: "string \<Rightarrow> string \<Rightarrow> string option" where
  "client_gets acBuf line =
     (if length line + 1 \<le> 256 then Some (line @ NUL # drop (length line + 1) acBuf) else None)"

text \<open>What is written: \<open>strlen + 2\<close> bytes, the string, its NUL and one byte more.\<close>

definition client_msg :: "string \<Rightarrow> string option" where
  "client_msg acBuf =
     (let s32stringlen = length (takeWhile (\<lambda>c. c \<noteq> NUL) acBuf) + 1 in
      if s32stringlen + 1 \<le> 256 then Some (take (s32stringlen + 1) acBuf) else None)"

text \<open>
  \<open>main\<close>, and the bytes that reach the peer: \<open>wr\<close> is the result of \<open>write\<close>. A failed \<open>connect\<close> is only
  reported; it shows in \<open>wr\<close>.
\<close>

definition local_client :: "bool \<Rightarrow> int \<Rightarrow> string \<Rightarrow> string \<Rightarrow> srv_end \<times> string" where
  "local_client socket_ok wr acBuf line =
     (case client_gets acBuf line of
        None \<Rightarrow> (Overrun, [])
      | Some buf \<Rightarrow>
          if \<not> socket_ok then (Exit 1, [])
          else
            (case client_msg buf of
               None \<Rightarrow> (Overrun, [])
             | Some m \<Rightarrow>
                 if wr \<noteq> int (length m) then (Exit 1, take (nat wr) m) else (Exit 0, m)))"

section \<open>The internet server and client\<close>

definition inet_msg :: string where
  "inet_msg = ''This is a test message.''"

text \<open>\<open>wr\<close> gives the results of \<open>write\<close>, one per connection; each connection is sent the message and its NUL.\<close>

function inet_serve :: "(nat \<Rightarrow> int) \<Rightarrow> string option list \<Rightarrow> string list \<Rightarrow> srv_end \<times> string list" where
  "inet_serve wr es sent =
     (case accept_retry CONNECT_RETRY es of
        RetryOver \<Rightarrow> (Exit 1, sent)
      | NoPeer \<Rightarrow> (Waiting, sent)
      | Conn m rest \<Rightarrow>
          let s32stringlen = int (length inet_msg) + 1 in
          if wr (length sent) \<noteq> s32stringlen then (Exit 1, sent)
          else inet_serve wr rest (sent @ [inet_msg @ [NUL]]))"
  by pat_completeness auto
termination
  by (relation "measure (\<lambda>(wr, es, sent). length es)") (auto dest: accept_retry_shorter)

declare inet_serve.simps [simp del]

text \<open>\<open>main\<close>: a socket and a binding first; the results of \<open>setsockopt\<close> and \<open>listen\<close> are ignored.\<close>

definition inet_server :: "bool \<Rightarrow> bool \<Rightarrow> (nat \<Rightarrow> int) \<Rightarrow> string option list \<Rightarrow> srv_end \<times> string list" where
  "inet_server socket_ok bind_ok wr es =
     (if \<not> socket_ok then (Exit 1, []) else if \<not> bind_ok then (Exit (- 1), []) else inet_serve wr es [])"

lemma inet_serve_sends: "set sent \<subseteq> {inet_msg @ [NUL]} \<Longrightarrow> set (snd (inet_serve wr es sent)) \<subseteq> {inet_msg @ [NUL]}"
proof (induction wr es sent rule: inet_serve.induct)
  case (1 wr es sent)
  then show ?case by (subst inet_serve.simps) (auto simp: Let_def split: accepted.split)
qed

text \<open>Nothing but the message with its NUL is ever sent; and the server never ends with exit code 0.\<close>

lemma inet_server_sends:
  "set (snd (inet_server socket_ok bind_ok wr es)) \<subseteq> {inet_msg @ [NUL]}
   \<and> fst (inet_server socket_ok bind_ok wr es) \<in> {Exit 1, Exit (- 1), Waiting}"
proof -
  have "fst (inet_serve wr es sent) \<in> {Exit 1, Waiting}" for sent
  proof (induction wr es sent rule: inet_serve.induct)
    case (1 wr es sent)
    then show ?case by (subst inet_serve.simps) (auto simp: Let_def split: accepted.split)
  qed
  then show ?thesis using inet_serve_sends [of "[]" wr es] by (auto simp: inet_server_def)
qed

text \<open>
  The client's loop \<open>while(read(s32rdfd, &cbuf, sizeof(char) > 0))\<close>: the parenthesis makes the size
  \<open>1\<close> and the condition "not 0". The reads are a list of results, \<open>None\<close> for -1; the loop ends at the
  first result 0 (\<open>Some None\<close>). Returned: whether it has ended, and what was printed.
\<close>

fun inet_client_loop :: "char \<Rightarrow> char option option list \<Rightarrow> bool \<times> string" where
  "inet_client_loop cbuf [] = (False, [])"
| "inet_client_loop cbuf (Some (Some c) # rs) = (case inet_client_loop c rs of (e, out) \<Rightarrow> (e, c # out))"
| "inet_client_loop cbuf (None # rs) = (case inet_client_loop cbuf rs of (e, out) \<Rightarrow> (e, cbuf # out))"
| "inet_client_loop cbuf (Some None # rs) = (True, [CHR 0x0A])"

definition inet_client ::
    "bool \<Rightarrow> bool \<Rightarrow> bool \<Rightarrow> char \<Rightarrow> char option option list \<Rightarrow> int + (bool \<times> string)" where
  "inet_client socket_ok host_ok connect_ok cbuf rs =
     (if \<not> socket_ok then Inl 1 else if \<not> host_ok then Inl 1 else if \<not> connect_ok then Inl 1
      else Inr (inet_client_loop cbuf rs))"

section \<open>Helpers of the internet programs\<close>

text \<open>\<open>error\<close> ends the process with 1 (\<open>Inl\<close>); the other results are those of the functions.\<close>

definition createSrv :: "int \<Rightarrow> int \<Rightarrow> int \<Rightarrow> int + (int \<times> int)" where
  "createSrv sk bind_ret create_ret =
     (if sk < 0 then Inl 1 else if bind_ret < 0 then Inl 1 else Inr (create_ret, sk))"

definition connectServer :: "int \<Rightarrow> bool \<Rightarrow> int \<Rightarrow> int + int" where
  "connectServer sk host_ok connect_ret =
     (if sk < 0 then Inl 1 else if \<not> host_ok then Inl 0 else if connect_ret < 0 then Inl 1 else Inr sk)"

definition sendMsg :: "int \<Rightarrow> int + int" where
  "sendMsg send_ret = (if send_ret < 0 then Inl 1 else Inr 0)"

definition recvMsg :: "int \<Rightarrow> int + int" where
  "recvMsg recv_ret = (if recv_ret < 0 then Inl 1 else Inr recv_ret)"

text \<open>
  \<open>destroySrv\<close> closes the socket and sends SIGKILL to the thread. SIGKILL cannot be caught and ends the
  whole process: where the thread exists (\<open>kill_ret\<close> is the result of \<open>pthread_kill\<close>) the call does not
  return; otherwise it returns 0, whatever the results of \<open>close\<close> and \<open>pthread_kill\<close> are.
\<close>

datatype destroyed = ProcessKilled | Returned int

definition destroySrv :: "int \<Rightarrow> destroyed" where
  "destroySrv kill_ret = (if kill_ret = 0 then ProcessKilled else Returned 0)"

text \<open>A server made by \<open>createSrv\<close> and destroyed: its thread lives unless its creation has failed.\<close>

lemma destroySrv_created:
  assumes "createSrv sk bind_ret create_ret = Inr (ret, fd)" and "create_ret = 0 \<Longrightarrow> kill_ret = 0"
  shows "destroySrv kill_ret = Returned r \<Longrightarrow> r = 0 \<and> ret \<noteq> 0"
  using assms by (auto simp: createSrv_def destroySrv_def split: if_splits)

section \<open>Facts\<close>





lemma client_gets_strlen:
  assumes "NUL \<notin> set line"
  shows "takeWhile (\<lambda>c. c \<noteq> NUL) (line @ NUL # rest) = line"
  using assms by (subst takeWhile_append2) auto


lemma local_client_overread:
  assumes "length line = 255" and "NUL \<notin> set line"
  shows "local_client True wr acBuf line = (Overrun, [])"
  using assms by (simp add: local_client_def client_gets_def client_msg_def client_gets_strlen)

text \<open>Whatever \<open>write\<close> returns, the exit code tells whether everything was written.\<close>

lemma local_client_exit:
  assumes "length line \<le> 254" and "NUL \<notin> set line"
  shows "fst (local_client True wr acBuf line) = Exit 0 \<longleftrightarrow>
    wr = int (length line + 1 + min 1 (length acBuf - (length line + 1)))"
  using assms by (simp add: local_client_def client_gets_def client_msg_def client_gets_strlen min_def)



section \<open>Properties\<close>



text \<open>The internet client prints every byte it receives, then a newline when the server closes; but
  after a failed \<open>read\<close>, which returns -1, its misplaced parenthesis keeps it in the loop: it prints its
  last byte again at every failure and does not end.\<close>

theorem inet_client_prints:
  "inet_client_loop c (map (\<lambda>b. Some (Some b)) m @ Some None # rs) = (True, m @ [CHR 0x0A]) \<and>
   inet_client_loop c (map (\<lambda>b. Some (Some b)) m @ replicate k None) = (False, m @ replicate k (last (c # m)))"
proof (induction m arbitrary: c)
  case Nil
  have "inet_client_loop c (replicate k None) = (False, replicate k c)" for c by (induction k) auto
  then show ?case by simp
next
  case (Cons b m)
  then show ?case by simp
qed

end
