(* ===== verification/Sysfs.thy ===== *)
theory Sysfs
  imports CStrings
begin

text \<open>
  The two sysfs modules of \<open>studio07\<close>: \<open>kobj/main.c\<close> (three integers as files) and
  \<open>family_reader/main.c\<close> (writing a PID logs the chain of its ancestors). \<open>kstrtoint\<close>,
  \<open>find_vpid\<close>, \<open>pid_task\<close> and the sysfs calls belong to the kernel and are parameters;
  \<open>kstrtoint\<close> gives an error code (\<open>Inl\<close>) without writing its result, or the value.
\<close>

type_synonym kstrtoint = "string \<Rightarrow> int + int"

text \<open>What the kernel documents of \<open>kstrtoint(buf, 10, \<dots>)\<close>.\<close>

definition kstrtoint_ok :: "kstrtoint \<Rightarrow> bool" where
  "kstrtoint_ok kstr \<longleftrightarrow>
     (\<forall>b e. kstr b = Inl e \<longrightarrow> e < 0) \<and> (\<forall>b v. kstr b = Inr v \<longrightarrow> is_int32 v) \<and>
     (\<forall>v. is_int32 v \<longrightarrow> kstr (show_int v) = Inr v \<and> kstr (show_int v @ [CHR 0x0A]) = Inr v)"

section \<open>Three integers\<close>

record kobj_vars =
  foo :: int
  baz :: int
  bar :: int
  klog :: "string list"

definition printk :: "string \<Rightarrow> kobj_vars \<Rightarrow> kobj_vars" where
  "printk line s = s\<lparr>klog := klog s @ [line]\<rparr>"

definition line_of :: "int \<Rightarrow> string" where
  "line_of v = show_int v @ [CHR 0x0A]"

definition old_new :: "string \<Rightarrow> string \<Rightarrow> int \<Rightarrow> int \<Rightarrow> string" where
  "old_new start name old new = start @ '' Old '' @ name @ ''=['' @ show_int old @ ''], New '' @ name
     @ ''=['' @ show_int new @ '']'' @ [CHR 0x0A]"

text \<open>An operation returns its result and the text it puts in the buffer.\<close>

definition foo_show :: "string \<Rightarrow> kobj_vars \<Rightarrow> string \<times> kobj_vars" where
  "foo_show attr s =
     (line_of (foo s), printk (''foo_show() : foo=['' @ show_int (foo s) @ '']'' @ [CHR 0x0A]) s)"

text \<open>\<open>s32val\<close> is the uninitialised local: the value it has when \<open>kstrtoint\<close> fails.\<close>

definition foo_store :: "kstrtoint \<Rightarrow> int \<Rightarrow> string \<Rightarrow> string \<Rightarrow> int \<Rightarrow> kobj_vars \<Rightarrow> int \<times> kobj_vars" where
  "foo_store kstr s32val attr buf count s =
     (let ret = (case kstr buf of Inl e \<Rightarrow> e | Inr v \<Rightarrow> 0);
          new = (case kstr buf of Inl e \<Rightarrow> s32val | Inr v \<Rightarrow> v);
          t = (printk (old_new ''foo_store()'' ''foo'' (foo s) new) s)\<lparr>foo := new\<rparr>
      in if ret < 0 then (ret, t) else (count, t))"

definition b_show :: "string \<Rightarrow> kobj_vars \<Rightarrow> string \<times> kobj_vars" where
  "b_show attr s =
     (let var = (if attr = ''baz'' then baz s else bar s)
      in (line_of var, printk (''b_show(): baz=['' @ show_int var @ '']'' @ [CHR 0x0A]) s))"

definition b_store :: "kstrtoint \<Rightarrow> string \<Rightarrow> string \<Rightarrow> int \<Rightarrow> kobj_vars \<Rightarrow> int \<times> kobj_vars" where
  "b_store kstr attr buf count s =
     (case kstr buf of
        Inl ret \<Rightarrow> (ret, s)
      | Inr var \<Rightarrow>
          (count, if attr = ''baz''
                  then (printk (old_new ''b_store():'' ''baz'' (baz s) var) s)\<lparr>baz := var\<rparr>
                  else (printk (old_new ''b_store():'' ''bar'' (bar s) var) s)\<lparr>bar := var\<rparr>))"

text \<open>The group of attributes: which functions sysfs calls for which file.\<close>

definition attrs :: "kstrtoint \<Rightarrow> int \<Rightarrow> (string \<times> (kobj_vars \<Rightarrow> string \<times> kobj_vars)
    \<times> (string \<Rightarrow> int \<Rightarrow> kobj_vars \<Rightarrow> int \<times> kobj_vars)) list" where
  "attrs kstr junk =
     [(''foo'', foo_show ''foo'', foo_store kstr junk ''foo''),
      (''baz'', b_show ''baz'', b_store kstr ''baz''),
      (''bar'', b_show ''bar'', b_store kstr ''bar'')]"

definition read_file :: "kstrtoint \<Rightarrow> int \<Rightarrow> string \<Rightarrow> kobj_vars \<Rightarrow> (string \<times> kobj_vars) option" where
  "read_file kstr junk name s = map_option (\<lambda>(sh, st). sh s) (map_of (attrs kstr junk) name)"

definition write_file ::
    "kstrtoint \<Rightarrow> int \<Rightarrow> string \<Rightarrow> string \<Rightarrow> kobj_vars \<Rightarrow> (int \<times> kobj_vars) option" where
  "write_file kstr junk name buf s =
     map_option (\<lambda>(sh, st). st buf (int (length buf)) s) (map_of (attrs kstr junk) name)"

definition file_val :: "string \<Rightarrow> kobj_vars \<Rightarrow> int" where
  "file_val name s = (if name = ''foo'' then foo s else if name = ''baz'' then baz s else bar s)"

text \<open>
  Loading. \<open>created\<close> says whether \<open>kobject_create_and_add\<close> returned an object, \<open>retval\<close> what
  \<open>sysfs_create_group\<close> returned. The state is the reference count of \<open>example_kobj\<close> and the files
  that exist; the object is removed, with its files, when the count reaches 0.
\<close>

record kobj_dir =
  refs :: nat
  files :: "string list"

definition ENOMEM :: int where
  "ENOMEM = 12"

definition kobject_put :: "kobj_dir \<Rightarrow> kobj_dir" where
  "kobject_put d = (if refs d \<le> 1 then \<lparr>refs = 0, files = []\<rparr> else d\<lparr>refs := refs d - 1\<rparr>)"

definition load_group :: "string list \<Rightarrow> bool \<Rightarrow> int \<Rightarrow> int \<times> kobj_dir" where
  "load_group names created retval =
     (if \<not> created then (- ENOMEM, \<lparr>refs = 0, files = []\<rparr>)
      else let d = \<lparr>refs = 1, files = if retval = 0 then names else []\<rparr>
           in (retval, if retval \<noteq> 0 then kobject_put d else d))"

definition example_init :: "bool \<Rightarrow> int \<Rightarrow> int \<times> kobj_dir" where
  "example_init = load_group [''foo'', ''baz'', ''bar'']"

definition fam_init :: "bool \<Rightarrow> int \<Rightarrow> int \<times> kobj_dir" where
  "fam_init = load_group [''fam_reader'']"

definition example_exit :: "kobj_dir \<Rightarrow> kobj_dir" where
  "example_exit d = kobject_put d"

lemmas kobj_defs = read_file_def write_file_def attrs_def foo_show_def foo_store_def b_show_def
  b_store_def printk_def file_val_def Let_def

text \<open>Loading installs all files of the group or nothing; unloading removes them.\<close>

lemma load_group_result:
  "load_group names created r = (ret, d) \<Longrightarrow>
   (ret = 0 \<longrightarrow> created \<and> d = \<lparr>refs = 1, files = names\<rparr> \<and> example_exit d = \<lparr>refs = 0, files = []\<rparr>) \<and>
   (ret \<noteq> 0 \<longrightarrow> d = \<lparr>refs = 0, files = []\<rparr>)"
  by (auto simp: load_group_def example_exit_def kobject_put_def ENOMEM_def Let_def split: if_splits)

lemmas example_init_result = load_group_result [of "[''foo'', ''baz'', ''bar'']", folded example_init_def]
  and fam_init_result = load_group_result [of "[''fam_reader'']", folded fam_init_def]

section \<open>The ancestors of a process\<close>

record task_struct =
  pid :: int
  comm :: string
  real_parent :: nat

type_synonym tasks = "nat \<Rightarrow> task_struct"

definition task_line :: "task_struct \<Rightarrow> string" where
  "task_line t = ''PID = '' @ show_int (pid t) @ '', comm = '' @ comm t @ [CHR 0x0A]"

text \<open>The loop of \<open>fam_reader_store\<close>; it need not end, so its value may be \<open>None\<close>.\<close>

partial_function (option) parent_walk :: "tasks \<Rightarrow> nat \<Rightarrow> string list \<Rightarrow> string list option" where
  "parent_walk ts p log =
     (if 1 \<noteq> pid (ts p) \<and> 0 \<noteq> pid (ts p)
      then parent_walk ts (real_parent (ts p)) (log @ [task_line (ts (real_parent (ts p)))])
      else Some log)"

record fam_state =
  fam_reader :: int
  fam_log :: "string list"

definition fam_reader_show :: "fam_state \<Rightarrow> string \<times> fam_state" where
  "fam_reader_show s =
     (line_of (fam_reader s), s\<lparr>fam_log := fam_log s @ [''fam_reader_show'' @ [CHR 0x0A]]\<rparr>)"

definition fam_reader_store :: "kstrtoint \<Rightarrow> (int \<Rightarrow> 'p option) \<Rightarrow> ('p \<Rightarrow> nat option) \<Rightarrow> tasks \<Rightarrow>
    string \<Rightarrow> int \<Rightarrow> fam_state \<Rightarrow> (int \<times> fam_state) option" where
  "fam_reader_store kstr find_vpid pid_task ts buf count s =
     (let s1 = s\<lparr>fam_log := fam_log s @ [''fam_reader_store'' @ [CHR 0x0A]]\<rparr> in
      case kstr buf of
        Inl ret \<Rightarrow> Some (ret, s1)
      | Inr v \<Rightarrow>
          (let s2 = s1\<lparr>fam_reader := v\<rparr> in
           case find_vpid v of
             None \<Rightarrow> Some (count, s2\<lparr>fam_log := fam_log s2 @ [''pstId = NULL'' @ [CHR 0x0A]]\<rparr>)
           | Some pstId \<Rightarrow>
               (case pid_task pstId of
                  None \<Rightarrow> Some (count, s2\<lparr>fam_log := fam_log s2 @ [''pstTr = NULL'' @ [CHR 0x0A]]\<rparr>)
                | Some tr \<Rightarrow>
                    map_option (\<lambda>log. (count, s2\<lparr>fam_log := log\<rparr>))
                      (parent_walk ts tr (fam_log s2 @ [task_line (ts tr)])))))"

text \<open>The \<open>k\<close>-th ancestor, and the two processes at which a chain of parents ends.\<close>

definition ancestor :: "tasks \<Rightarrow> nat \<Rightarrow> nat \<Rightarrow> nat" where
  "ancestor ts p k = ((\<lambda>q. real_parent (ts q)) ^^ k) p"

definition is_root :: "tasks \<Rightarrow> nat \<Rightarrow> bool" where
  "is_root ts p \<longleftrightarrow> pid (ts p) = 1 \<or> pid (ts p) = 0"

lemma ancestor_simps [simp]:
  "ancestor ts p 0 = p" "ancestor ts p (Suc k) = ancestor ts (real_parent (ts p)) k"
  by (simp_all add: ancestor_def funpow_Suc_right del: funpow.simps(2))

lemma parent_walk_ends:
  "is_root ts (ancestor ts p k) \<Longrightarrow> \<forall>i<k. \<not> is_root ts (ancestor ts p i) \<Longrightarrow>
   parent_walk ts p log = Some (log @ map (\<lambda>i. task_line (ts (ancestor ts p (Suc i)))) [0..<k])"
proof (induction k arbitrary: p log)
  case 0
  then show ?case by (subst parent_walk.simps) (auto simp: is_root_def)
next
  case (Suc k)
  let ?q = "real_parent (ts p)"
  have "\<not> is_root ts p" using Suc.prems(2) by force
  moreover have "\<forall>i<k. \<not> is_root ts (ancestor ts ?q i)"
  proof (intro allI impI)
    fix i assume "i < k"
    with Suc.prems(2) have "\<not> is_root ts (ancestor ts p (Suc i))" by blast
    then show "\<not> is_root ts (ancestor ts ?q i)" by simp
  qed
  moreover have "[0..<Suc k] = 0 # map Suc [0..<k]" by (simp add: upt_conv_Cons map_Suc_upt)
  ultimately show ?case
    using Suc.IH [of ?q "log @ [task_line (ts ?q)]"] Suc.prems(1)
    by (subst parent_walk.simps) (auto simp: is_root_def simp del: upt_Suc)
qed

lemma parent_walk_returns:
  assumes "parent_walk ts p log = Some r"
  shows "\<exists>k. is_root ts (ancestor ts p k)"
proof (rule parent_walk.raw_induct [where P = "\<lambda>ts p log r. \<exists>k. is_root ts (ancestor ts p k)", OF _ assms])
  fix walk ts p log r
  assume IH: "\<And>ts p log r. walk ts p log = Some r \<Longrightarrow> \<exists>k. is_root ts (ancestor ts p k)"
    and body: "(if 1 \<noteq> pid (ts p) \<and> 0 \<noteq> pid (ts p)
      then walk ts (real_parent (ts p)) (log @ [task_line (ts (real_parent (ts p)))]) else Some log) = Some r"
  show "\<exists>k. is_root ts (ancestor ts p k)"
  proof (cases "is_root ts p")
    case True
    then show ?thesis by (intro exI [of _ 0]) simp
  next
    case False
    with body have "walk ts (real_parent (ts p)) (log @ [task_line (ts (real_parent (ts p)))]) = Some r"
      by (auto simp: is_root_def split: if_splits)
    from IH [OF this] obtain k where "is_root ts (ancestor ts (real_parent (ts p)) k)" by blast
    then show ?thesis by (intro exI [of _ "Suc k"]) simp
  qed
qed

lemma parent_walk_diverges: "\<forall>k. \<not> is_root ts (ancestor ts p k) \<Longrightarrow> parent_walk ts p log = None"
  using parent_walk_returns by (cases "parent_walk ts p log") blast+

text \<open>The chain of ancestors up to the first root.\<close>

definition lineage :: "tasks \<Rightarrow> nat \<Rightarrow> nat \<Rightarrow> nat list" where
  "lineage ts p k = map (ancestor ts p) [0..<Suc k]"

lemma parent_walk_lineage:
  assumes "is_root ts (ancestor ts p k)" and "\<forall>i<k. \<not> is_root ts (ancestor ts p i)"
  shows "parent_walk ts p (log @ [task_line (ts p)]) = Some (log @ map (\<lambda>q. task_line (ts q)) (lineage ts p k))"
proof -
  have "[0..<Suc k] = 0 # map Suc [0..<k]" by (simp add: upt_conv_Cons map_Suc_upt)
  then show ?thesis
    using parent_walk_ends [OF assms] by (simp add: lineage_def del: upt_Suc)
qed

lemma write_file_total:
  assumes "f \<in> {''foo'', ''baz'', ''bar''}"
  shows "\<exists>r t. write_file kstr junk f buf s = Some (r, t)"
proof -
  have "write_file kstr junk f buf s \<noteq> None" using assms by (auto simp: write_file_def attrs_def)
  then show ?thesis by (metis not_None_eq surj_pair)
qed

text \<open>A conversion with the documented behaviour, for the examples.\<close>

definition scan_kstrtoint :: kstrtoint where
  "scan_kstrtoint b =
     (case scan_d b of None \<Rightarrow> Inl (-22) | Some (v, r) \<Rightarrow> if r = [] \<or> r = [CHR 0x0A] then Inr v else Inl (-22))"

lemma scan_kstrtoint_ok: "kstrtoint_ok scan_kstrtoint"
proof -
  have "is_int32 v" if "scan_d b = Some (v, r)" for b v r
    using that by (auto simp: scan_d_def clamp32_is_int32 Let_def split: prod.splits if_splits)
  moreover have "scan_d (show_int v @ r) = Some (v, r)" if "is_int32 v" "r = [] \<or> r = [CHR 0x0A]" for v r
    by (rule scan_d_show_int) (use that in \<open>auto simp: is_digit_def\<close>)
  from this [of _ "[]"] this [of _ "[CHR 0x0A]"]
  have "is_int32 v \<Longrightarrow> scan_kstrtoint (show_int v) = Inr v \<and> scan_kstrtoint (show_int v @ [CHR 0x0A]) = Inr v" for v
    by (simp add: scan_kstrtoint_def)
  ultimately show ?thesis
    by (auto simp: kstrtoint_ok_def scan_kstrtoint_def split: option.splits if_splits)
qed

section \<open>Properties\<close>

text \<open>C27: a number written to one of the three files is read back from it and the other two files keep
  their values. A failing write returns the error; it leaves \<open>baz\<close> and \<open>bar\<close> alone, but a failing
  write to \<open>foo\<close> stores the uninitialised local of \<open>foo_store\<close> in \<open>foo\<close>.\<close>

theorem kobj_write_read:
  assumes "kstrtoint_ok kstr" and "f \<in> {''foo'', ''baz'', ''bar''}"
    and "write_file kstr junk f buf s = Some (ret, t)"
  shows "(is_int32 v \<longrightarrow> buf = line_of v \<longrightarrow> ret = int (length buf) \<and>
      (\<exists>u. read_file kstr junk f t = Some (line_of v, u)))
    \<and> (\<forall>g \<in> {''foo'', ''baz'', ''bar''}. g \<noteq> f \<longrightarrow> file_val g t = file_val g s)
    \<and> (kstr buf = Inl e \<longrightarrow> ret = e \<and> ret < 0 \<and>
        file_val f t = (if f = ''foo'' then junk else file_val f s))"
proof (intro conjI impI)
  have ok: "kstr b = Inl e \<Longrightarrow> e < 0" "is_int32 v \<Longrightarrow> kstr (line_of v) = Inr v" for b
    using assms(1) by (auto simp: kstrtoint_ok_def line_of_def)
  show "ret = int (length buf)" if "is_int32 v" "buf = line_of v"
    using assms(2,3) ok(2) that by (auto simp: kobj_defs)
  show "\<exists>u. read_file kstr junk f t = Some (line_of v, u)" if "is_int32 v" "buf = line_of v"
    using assms(2,3) ok(2) that by (auto simp: kobj_defs)
  show "\<forall>g \<in> {''foo'', ''baz'', ''bar''}. g \<noteq> f \<longrightarrow> file_val g t = file_val g s"
    using assms(2,3) by (auto simp: kobj_defs split: sum.splits if_splits)
  assume e: "kstr buf = Inl e"
  show "ret = e" "ret < 0" using assms(2,3) e ok(1) [OF e] by (auto simp: kobj_defs split: if_splits)
  show "file_val f t = (if f = ''foo'' then junk else file_val f s)"
    using assms(2,3) e ok(1) [OF e] by (auto simp: kobj_defs)
qed

theorem kobj_write_read_witness:
  "\<exists>t u w x. write_file scan_kstrtoint 7 ''bar'' (line_of (-3)) \<lparr>foo = 1, baz = 2, bar = 0, klog = []\<rparr> = Some (3, t)
     \<and> read_file scan_kstrtoint 7 ''bar'' t = Some (line_of (-3), u) \<and> file_val ''foo'' t = 1
     \<and> write_file scan_kstrtoint 7 ''foo'' ''x'' t = Some (w, x) \<and> w < 0 \<and> file_val ''foo'' x = 7"
proof -
  let ?s = "\<lparr>foo = 1, baz = 2, bar = 0, klog = []\<rparr>"
  have x: "scan_kstrtoint ''x'' = Inl (-22)"
    by (simp add: scan_kstrtoint_def scan_d_def is_space_def is_digit_def)
  obtain r t where t: "write_file scan_kstrtoint 7 ''bar'' (line_of (-3)) ?s = Some (r, t)"
    using write_file_total [of "''bar''" scan_kstrtoint 7] by blast
  obtain w y where y: "write_file scan_kstrtoint 7 ''foo'' ''x'' t = Some (w, y)"
    using write_file_total [of "''foo''" scan_kstrtoint 7] by blast
  have "length (line_of (-3)) = 3" by (simp add: line_of_def show_int_def show_nat.simps)
  then have 1: "r = 3" "\<exists>u. read_file scan_kstrtoint 7 ''bar'' t = Some (line_of (-3), u)"
    and 2: "file_val ''foo'' t = file_val ''foo'' ?s"
    using kobj_write_read [OF scan_kstrtoint_ok _ t, of "-3" 0] by (auto simp: is_int32_def)
  have 3: "w < 0" "file_val ''foo'' y = 7"
    using kobj_write_read [OF scan_kstrtoint_ok _ y, of 0 "-22"] x by auto
  from 2 have "file_val ''foo'' t = 1" by (simp add: file_val_def)
  with 1 3 t y show ?thesis by blast
qed

text \<open>C26: writing a PID returns exactly in four cases: the text is not a number, no process has the PID, it
  has no task, or the chain of parents of its task reaches a process with PID 0 or 1. In the last
  case the log is the chain, from the task to the first such ancestor.\<close>

theorem fam_reader_store_returns:
  "(fam_reader_store kstr find_vpid pid_task ts buf count s \<noteq> None \<longleftrightarrow>
      (case kstr buf of Inl e \<Rightarrow> True | Inr v \<Rightarrow> case find_vpid v of None \<Rightarrow> True | Some p \<Rightarrow>
         case pid_task p of None \<Rightarrow> True | Some tr \<Rightarrow> \<exists>k. is_root ts (ancestor ts tr k)))
   \<and> (\<forall>v p tr k. kstr buf = Inr v \<longrightarrow> find_vpid v = Some p \<longrightarrow> pid_task p = Some tr \<longrightarrow>
      is_root ts (ancestor ts tr k) \<longrightarrow> (\<forall>i<k. \<not> is_root ts (ancestor ts tr i)) \<longrightarrow>
      fam_reader_store kstr find_vpid pid_task ts buf count s
        = Some (count, \<lparr>fam_reader = v, fam_log = fam_log s @ [''fam_reader_store'' @ [CHR 0x0A]]
        @ map (\<lambda>q. task_line (ts q)) (lineage ts tr k)\<rparr>))"
proof (intro conjI allI impI)
  have "parent_walk ts tr (log @ [task_line (ts tr)]) \<noteq> None \<longleftrightarrow> (\<exists>k. is_root ts (ancestor ts tr k))"
    for tr log
  proof
    assume "\<exists>k. is_root ts (ancestor ts tr k)"
    then obtain k where "is_root ts (ancestor ts tr k)" "\<forall>i<k. \<not> is_root ts (ancestor ts tr i)"
      using exists_least_iff [of "\<lambda>k. is_root ts (ancestor ts tr k)"] by blast
    then show "parent_walk ts tr (log @ [task_line (ts tr)]) \<noteq> None" using parent_walk_lineage by simp
  qed (use parent_walk_returns in blast)
  from this [of _ "fam_log s @ [''fam_reader_store'' @ [CHR 0x0A]]"]
  show "fam_reader_store kstr find_vpid pid_task ts buf count s \<noteq> None \<longleftrightarrow>
      (case kstr buf of Inl e \<Rightarrow> True | Inr v \<Rightarrow> case find_vpid v of None \<Rightarrow> True | Some p \<Rightarrow>
         case pid_task p of None \<Rightarrow> True | Some tr \<Rightarrow> \<exists>k. is_root ts (ancestor ts tr k))"
    unfolding fam_reader_store_def by (simp add: Let_def split: sum.split option.split)
next
  fix v p tr k
  assume "kstr buf = Inr v" "find_vpid v = Some p" "pid_task p = Some tr"
    and "is_root ts (ancestor ts tr k)" "\<forall>i<k. \<not> is_root ts (ancestor ts tr i)"
  then show "fam_reader_store kstr find_vpid pid_task ts buf count s
      = Some (count, \<lparr>fam_reader = v, fam_log = fam_log s @ [''fam_reader_store'' @ [CHR 0x0A]]
        @ map (\<lambda>q. task_line (ts q)) (lineage ts tr k)\<rparr>)"
    using parent_walk_lineage [of ts tr k "fam_log s @ [''fam_reader_store'' @ [CHR 0x0A]]"]
    by (simp add: fam_reader_store_def Let_def)
qed

text \<open>Two processes: 1, and 5, its child; and the loop of a process that is its own parent.\<close>

theorem fam_reader_store_returns_witness:
  "let ts = (\<lambda>q. if q = 0 then \<lparr>pid = 1, comm = ''init'', real_parent = 9\<rparr>
                 else if q = 5 then \<lparr>pid = 5, comm = ''sh'', real_parent = 0\<rparr>
                 else \<lparr>pid = 7, comm = ''x'', real_parent = q\<rparr>);
       store = fam_reader_store scan_kstrtoint (\<lambda>v. if v < 9 then Some v else None) (\<lambda>p. Some (nat p)) ts
   in store ''5'' 1 \<lparr>fam_reader = 0, fam_log = []\<rparr> = Some (1, \<lparr>fam_reader = 5, fam_log =
        [''fam_reader_store'' @ [CHR 0x0A], task_line (ts 5), task_line (ts 0)]\<rparr>)
      \<and> store ''7'' 1 \<lparr>fam_reader = 0, fam_log = []\<rparr> = None"
proof -
  define ts where "ts = (\<lambda>q :: nat. if q = 0 then \<lparr>pid = 1, comm = ''init'', real_parent = 9\<rparr>
                 else if q = 5 then \<lparr>pid = 5, comm = ''sh'', real_parent = 0\<rparr>
                 else \<lparr>pid = 7, comm = ''x'', real_parent = q\<rparr>)"
  let ?find = "\<lambda>v :: int. if v < 9 then Some v else None" and ?task = "\<lambda>p. Some (nat p)"
  have k: "scan_kstrtoint ''5'' = Inr 5" "scan_kstrtoint ''7'' = Inr 7"
    by (simp_all add: scan_kstrtoint_def scan_d_def is_space_def is_digit_def digit_val_def dec_val_def clamp32_def)
  have "is_root ts (ancestor ts 5 1)" "\<forall>i<1. \<not> is_root ts (ancestor ts 5 i)"
    by (simp_all add: is_root_def ts_def)
  then have "fam_reader_store scan_kstrtoint ?find ?task ts ''5'' 1 \<lparr>fam_reader = 0, fam_log = []\<rparr>
      = Some (1, \<lparr>fam_reader = 5, fam_log = [] @ [''fam_reader_store'' @ [CHR 0x0A]]
        @ map (\<lambda>q. task_line (ts q)) (lineage ts 5 1)\<rparr>)"
    using fam_reader_store_returns [of scan_kstrtoint ?find ?task ts "''5''" 1 "\<lparr>fam_reader = 0, fam_log = []\<rparr>",
        THEN conjunct2, rule_format, of 5 5 5 1] k(1) by (simp del: ancestor_simps)
  moreover have "lineage ts 5 1 = [5, 0]" by (simp add: lineage_def ts_def)
  moreover have "ancestor ts 7 j = 7" for j by (induction j) (simp_all add: ts_def)
  then have "\<not> is_root ts (ancestor ts 7 j)" for j by (simp add: is_root_def ts_def)
  then have "fam_reader_store scan_kstrtoint ?find ?task ts ''7'' 1 \<lparr>fam_reader = 0, fam_log = []\<rparr> = None"
    using fam_reader_store_returns [of scan_kstrtoint ?find ?task ts "''7''" 1] k(2)
    by (simp del: not_None_eq)
  ultimately show ?thesis unfolding ts_def [symmetric] Let_def by simp
qed

end
