(* ===== verification/KernelMonitor.thy ===== *)
theory KernelMonitor
  imports Prelude
begin

text \<open>
  The two kernel monitors of \<open>lab01\<close>: kernel threads that a high-resolution timer wakes
  periodically and that the unloading of the module stops. \<open>single_thread/main.c\<close> has one thread,
  which starts and cancels the timer itself; in \<open>multi_thread/main.c\<close> the module does that for four
  threads. The kernel calls have their documented meaning: \<open>wake_up_process\<close> makes a task runnable,
  \<open>schedule\<close> blocks a task whose state is \<open>TASK_INTERRUPTIBLE\<close>, \<open>kthread_stop\<close> sets the stop flag,
  wakes the thread, waits for its end and drops the last reference to the task, \<open>hrtimer_cancel\<close>
  waits for a running callback. The timer may fire at any time (its period is a module parameter).
  A thread that is asked to stop before it has run for the first time ends without entering its function.
  The kernel stops at the first \<open>wake_up_process\<close> of a null or a freed task, and at the first use of the
  error pointer that a failed \<open>kthread_run\<close> or \<open>kthread_create\<close> returns and nobody checks for: \<open>ok k\<close> says
  whether the creation of thread \<open>k\<close> succeeds, and \<open>single_step\<close> and \<open>multi_step\<close> are the steps when all do.
\<close>

section \<open>State and kernel calls\<close>

text \<open>
  A kernel thread: not running yet, at its start, at \<open>hrtimer_start\<close> (single thread only), at
  \<open>kthread_should_stop\<close>, at \<open>schedule\<close>, blocked in it, at the \<open>printk\<close>, at \<open>set_current_state\<close>, at
  \<open>hrtimer_cancel\<close> (single thread only), ended.
\<close>

datatype kth_pc = KNew | KStart | KTimer | KCheck | KSched | KAsleep | KPrint | KSetState | KCancel | KExited

text \<open>The module: loading, loaded, and unloading: in \<open>kthread_stop\<close> of thread \<open>k\<close>, cancelling, gone.\<close>

datatype mod_pc = MTimer | MCreate nat | MWakeUp nat | MAssign | MLoaded
  | MStop nat | MWake nat | MWait nat | MCancel | MGone

datatype task_ptr = TNull | TLive | TFreed | TErr

record kmon =
  armed :: bool
  callback :: "nat option"
  gpkthmykth :: "nat \<Rightarrow> task_ptr"
  should_stop :: "nat \<Rightarrow> bool"
  interruptible :: "nat \<Rightarrow> bool"
  tpc :: "nat \<Rightarrow> kth_pc"
  mpc :: mod_pc
  null_wake :: bool
  freed_wake :: bool
  err_use :: bool

definition kgoto :: "nat \<Rightarrow> kth_pc \<Rightarrow> kmon \<Rightarrow> kmon" where
  "kgoto i p s = s\<lparr>tpc := (tpc s)(i := p)\<rparr>"

fun woken :: "kth_pc \<Rightarrow> kth_pc" where
  "woken KNew = KStart"
| "woken KAsleep = KPrint"
| "woken p = p"

definition wake_task :: "nat \<Rightarrow> kmon \<Rightarrow> kmon" where
  "wake_task k s =
     s\<lparr>interruptible := (interruptible s)(k := False), tpc := (tpc s)(k := woken (tpc s k))\<rparr>"

definition wake_up_process :: "nat \<Rightarrow> kmon \<Rightarrow> kmon" where
  "wake_up_process k s =
     (case gpkthmykth s k of
        TNull \<Rightarrow> s\<lparr>null_wake := True\<rparr>
      | TFreed \<Rightarrow> s\<lparr>freed_wake := True\<rparr>
      | TErr \<Rightarrow> s\<lparr>err_use := True\<rparr>
      | TLive \<Rightarrow> wake_task k s)"

definition kernel_init :: "mod_pc \<Rightarrow> kmon" where
  "kernel_init m = \<lparr>armed = False, callback = None, gpkthmykth = (\<lambda>_. TNull), should_stop = (\<lambda>_. False),
     interruptible = (\<lambda>_. False), tpc = (\<lambda>_. KNew), mpc = m, null_wake = False, freed_wake = False,
     err_use = False\<rparr>"

text \<open>
  The timer: it fires, the callback wakes the threads below \<open>n\<close> in turn and returns
  \<open>HRTIMER_RESTART\<close>, which arms the timer again.
\<close>

definition timer_next :: "nat \<Rightarrow> kmon \<Rightarrow> kmon option" where
  "timer_next n s =
     (case callback s of
        None \<Rightarrow> if armed s then Some (s\<lparr>armed := False, callback := Some 0\<rparr>) else None
      | Some k \<Rightarrow> Some (if k < n then (wake_up_process k s)\<lparr>callback := Some (Suc k)\<rparr>
                        else s\<lparr>armed := True, callback := None\<rparr>))"

definition hrtimer_cancel :: "kmon \<Rightarrow> kmon option" where
  "hrtimer_cancel s = (if callback s = None then Some (s\<lparr>armed := False\<rparr>) else None)"

text \<open>The loop of both thread functions; \<open>after\<close> is what follows it.\<close>

definition kthread_loop :: "kth_pc \<Rightarrow> nat \<Rightarrow> kmon \<Rightarrow> kmon option" where
  "kthread_loop after i s =
     (case tpc s i of
        KCheck \<Rightarrow> Some (kgoto i (if should_stop s i then after else KSched) s)
      | KSched \<Rightarrow> Some (kgoto i (if interruptible s i then KAsleep else KPrint) s)
      | KPrint \<Rightarrow> Some (kgoto i KSetState s)
      | KSetState \<Rightarrow> Some (kgoto i KCheck (s\<lparr>interruptible := (interruptible s)(i := True)\<rparr>))
      | _ \<Rightarrow> None)"

text \<open>\<open>kthread_stop\<close> of thread \<open>k\<close>; \<open>after\<close> is what the module does next.\<close>

definition kthread_stop :: "mod_pc \<Rightarrow> kmon \<Rightarrow> kmon option" where
  "kthread_stop after s =
     (case mpc s of
        MStop k \<Rightarrow>
          Some (if gpkthmykth s k = TErr then s\<lparr>err_use := True\<rparr>
                else s\<lparr>should_stop := (should_stop s)(k := True), mpc := MWake k\<rparr>)
      | MWake k \<Rightarrow> Some ((wake_task k s)\<lparr>mpc := MWait k\<rparr>)
      | MWait k \<Rightarrow> if tpc s k = KExited
                   then Some (s\<lparr>gpkthmykth := (gpkthmykth s)(k := TFreed), mpc := after\<rparr>) else None
      | _ \<Rightarrow> None)"

section \<open>The single-threaded monitor\<close>

definition single_thread :: "kmon \<Rightarrow> kmon option" where
  "single_thread s =
     (case tpc s 0 of
        KStart \<Rightarrow> Some (kgoto 0 (if should_stop s 0 then KExited else KTimer) s)
      | KTimer \<Rightarrow> Some (kgoto 0 KCheck (s\<lparr>armed := True\<rparr>))
      | KCancel \<Rightarrow> map_option (kgoto 0 KExited) (hrtimer_cancel s)
      | _ \<Rightarrow> kthread_loop KCancel 0 s)"

text \<open>\<open>kthread_run\<close> starts the thread before \<open>hello_init\<close> stores its result in \<open>gpkthmykth\<close>.\<close>

definition single_module :: "(nat \<Rightarrow> bool) \<Rightarrow> kmon \<Rightarrow> kmon option" where
  "single_module ok s =
     (case mpc s of
        MCreate k \<Rightarrow> Some (kgoto 0 (if ok 0 then KStart else KNew) (s\<lparr>mpc := MAssign\<rparr>))
      | MAssign \<Rightarrow>
          Some (s\<lparr>gpkthmykth := (gpkthmykth s)(0 := if ok 0 then TLive else TErr), mpc := MLoaded\<rparr>)
      | MLoaded \<Rightarrow> Some (s\<lparr>mpc := MStop 0\<rparr>)
      | _ \<Rightarrow> kthread_stop MGone s)"

text \<open>Agent 0 is the module, 1 the timer, 2 the thread.\<close>

definition single_next :: "(nat \<Rightarrow> bool) \<Rightarrow> nat \<Rightarrow> unit \<Rightarrow> kmon \<Rightarrow> kmon option" where
  "single_next ok i c s =
     (if null_wake s \<or> freed_wake s \<or> err_use s then None
      else if i = 0 then single_module ok s else if i = 1 then timer_next 1 s else single_thread s)"

definition single_init :: "kmon \<Rightarrow> bool" where
  "single_init s \<longleftrightarrow> s = kernel_init (MCreate 0)"

abbreviation single_step :: "kmon \<Rightarrow> kmon \<Rightarrow> bool" where
  "single_step \<equiv> sched (single_next (\<lambda>_. True)) 3"

section \<open>The multi-threaded monitor\<close>

definition multi_thread :: "nat \<Rightarrow> kmon \<Rightarrow> kmon option" where
  "multi_thread i s =
     (if tpc s i = KStart then Some (kgoto i (if should_stop s i then KExited else KCheck) s) else kthread_loop KExited i s)"

definition multi_module :: "(nat \<Rightarrow> bool) \<Rightarrow> kmon \<Rightarrow> kmon option" where
  "multi_module ok s =
     (case mpc s of
        MTimer \<Rightarrow> Some (s\<lparr>armed := True, mpc := MCreate 0\<rparr>)
      | MCreate k \<Rightarrow>
          Some (if k < 4 then s\<lparr>gpkthmykth := (gpkthmykth s)(k := if ok k then TLive else TErr), mpc := MCreate (Suc k)\<rparr>
                else s\<lparr>mpc := MWakeUp 0\<rparr>)
      | MWakeUp k \<Rightarrow>
          Some (if k < 4 then (wake_up_process k s)\<lparr>mpc := MWakeUp (Suc k)\<rparr> else s\<lparr>mpc := MLoaded\<rparr>)
      | MLoaded \<Rightarrow> Some (s\<lparr>mpc := MStop 0\<rparr>)
      | MCancel \<Rightarrow> map_option (\<lambda>t. t\<lparr>mpc := MGone\<rparr>) (hrtimer_cancel s)
      | MWait k \<Rightarrow> kthread_stop (if k < 3 then MStop (Suc k) else MCancel) s
      | _ \<Rightarrow> kthread_stop MCancel s)"

text \<open>Agent 0 is the module, 1 the timer, \<open>2 + i\<close> thread \<open>i\<close>.\<close>

definition multi_next :: "(nat \<Rightarrow> bool) \<Rightarrow> nat \<Rightarrow> unit \<Rightarrow> kmon \<Rightarrow> kmon option" where
  "multi_next ok i c s =
     (if null_wake s \<or> freed_wake s \<or> err_use s then None
      else if i = 0 then multi_module ok s else if i = 1 then timer_next 4 s else multi_thread (i - 2) s)"

definition multi_init :: "kmon \<Rightarrow> bool" where
  "multi_init s \<longleftrightarrow> s = kernel_init MTimer"

abbreviation multi_step :: "kmon \<Rightarrow> kmon \<Rightarrow> bool" where
  "multi_step \<equiv> sched (multi_next (\<lambda>_. True)) 6"

lemmas kmon_defs = kgoto_def wake_task_def wake_up_process_def timer_next_def hrtimer_cancel_def
  kthread_loop_def kthread_stop_def

section \<open>Invariant of the single-threaded monitor\<close>

text \<open>The timer is in use from its start to its cancellation.\<close>

fun timer_used :: "kth_pc \<Rightarrow> bool" where
  "timer_used KNew = False"
| "timer_used KStart = False"
| "timer_used KTimer = False"
| "timer_used KExited = False"
| "timer_used _ = True"

text \<open>What the module's position says of the thread: \<open>r\<close> its state, \<open>p\<close> its position, \<open>d\<close> the stop flag.\<close>

fun single_phase :: "mod_pc \<Rightarrow> task_ptr \<Rightarrow> bool \<Rightarrow> bool \<Rightarrow> kth_pc \<Rightarrow> bool" where
  "single_phase (MCreate k) g d r p \<longleftrightarrow> g = TNull \<and> \<not> d \<and> p = KNew"
| "single_phase MAssign g d r p \<longleftrightarrow> g = TNull \<and> \<not> d \<and> p \<noteq> KNew \<and> p \<noteq> KCancel \<and> p \<noteq> KExited"
| "single_phase MLoaded g d r p \<longleftrightarrow> g = TLive \<and> \<not> d \<and> p \<noteq> KNew \<and> p \<noteq> KCancel \<and> p \<noteq> KExited"
| "single_phase (MStop k) g d r p \<longleftrightarrow> k = 0 \<and> g = TLive \<and> \<not> d \<and> p \<noteq> KNew \<and> p \<noteq> KCancel \<and> p \<noteq> KExited"
| "single_phase (MWake k) g d r p \<longleftrightarrow> k = 0 \<and> g = TLive \<and> d \<and> p \<noteq> KNew"
| "single_phase (MWait k) g d r p \<longleftrightarrow> k = 0 \<and> g = TLive \<and> d \<and> p \<noteq> KNew \<and> p \<noteq> KAsleep \<and> (p = KSched \<longrightarrow> \<not> r)"
| "single_phase MGone g d r p \<longleftrightarrow> g = TFreed \<and> d \<and> p = KExited"
| "single_phase _ g d r p \<longleftrightarrow> False"

fun timer_ok :: "bool \<Rightarrow> bool \<Rightarrow> nat option \<Rightarrow> bool" where
  "timer_ok u a None \<longleftrightarrow> a = u"
| "timer_ok u a (Some k) \<longleftrightarrow> u \<and> \<not> a \<and> k \<le> 1"

definition single_inv :: "kmon \<Rightarrow> bool" where
  "single_inv s \<longleftrightarrow>
     single_phase (mpc s) (gpkthmykth s 0) (should_stop s 0) (interruptible s 0) (tpc s 0) \<and>
     timer_ok (timer_used (tpc s 0)) (armed s) (callback s) \<and> \<not> freed_wake s \<and> \<not> err_use s \<and>
     (null_wake s \<longrightarrow> mpc s = MAssign)"

lemma single_invD:
  assumes "single_inv s"
  shows "single_phase (mpc s) (gpkthmykth s 0) (should_stop s 0) (interruptible s 0) (tpc s 0)"
    and "timer_ok (timer_used (tpc s 0)) (armed s) (callback s)"
    and "\<not> freed_wake s" and "null_wake s \<Longrightarrow> mpc s = MAssign" and "\<not> err_use s"
  using assms by (auto simp: single_inv_def)

lemma single_inv_init: "single_init s \<Longrightarrow> single_inv s"
  by (simp add: single_init_def kernel_init_def single_inv_def)

lemma woken_simps [simp]:
  "p \<noteq> KNew \<Longrightarrow> timer_used (woken p) = timer_used p" "woken p \<noteq> KNew" "woken p \<noteq> KAsleep"
  "woken p = KExited \<longleftrightarrow> p = KExited" "woken p = KCancel \<longleftrightarrow> p = KCancel" "woken p = KSched \<longleftrightarrow> p = KSched"
  by (cases p; simp)+

lemma single_module_inv:
  assumes inv: "single_inv s" and ok: "\<not> null_wake s" and nx: "single_module (\<lambda>_. True) s = Some t"
  shows "single_inv t"
proof -
  note d = single_invD(1-3,5) [OF inv]
  show ?thesis
  proof (cases "mpc s")
    case (MWait k)
    with d nx ok show ?thesis
      by (auto simp: single_inv_def single_module_def kthread_stop_def split: if_splits)
  qed (use d nx ok in \<open>auto simp: single_inv_def single_module_def kthread_stop_def kgoto_def wake_task_def\<close>)
qed

lemma single_wake_phase:
  "single_phase m TLive d r p \<Longrightarrow> single_phase m TLive d False (woken p) \<and> p \<noteq> KNew"
  by (cases m) auto

lemma single_timer_inv:
  assumes inv: "single_inv s" and ok: "\<not> null_wake s" and nx: "timer_next 1 s = Some t"
  shows "single_inv t"
proof (cases "callback s")
  case None
  with nx single_invD [OF inv] ok show ?thesis
    by (auto simp: single_inv_def timer_next_def split: if_splits)
next
  case (Some k)
  note d = single_invD(1-3,5) [OF inv]
  show ?thesis
  proof (cases "k < 1")
    case False
    with Some nx d ok show ?thesis by (auto simp: single_inv_def timer_next_def)
  next
    case True
    then have t: "t = (wake_up_process 0 s)\<lparr>callback := Some 1\<rparr>" using Some nx by (simp add: timer_next_def)
    show ?thesis
    proof (cases "gpkthmykth s 0")
      case TNull
      have "mpc s = MAssign" using d(1,2) TNull Some by (cases "mpc s") auto
      with TNull d Some show ?thesis by (auto simp: t single_inv_def wake_up_process_def)
    next
      case TLive
      then show ?thesis using d ok Some single_wake_phase [of "mpc s"]
        by (auto simp: t single_inv_def wake_up_process_def wake_task_def)
    next
      case TFreed
      then have "tpc s 0 = KExited" using d(1) by (cases "mpc s") auto
      with d(2) Some show ?thesis by simp
    next
      case TErr
      then show ?thesis using d(1) by (cases "mpc s") auto
    qed
  qed
qed

text \<open>A move of the thread within its loop keeps the phase.\<close>

lemma single_move_phase:
  assumes "single_phase m g d r p" and "p \<noteq> KNew" and "p \<noteq> KCancel" and "p \<noteq> KExited"
    and "q \<noteq> KNew" and "q \<noteq> KExited" and "q = KCancel \<Longrightarrow> d" and "q = KAsleep \<Longrightarrow> p = KSched \<and> r"
    and "q = KSched \<Longrightarrow> \<not> d"
  shows "single_phase m g d r' q"
  using assms by (cases m) auto

lemma single_thread_inv:
  assumes inv: "single_inv s" and ok: "\<not> null_wake s" and nx: "single_thread s = Some t"
  shows "single_inv t"
proof -
  note d = single_invD(1-3,5) [OF inv]
  show ?thesis
  proof (cases "tpc s 0 = KCancel")
    case True
    then have "mpc s = MWake 0 \<or> mpc s = MWait 0" using d(1) by (cases "mpc s") auto
    with True d ok nx show ?thesis
      by (cases "callback s") (auto simp: single_inv_def single_thread_def hrtimer_cancel_def kgoto_def)
  next
    case False
    show ?thesis
    proof (cases "tpc s 0 = KStart \<and> should_stop s 0")
      case True
      then have "t = kgoto 0 KExited s" using nx by (simp add: single_thread_def)
      moreover have "mpc s = MWake 0 \<or> mpc s = MWait 0" using d(1) True by (cases "mpc s") auto
      ultimately show ?thesis using d ok True by (cases "callback s") (auto simp: single_inv_def kgoto_def)
    next
      case start: False
      define q where "q = tpc t 0"
      have move: "single_phase (mpc s) (gpkthmykth s 0) (should_stop s 0) r' q" for r'
        using nx False start unfolding q_def
        by (intro single_move_phase [OF d(1)])
          (cases "tpc s 0"; auto simp: single_thread_def kthread_loop_def kgoto_def split: if_splits)+
      show ?thesis
        using nx d ok move False start unfolding q_def
        by (cases "tpc s 0"; cases "callback s")
          (auto simp: single_inv_def single_thread_def kthread_loop_def kgoto_def split: if_splits)
    qed
  qed
qed

lemma single_inv_next: "single_inv s \<Longrightarrow> single_next (\<lambda>_. True) i c s = Some t \<Longrightarrow> single_inv t"
  by (auto simp: single_next_def split: if_splits
      intro: single_module_inv single_timer_inv single_thread_inv)

interpretation mon1: invariant_system single_init single_step single_inv
  by unfold_locales (auto elim!: schedE intro: single_inv_init single_inv_next)


section \<open>Progress of the unloading\<close>

fun mod_weight :: "mod_pc \<Rightarrow> nat" where
  "mod_weight (MCreate k) = 6"
| "mod_weight MAssign = 5"
| "mod_weight MLoaded = 4"
| "mod_weight (MStop k) = 3"
| "mod_weight (MWake k) = 2"
| "mod_weight (MWait k) = 1"
| "mod_weight _ = 0"

fun thread_weight :: "kth_pc \<Rightarrow> nat" where
  "thread_weight KStart = 8"
| "thread_weight KTimer = 7"
| "thread_weight KSched = 6"
| "thread_weight KPrint = 5"
| "thread_weight KSetState = 4"
| "thread_weight KCheck = 3"
| "thread_weight KCancel = 2"
| "thread_weight _ = 0"

definition callback_weight :: "nat option \<Rightarrow> nat" where
  "callback_weight c = (case c of None \<Rightarrow> 0 | Some k \<Rightarrow> 3 - k)"

definition single_work :: "kmon \<Rightarrow> nat" where
  "single_work s =
     100 * mod_weight (mpc s) + 10 * thread_weight (tpc s 0) + callback_weight (callback s)"

definition single_good :: "kmon \<Rightarrow> bool" where
  "single_good s \<longleftrightarrow> single_inv s \<and> \<not> null_wake s"

lemma thread_weight_le: "thread_weight p \<le> 8"
  by (cases p) auto

lemma single_module_moves:
  assumes "single_good s" and "mpc s \<noteq> MGone" and "\<forall>k. mpc s = MWait k \<longrightarrow> tpc s 0 = KExited"
  shows "\<exists>t. single_module (\<lambda>_. True) s = Some t \<and> \<not> null_wake t \<and> single_work t < single_work s"
proof -
  note d = single_invD(1) [of s]
  have phase: "single_phase (mpc s) (gpkthmykth s 0) (should_stop s 0) (interruptible s 0) (tpc s 0)"
    using assms(1) d by (simp add: single_good_def)
  have "\<exists>t. single_module (\<lambda>_. True) s = Some t \<and> null_wake t = null_wake s \<and> callback t = callback s
      \<and> Suc (mod_weight (mpc t)) = mod_weight (mpc s)"
    using phase assms(2,3)
    by (cases "mpc s") (auto simp: single_module_def kthread_stop_def kgoto_def wake_task_def)
  then obtain t where t: "single_module (\<lambda>_. True) s = Some t" "null_wake t = null_wake s" "callback t = callback s"
    "Suc (mod_weight (mpc t)) = mod_weight (mpc s)" by blast
  have "single_work t < single_work s"
    using t(4) thread_weight_le [of "tpc t 0"] unfolding single_work_def t(3) by linarith
  with t assms(1) show ?thesis by (auto simp: single_good_def)
qed

lemma single_thread_moves:
  assumes "single_good s" and "mpc s = MWait 0" and "tpc s 0 \<noteq> KExited"
    and "tpc s 0 = KCancel \<Longrightarrow> callback s = None"
  shows "\<exists>t. single_thread s = Some t \<and> \<not> null_wake t \<and> single_work t < single_work s"
proof -
  have "should_stop s 0" "tpc s 0 \<noteq> KNew" "tpc s 0 \<noteq> KAsleep" "tpc s 0 = KSched \<longrightarrow> \<not> interruptible s 0"
    using assms(1,2) single_invD(1) [of s] by (auto simp: single_good_def)
  then show ?thesis
    using assms by (cases "tpc s 0")
      (auto simp: single_thread_def kthread_loop_def hrtimer_cancel_def kgoto_def single_work_def single_good_def)
qed

lemma single_callback_moves:
  assumes "single_good s" and "mpc s = MWait 0" and "tpc s 0 = KCancel" and "callback s = Some k"
  shows "\<exists>t. timer_next 1 s = Some t \<and> \<not> null_wake t \<and> single_work t < single_work s"
proof -
  have "gpkthmykth s 0 = TLive" and "k \<le> 1"
    using assms single_invD(1,2) [of s] by (auto simp: single_good_def)
  then show ?thesis
    using assms by (auto simp: timer_next_def wake_up_process_def wake_task_def single_work_def
        callback_weight_def single_good_def)
qed

interpretation mon1: progress_system single_step single_good "\<lambda>s. mpc s = MGone" single_work
proof unfold_locales
  fix s
  assume good: "single_good s" and fin: "mpc s \<noteq> MGone"
  have "\<exists>i<3. \<exists>t. single_next (\<lambda>_. True) i () s = Some t \<and> \<not> null_wake t \<and> single_work t < single_work s"
  proof -
    have live: "\<not> null_wake s" "\<not> freed_wake s" "\<not> err_use s" using good single_invD(3,5) by (auto simp: single_good_def)
    have wait: "k = 0" if "mpc s = MWait k" for k
      using good that single_invD(1) [of s] by (simp add: single_good_def)
    consider "\<forall>k. mpc s = MWait k \<longrightarrow> tpc s 0 = KExited"
      | k where "mpc s = MWait 0" "tpc s 0 = KCancel" "callback s = Some k"
      | "mpc s = MWait 0" "tpc s 0 \<noteq> KExited" "tpc s 0 = KCancel \<Longrightarrow> callback s = None"
      using wait by (cases "callback s") blast+
    then show ?thesis
    proof cases
      case 1
      from single_module_moves [OF good fin this] live show ?thesis
        by (intro exI [of _ 0]) (simp add: single_next_def)
    next
      case 2
      from single_callback_moves [OF good this] live show ?thesis
        by (intro exI [of _ 1]) (simp add: single_next_def)
    next
      case 3
      from single_thread_moves [OF good this] live show ?thesis
        by (intro exI [of _ 2]) (simp add: single_next_def)
    qed
  qed
  then show "\<exists>t. single_step s t \<and> single_good t \<and> single_work t < single_work s"
    using good single_inv_next unfolding single_good_def by (blast intro: sched)
qed

section \<open>Invariant of the multi-threaded monitor\<close>

text \<open>The threads that \<open>kthread_stop\<close> has waited for.\<close>

fun stopped :: "mod_pc \<Rightarrow> nat" where
  "stopped (MStop k) = k"
| "stopped (MWake k) = k"
| "stopped (MWait k) = k"
| "stopped MCancel = 4"
| "stopped MGone = 4"
| "stopped _ = 0"

definition multi_inv :: "kmon \<Rightarrow> bool" where
  "multi_inv s \<longleftrightarrow> (\<forall>k < stopped (mpc s). tpc s k = KExited) \<and>
     (mpc s = MGone \<longrightarrow> \<not> armed s \<and> callback s = None) \<and> (\<forall>k. mpc s = MWait k \<longrightarrow> k < 4) \<and>
     (\<forall>k. mpc s = MStop k \<or> mpc s = MWake k \<longrightarrow> k < 4)"

lemma wake_up_process_frame [simp]:
  "mpc (wake_up_process k s) = mpc s" "armed (wake_up_process k s) = armed s"
  "callback (wake_up_process k s) = callback s"
  "tpc s j = KExited \<Longrightarrow> tpc (wake_up_process k s) j = KExited"
  by (auto simp: wake_up_process_def wake_task_def split: task_ptr.split)

lemma multi_module_inv:
  assumes "multi_inv s" and "multi_module (\<lambda>_. True) s = Some t"
  shows "multi_inv t"
proof (cases "mpc s")
  case (MWait k)
  have "k < 4" and e: "tpc t = tpc s" "tpc s k = KExited" "\<forall>j<k. tpc s j = KExited"
    and m: "mpc t = (if k < 3 then MStop (Suc k) else MCancel)"
    using assms MWait by (auto simp: multi_inv_def multi_module_def kthread_stop_def split: if_splits)
  have "\<forall>j<Suc k. tpc s j = KExited" using e by (auto simp: less_Suc_eq)
  then show ?thesis using e(1) m \<open>k < 4\<close> by (cases "k = 3") (auto simp: multi_inv_def)
qed (use assms in \<open>auto simp: multi_inv_def multi_module_def kthread_stop_def hrtimer_cancel_def wake_task_def
    split: if_splits\<close>)

lemma multi_timer_inv: "multi_inv s \<Longrightarrow> timer_next n s = Some t \<Longrightarrow> multi_inv t"
  by (auto simp: multi_inv_def timer_next_def split: option.splits if_splits)

lemma multi_thread_inv: "multi_inv s \<Longrightarrow> multi_thread i s = Some t \<Longrightarrow> multi_inv t"
  by (cases "tpc s i") (auto simp: multi_inv_def multi_thread_def kthread_loop_def kgoto_def)

interpretation mon4: invariant_system multi_init multi_step multi_inv
proof unfold_locales
  show "multi_init s \<Longrightarrow> multi_inv s" for s by (simp add: multi_init_def kernel_init_def multi_inv_def)
  show "multi_inv s \<Longrightarrow> multi_step s t \<Longrightarrow> multi_inv t" for s t
    by (auto elim!: schedE simp: multi_next_def split: if_splits
        intro: multi_module_inv multi_timer_inv multi_thread_inv)
qed

section \<open>Properties\<close>

text \<open>C28: the single-threaded monitor never wakes a freed task; after \<open>hello_exit\<close> its thread has ended, its
  timer is off and no callback is running. The one fault left: while \<open>hello_init\<close> has not yet stored
  the result of \<open>kthread_run\<close> the callback may wake a null pointer, and some run does.\<close>

theorem single_monitor_safe:
  assumes "reach single_init single_step s"
  shows "\<not> freed_wake s \<and> (null_wake s \<longrightarrow> mpc s = MAssign)
    \<and> (mpc s = MGone \<longrightarrow> tpc s 0 = KExited \<and> \<not> armed s \<and> callback s = None)
    \<and> (\<exists>t. reach single_init single_step t \<and> null_wake t)"
proof -
  have inv: "single_inv s" using assms by (rule mon1.reach_inv)
  note d = single_invD [OF inv]
  have "tpc s 0 = KExited \<and> \<not> armed s \<and> callback s = None" if "mpc s = MGone"
    using d(1,2) that by (cases "callback s") auto
  moreover have "\<exists>t. reach single_init single_step t \<and> null_wake t"
  proof -
    let ?es = "map (\<lambda>i. (i, ())) [0, 2, 2, 1, 1 :: nat]"
    obtain t where t: "run (single_next (\<lambda>_. True)) ?es (kernel_init (MCreate 0)) = Some t" "null_wake t"
      by (simp add: single_next_def single_module_def single_thread_def kmon_defs kernel_init_def)
    have "reach single_init single_step t"
      by (rule run_reach [OF _ t(1)]) (simp_all add: single_init_def)
    with t(2) show ?thesis by blast
  qed
  ultimately show ?thesis using d(3,4) by blast
qed

text \<open>A complete life: load, start, one wake-up, unload.\<close>

definition single_life :: "(nat \<times> unit) list" where
  "single_life = map (\<lambda>i. (i, ())) [0, 0, 2, 2, 2, 2, 2, 2, 2, 2, 1, 1, 1, 2, 0, 0, 0, 2, 2, 2, 0]"

theorem single_monitor_safe_witness:
  "\<exists>s. reach single_init single_step s \<and> mpc s = MGone \<and> tpc s 0 = KExited \<and> \<not> armed s \<and> callback s = None"
proof -
  obtain t where t: "run (single_next (\<lambda>_. True)) single_life (kernel_init (MCreate 0)) = Some t" "mpc t = MGone"
    by (simp add: single_life_def single_next_def single_module_def single_thread_def kmon_defs kernel_init_def)
  have "reach single_init single_step t"
    by (rule run_reach [OF _ t(1)]) (simp_all add: single_init_def single_life_def)
  with single_monitor_safe [OF this] t(2) show ?thesis by blast
qed



text \<open>C30: \<open>hello_exit\<close> of the multi-threaded monitor stops the threads before it cancels the timer, and
  \<open>hello_init\<close> starts the timer before it creates them: some run wakes a freed task, some a null
  pointer. In every run that gets to the end the timer is off and all four threads have ended.\<close>

theorem multi_monitor_races:
  "(\<exists>t. reach multi_init multi_step t \<and> freed_wake t \<and> mpc t = MStop 1)
   \<and> (\<exists>t. reach multi_init multi_step t \<and> null_wake t)
   \<and> (\<forall>t. reach multi_init multi_step t \<and> mpc t = MGone \<longrightarrow>
        \<not> armed t \<and> callback t = None \<and> (\<forall>k<4. tpc t k = KExited))"
proof (intro conjI allI impI)
  let ?es = "map (\<lambda>i. (i, ())) (replicate 12 0 @ [0, 0, 2, 0, 1, 1 :: nat])"
  obtain t where t: "run (multi_next (\<lambda>_. True)) ?es (kernel_init MTimer) = Some t" "freed_wake t" "mpc t = MStop 1"
    by (simp add: numeral_eq_Suc multi_next_def multi_module_def multi_thread_def kmon_defs kernel_init_def)
  have "reach multi_init multi_step t"
    by (rule run_reach [OF _ t(1)]) (auto simp: multi_init_def)
  with t(2,3) show "\<exists>t. reach multi_init multi_step t \<and> freed_wake t \<and> mpc t = MStop 1" by blast
  let ?fs = "map (\<lambda>i. (i, ())) [0, 1, 1 :: nat]"
  obtain u where u: "run (multi_next (\<lambda>_. True)) ?fs (kernel_init MTimer) = Some u" "null_wake u"
    by (simp add: multi_next_def multi_module_def kmon_defs kernel_init_def)
  have "reach multi_init multi_step u"
    by (rule run_reach [OF _ u(1)]) (simp_all add: multi_init_def)
  with u(2) show "\<exists>t. reach multi_init multi_step t \<and> null_wake t" by blast
next
  fix t assume "reach multi_init multi_step t \<and> mpc t = MGone"
  then show "\<not> armed t" "callback t = None" "k < 4 \<Longrightarrow> tpc t k = KExited" for k
    using mon4.reach_inv [of t] by (auto simp: multi_inv_def)
qed

theorem multi_monitor_races_witness:
  "\<exists>s. reach multi_init multi_step s \<and> mpc s = MGone \<and> \<not> armed s \<and> callback s = None \<and> tpc s 3 = KExited"
proof -
  let ?es = "map (\<lambda>i. (i, ())) (replicate 12 0 @ [0, 0, 2, 0] @ [0, 0, 3, 0] @ [0, 0, 4, 0]
    @ [0, 0, 5, 0] @ [0 :: nat])"
  obtain t where t: "run (multi_next (\<lambda>_. True)) ?es (kernel_init MTimer) = Some t" "mpc t = MGone"
    by (simp add: numeral_eq_Suc multi_next_def multi_module_def multi_thread_def kmon_defs kernel_init_def)
  have r: "reach multi_init multi_step t"
    by (rule run_reach [OF _ t(1)]) (auto simp: multi_init_def)
  have "\<not> armed t \<and> callback t = None \<and> (\<forall>k<4. tpc t k = KExited)"
    using multi_monitor_races r t(2) by blast
  with r t(2) show ?thesis by auto
qed

text \<open>
  Neither module looks at what \<open>kthread_run\<close> and \<open>kthread_create\<close> return: when the creation fails, unloading
  the one and loading the other use the error pointer as a task.
\<close>

lemma create_failure:
  "\<exists>t. reach single_init (sched (single_next (\<lambda>_. False)) 3) t \<and> err_use t \<and> mpc t = MStop 0"
  "\<exists>t. reach multi_init (sched (multi_next (\<lambda>k. k \<noteq> 0)) 6) t \<and> err_use t"
proof -
  let ?es = "map (\<lambda>i. (i, ())) [0, 0, 0, 0 :: nat]"
  obtain t where t: "run (single_next (\<lambda>_. False)) ?es (kernel_init (MCreate 0)) = Some t" "err_use t" "mpc t = MStop 0"
    by (simp add: single_next_def single_module_def kmon_defs kernel_init_def)
  have "reach single_init (sched (single_next (\<lambda>_. False)) 3) t"
    by (rule run_reach [OF _ t(1)]) (simp_all add: single_init_def)
  with t(2,3) show "\<exists>t. reach single_init (sched (single_next (\<lambda>_. False)) 3) t \<and> err_use t \<and> mpc t = MStop 0" by blast
  let ?fs = "map (\<lambda>i. (i, ())) (replicate 7 (0 :: nat))"
  obtain u where u: "run (multi_next (\<lambda>k. k \<noteq> 0)) ?fs (kernel_init MTimer) = Some u" "err_use u"
    by (simp add: numeral_eq_Suc multi_next_def multi_module_def kmon_defs kernel_init_def)
  have "reach multi_init (sched (multi_next (\<lambda>k. k \<noteq> 0)) 6) u"
    by (rule run_reach [OF _ u(1)]) (auto simp: multi_init_def)
  with u(2) show "\<exists>t. reach multi_init (sched (multi_next (\<lambda>k. k \<noteq> 0)) 6) t \<and> err_use t" by blast
qed

end
