(* ===== verification/ProcessTree.thy ===== *)
theory ProcessTree
  imports CStrings
begin

text \<open>
  The programs that create processes: \<open>studio07/fork_n_tree/tree.c\<close> (a process and two children that
  execute the same program one level lower), \<open>fork.c\<close> beside it, and the busy loops of \<open>studio08\<close>
  and \<open>studio09\<close> (\<open>busyloop_rtfork.c\<close> forks in a loop). What \<open>fork\<close> returns in the parent is a
  parameter; in the child it returns 0.
\<close>

section \<open>\<open>tree.c\<close>\<close>
















section \<open>\<open>fork.c\<close>\<close>

text \<open>
  What parent and child write in the end. On a terminal the first line leaves the buffer at its
  newline; into a file or a pipe it is still in the buffer when the process forks, and both
  processes have it.
\<close>

definition fork_main :: "bool \<Rightarrow> int \<Rightarrow> string \<times> string option" where
  "fork_main tty s32pid =
     (let ready = ''[Parent] Ready to fork!'' @ [CHR 0x0A];
          pending = (if tty then [] else ready);
          child = ''[Child ] I am his son.'' @ [CHR 0x0A];
          parent = ''[Parent] Child PID = '' @ show_int s32pid @ [CHR 0x0A]
      in (ready @ parent, if 0 \<le> s32pid then Some (pending @ child) else None))"

section \<open>The busy loops\<close>

definition MAX_CORE_NO :: int where
  "MAX_CORE_NO = 4"

text \<open>\<open>busy_loop.c\<close> has the largest core number under the same name.\<close>

definition busy_MAX_CORE_NO :: int where
  "busy_MAX_CORE_NO = 3"

definition IRT_NUM :: int where
  "IRT_NUM = 500000000"

text \<open>How a program ends: the loop of \<open>busy_loop.c\<close> never does.\<close>

datatype busy_end = Spins | Exits int

text \<open>\<open>for (s32i = 0; s32i < IRT_NUM; s32i++) {}\<close>: the value of \<open>s32i\<close> after the loop.\<close>

function spin_loop :: "int \<Rightarrow> int" where
  "spin_loop s32i = (if s32i < IRT_NUM then spin_loop (s32i + 1) else s32i)"
  by pat_completeness auto
termination by (relation "measure (\<lambda>i. nat (IRT_NUM - i))") (auto simp: IRT_NUM_def)

declare spin_loop.simps [simp del]

lemma spin_loop_ends: "i \<le> IRT_NUM \<Longrightarrow> spin_loop i = IRT_NUM"
proof (induction i rule: spin_loop.induct)
  case (1 i)
  then show ?case by (subst spin_loop.simps) auto
qed

text \<open>\<open>exit(EXIT_SUCCESS)\<close> behind the loop; its whole program is \<open>busyloop.c\<close>.\<close>

definition after_spin :: "int \<Rightarrow> busy_end" where
  "after_spin s32i = Exits 0"

text \<open>
  The outcome of the arguments: an exit code, or the core, the priority and the number of children.
  \<open>affinity\<close> and \<open>prio_ok\<close> say which calls of \<open>sched_setaffinity\<close> and \<open>sched_setscheduler\<close> succeed.
\<close>

definition busy_loop :: "(int \<Rightarrow> bool) \<Rightarrow> string list \<Rightarrow> busy_end" where
  "busy_loop affinity argv =
     (if length argv \<noteq> 2 then Exits 1
      else let s32CPUNo = atoi (argv ! 1) in
        if s32CPUNo < 0 \<or> busy_MAX_CORE_NO < s32CPUNo then Exits 1
        else if \<not> affinity s32CPUNo then Exits 1 else Spins)"

definition busyloop_rt :: "(int \<Rightarrow> bool) \<Rightarrow> (int \<Rightarrow> bool) \<Rightarrow> string list \<Rightarrow> busy_end" where
  "busyloop_rt affinity prio_ok argv =
     (if length argv \<noteq> 3 then Exits 1
      else let s32CPUNo = atoi (argv ! 1); s32Prio = atoi (argv ! 2) in
        if s32CPUNo < 0 \<or> MAX_CORE_NO \<le> s32CPUNo then Exits 1
        else if \<not> affinity s32CPUNo then Exits 1 else if \<not> prio_ok s32Prio then Exits 1
        else after_spin (spin_loop 0))"

text \<open>
  The loop of forks of \<open>busyloop_rtfork.c\<close>, run by every process that comes out of it: the list of the
  values of \<open>s32i\<close> with which the processes leave it. \<open>forks i\<close> says whether the \<open>i\<close>-th call succeeds; a
  child leaves the loop at once.
\<close>

function fork_loop :: "(int \<Rightarrow> bool) \<Rightarrow> int \<Rightarrow> int \<Rightarrow> int list" where
  "fork_loop forks s32CHDNo s32i =
     (if s32i < s32CHDNo
      then (if forks s32i then [s32i] else []) @ fork_loop forks s32CHDNo (s32i + 1)
      else [s32i])"
  by pat_completeness auto
termination by (relation "measure (\<lambda>(f, n, i). nat (n - i))") auto

declare fork_loop.simps [simp del]

definition busyloop_rtfork ::
    "(int \<Rightarrow> bool) \<Rightarrow> (int \<Rightarrow> bool) \<Rightarrow> (int \<Rightarrow> bool) \<Rightarrow> string list \<Rightarrow> busy_end list" where
  "busyloop_rtfork affinity prio_ok forks argv =
     (if length argv \<noteq> 4 then [Exits 1]
      else let s32CPUNo = atoi (argv ! 1); s32Prio = atoi (argv ! 2);
               s32CHDNo = wrap32 (atoi (argv ! 3) - 1) in
        if s32CPUNo < 0 \<or> MAX_CORE_NO \<le> s32CPUNo then [Exits 1]
        else if \<not> affinity s32CPUNo then [Exits 1] else if \<not> prio_ok s32Prio then [Exits 1]
        else map (\<lambda>i. after_spin (spin_loop 0)) (fork_loop forks s32CHDNo 0))"

lemma fork_loop_length:
  "length (fork_loop forks n i) = Suc (card {k. i \<le> k \<and> k < n \<and> forks k})"
proof (induction forks n i rule: fork_loop.induct)
  case (1 forks n i)
  show ?case
  proof (cases "i < n")
    case True
    have "{k. i \<le> k \<and> k < n \<and> forks k}
        = (if forks i then {i} else {}) \<union> {k. i + 1 \<le> k \<and> k < n \<and> forks k}"
      using True by (auto simp: order_le_less)
    moreover have "finite {k. i + 1 \<le> k \<and> k < n \<and> forks k}"
      by (rule finite_subset [of _ "{i + 1..<n}"]) auto
    ultimately show ?thesis using 1 True by (subst fork_loop.simps) simp
  next
    case False
    then have "{k. i \<le> k \<and> k < n \<and> forks k} = {}" by auto
    then have "card {k. i \<le> k \<and> k < n \<and> forks k} = 0" by (simp only: card.empty)
    with False show ?thesis by (subst fork_loop.simps) simp
  qed
qed

text \<open>The two spellings of the range check accept the same cores.\<close>

lemma busy_core_checks: "(c < 0 \<or> busy_MAX_CORE_NO < c) = (c < 0 \<or> MAX_CORE_NO \<le> c)"
  by (auto simp: busy_MAX_CORE_NO_def MAX_CORE_NO_def)

section \<open>Properties\<close>



text \<open>\<open>busyloop_rtfork\<close> on accepted arguments ends in one process more than the calls of \<open>fork\<close> that
  succeed, at most the number asked for (and one at least), all with exit code 0.\<close>

theorem busyloop_rtfork_processes:
  assumes "length argv = 4" and "0 \<le> atoi (argv ! 1)" and "atoi (argv ! 1) < MAX_CORE_NO"
    and "affinity (atoi (argv ! 1))" and "prio_ok (atoi (argv ! 2))" and "INT_MIN < atoi (argv ! 3)"
  shows "set (busyloop_rtfork affinity prio_ok forks argv) = {Exits 0}
    \<and> length (busyloop_rtfork affinity prio_ok forks argv)
      = Suc (card {k. 0 \<le> k \<and> k < atoi (argv ! 3) - 1 \<and> forks k})
    \<and> ((\<forall>k. forks k) \<longrightarrow> int (length (busyloop_rtfork affinity prio_ok forks argv)) = max 1 (atoi (argv ! 3)))"
proof -
  let ?n = "atoi (argv ! 3)"
  have n: "wrap32 (?n - 1) = ?n - 1"
    using atoi_is_int32 [of "argv ! 3"] assms(6) by (intro wrap32_id) (auto simp: is_int32_def)
  have r: "busyloop_rtfork affinity prio_ok forks argv = map (\<lambda>i. Exits 0) (fork_loop forks (?n - 1) 0)"
    using assms n by (simp add: busyloop_rtfork_def after_spin_def Let_def)
  then have len: "length (busyloop_rtfork affinity prio_ok forks argv)
      = Suc (card {k. 0 \<le> k \<and> k < ?n - 1 \<and> forks k})" by (simp add: fork_loop_length)
  have "card {k. 0 \<le> k \<and> k < ?n - 1} = nat (?n - 1)"
  proof -
    have "{k. 0 \<le> k \<and> k < ?n - 1} = {0..<?n - 1}" by auto
    then show ?thesis by simp
  qed
  then have "(\<forall>k. forks k) \<longrightarrow> int (length (busyloop_rtfork affinity prio_ok forks argv)) = max 1 ?n"
    unfolding len by simp
  moreover have "fork_loop forks (?n - 1) 0 \<noteq> []" using fork_loop_length [of forks "?n - 1" 0] by auto
  then have "set (busyloop_rtfork affinity prio_ok forks argv) = {Exits 0}"
    unfolding r by (cases "fork_loop forks (?n - 1) 0") auto
  ultimately show ?thesis using len by blast
qed

theorem busyloop_rtfork_processes_witness:
  "busyloop_rtfork (\<lambda>c. True) (\<lambda>p. p < 100) (\<lambda>k. True) [''b'', ''3'', ''50'', ''4'']
     = [Exits 0, Exits 0, Exits 0, Exits 0]"
proof -
  define r where "r = busyloop_rtfork (\<lambda>c. True) (\<lambda>p. p < 100) (\<lambda>k. True) [''b'', ''3'', ''50'', ''4'']"
  have a: "atoi ''3'' = 3" "atoi ''50'' = 50" "atoi ''4'' = 4"
    by (simp_all add: atoi_def is_space_def is_digit_def digit_val_def dec_val_def clamp32_def)
  have "set r = {Exits 0}" and "length r = 4"
    using busyloop_rtfork_processes [of "[''b'', ''3'', ''50'', ''4'']" "\<lambda>c. True" "\<lambda>p. p < 100" "\<lambda>k. True"] a
    unfolding r_def by (auto simp: MAX_CORE_NO_def)
  then have "r = replicate 4 (Exits 0)" using replicate_length_same [of r "Exits 0"] by simp
  then show ?thesis unfolding r_def by (simp add: numeral_eq_Suc)
qed

end
