(* ===== verification/Pipes.thy ===== *)
theory Pipes
  imports CStrings
begin

text \<open>
  The pipes of \<open>studio13\<close>: \<open>Pipe/src/pipe_tst.c\<close> (a child writes three messages, the parent copies
  the pipe byte by byte to its output), \<open>FIFO/src/fifo_tst.c\<close> (the same copy loop on a named pipe) and
  the pair \<open>FIFO_wr/src/fifo_writer.c\<close> and \<open>FIFO_wr/src/fifo_tst.c\<close>, which pass numbers as text. A
  pipe has its documented meaning: bytes come out in the order they were written, a reader of an empty
  pipe waits while some process has it open for writing and sees the end of the file otherwise.
\<close>

section \<open>The copy loop\<close>

text \<open>The writer at its \<open>k\<close>-th message or done (its end closed), the reader in its loop or behind it.\<close>

datatype writer_pc = Writing nat | Closed

record pipe_state =
  pipe_buf :: string
  wpc :: writer_pc
  copied :: string
  reader_done :: bool

definition pipe_init :: "pipe_state \<Rightarrow> bool" where
  "pipe_init s \<longleftrightarrow> pipe_buf s = [] \<and> wpc s = Writing 0 \<and> copied s = [] \<and> \<not> reader_done s"

definition acMsg :: "string list" where
  "acMsg = [''[Tst Msg1] Today'' @ [CHR 0x0A], ''[Tst Msg2] I am'' @ [CHR 0x0A], ''[Tst Msg3] happy.'' @ [CHR 0x0A]]"

definition pipe_write :: "string list \<Rightarrow> pipe_state \<Rightarrow> pipe_state option" where
  "pipe_write msgs s =
     (case wpc s of
        Writing k \<Rightarrow>
          Some (if k < length msgs then s\<lparr>pipe_buf := pipe_buf s @ msgs ! k, wpc := Writing (Suc k)\<rparr>
                else s\<lparr>wpc := Closed\<rparr>)
      | Closed \<Rightarrow> None)"

definition pipe_read :: "pipe_state \<Rightarrow> pipe_state option" where
  "pipe_read s =
     (if reader_done s then None
      else case pipe_buf s of
        c # cs \<Rightarrow> Some (s\<lparr>pipe_buf := cs, copied := copied s @ [c]\<rparr>)
      | [] \<Rightarrow> if wpc s = Closed then Some (s\<lparr>reader_done := True\<rparr>) else None)"

text \<open>Agent 0 writes the messages, agent 1 is the copy loop.\<close>

definition pipe_next :: "string list \<Rightarrow> nat \<Rightarrow> unit \<Rightarrow> pipe_state \<Rightarrow> pipe_state option" where
  "pipe_next msgs i c s = (if i = 0 then pipe_write msgs s else pipe_read s)"

abbreviation pipe_step :: "string list \<Rightarrow> pipe_state \<Rightarrow> pipe_state \<Rightarrow> bool" where
  "pipe_step msgs \<equiv> sched (pipe_next msgs) 2"

fun written :: "string list \<Rightarrow> writer_pc \<Rightarrow> string" where
  "written msgs (Writing k) = concat (take k msgs)"
| "written msgs Closed = concat msgs"

definition pipe_inv :: "string list \<Rightarrow> pipe_state \<Rightarrow> bool" where
  "pipe_inv msgs s \<longleftrightarrow> copied s @ pipe_buf s = written msgs (wpc s)
     \<and> (\<forall>k. wpc s = Writing k \<longrightarrow> k \<le> length msgs) \<and> (reader_done s \<longrightarrow> wpc s = Closed \<and> pipe_buf s = [])"

lemma pipe_inv_next: "pipe_inv msgs s \<Longrightarrow> pipe_next msgs i c s = Some t \<Longrightarrow> pipe_inv msgs t"
proof (cases "i = 0")
  case True
  assume inv: "pipe_inv msgs s" and "pipe_next msgs i c s = Some t"
  then have w: "pipe_write msgs s = Some t" using True by (simp add: pipe_next_def)
  then obtain k where k: "wpc s = Writing k" by (auto simp: pipe_write_def split: writer_pc.splits)
  show ?thesis
  proof (cases "k < length msgs")
    case True
    then have "concat (take (Suc k) msgs) = concat (take k msgs) @ msgs ! k"
      by (simp add: take_Suc_conv_app_nth)
    then show ?thesis using inv w k True by (auto simp: pipe_inv_def pipe_write_def simp flip: append_assoc)
  next
    case False
    then show ?thesis using inv w k by (auto simp: pipe_inv_def pipe_write_def)
  qed
qed (auto simp: pipe_inv_def pipe_next_def pipe_read_def split: list.splits if_splits)

interpretation pipe: invariant_system pipe_init "pipe_step msgs" "pipe_inv msgs" for msgs
proof unfold_locales
  show "pipe_init s \<Longrightarrow> pipe_inv msgs s" for s by (simp add: pipe_init_def pipe_inv_def)
  show "pipe_inv msgs s \<Longrightarrow> pipe_step msgs s t \<Longrightarrow> pipe_inv msgs t" for s t
    by (auto elim!: schedE intro: pipe_inv_next)
qed

fun writer_work :: "string list \<Rightarrow> writer_pc \<Rightarrow> nat" where
  "writer_work msgs (Writing k) = Suc (length (concat (drop k msgs)) + (length msgs - k))"
| "writer_work msgs Closed = 0"

definition pipe_work :: "string list \<Rightarrow> pipe_state \<Rightarrow> nat" where
  "pipe_work msgs s = writer_work msgs (wpc s) + length (pipe_buf s) + (if reader_done s then 0 else 1)"

lemma pipe_progress:
  assumes "pipe_inv msgs s" and "\<not> reader_done s"
  shows "\<exists>i<2. \<exists>t. pipe_next msgs i () s = Some t \<and> pipe_work msgs t < pipe_work msgs s"
proof (cases "wpc s")
  case (Writing k)
  show ?thesis
  proof (cases "k < length msgs")
    case True
    then have "drop k msgs = msgs ! k # drop (Suc k) msgs" by (simp add: Cons_nth_drop_Suc)
    with Writing True show ?thesis
      by (intro exI [of _ 0]) (simp add: pipe_next_def pipe_write_def pipe_work_def)
  next
    case False
    with Writing show ?thesis
      by (intro exI [of _ 0]) (simp add: pipe_next_def pipe_write_def pipe_work_def)
  qed
next
  case Closed
  with assms(2) show ?thesis
    by (intro exI [of _ 1]) (auto simp: pipe_next_def pipe_read_def pipe_work_def split: list.splits)
qed

interpretation pipe: progress_system "pipe_step msgs" "pipe_inv msgs" reader_done "pipe_work msgs" for msgs
  by unfold_locales (blast dest: pipe_progress intro: sched pipe_inv_next)

text \<open>
  The whole of \<open>pipe_tst.c\<close>: exit code 1 without a pipe; otherwise the messages the other end
  writes. When \<open>fork\<close> fails the process takes the parent's branch with nobody writing.
\<close>

definition pipe_tst :: "bool \<Rightarrow> int \<Rightarrow> int + string list" where
  "pipe_tst pipe_ok s32childpid =
     (if \<not> pipe_ok then Inl 1 else Inr (if 0 \<le> s32childpid then acMsg else []))"

text \<open>\<open>FIFO/src/fifo_tst.c\<close>: the messages are those of whoever writes to the FIFO.\<close>

definition fifo_copy :: "bool \<Rightarrow> bool \<Rightarrow> string list \<Rightarrow> int + string list" where
  "fifo_copy mkfifo_ok open_ok msgs = (if \<not> mkfifo_ok \<or> \<not> open_ok then Inl 1 else Inr msgs)"

section \<open>Numbers through a FIFO\<close>

text \<open>The number made of one result of \<open>rand()\<close>, and the line written for it.\<close>

definition writer_value :: "int \<Rightarrow> int \<Rightarrow> int" where
  "writer_value s32isodd rnd =
     (let s32temp = rnd mod 500 * 2 in if 0 = s32isodd then s32temp else s32temp + 1)"

definition writer_line :: "int \<Rightarrow> string" where
  "writer_line v = show_int v @ [CHR 0x0A]"

text \<open>\<open>main\<close> of the writer after as many rounds of its endless loop as there are results of \<open>rand()\<close>.\<close>

definition fifo_writer :: "bool \<Rightarrow> string list \<Rightarrow> int list \<Rightarrow> int + string" where
  "fifo_writer open_ok argv rnds =
     (if length argv \<noteq> 2 then Inl 1
      else let s32isodd = atoi (argv ! 1) in
        if \<not> open_ok then Inl 1
        else Inr (concat (map (\<lambda>r. writer_line (writer_value s32isodd r)) rnds)))"

definition reader_line :: "int \<Rightarrow> string" where
  "reader_line v = ''Old ['' @ fmt_d 4 v @ ''] New ['' @ fmt_d 4 (wrap32 (v * 2)) @ '']'' @ [CHR 0x0A]"

text \<open>
  The reader has the FIFO open for writing itself, so that the input never ends: behind white space, a
  sign or digits \<open>fscanf\<close> waits for more.
\<close>

definition scan_waits :: "string \<Rightarrow> bool" where
  "scan_waits inp = list_all is_digit (snd (split_sign (dropWhile is_space inp)))"

text \<open>
  At most \<open>n\<close> rounds of the reader's endless loop: the lines printed. When \<open>fscanf\<close> fails \<open>s32temp\<close>
  keeps its value and the input stays where it is, behind the white space and the sign.
\<close>

fun reader_loop :: "nat \<Rightarrow> string \<Rightarrow> int \<Rightarrow> string list" where
  "reader_loop 0 inp s32temp = []"
| "reader_loop (Suc n) inp s32temp =
     (if scan_waits inp then []
      else case scan_d inp of
        Some (v, rest) \<Rightarrow> reader_line v # reader_loop n rest v
      | None \<Rightarrow> reader_line s32temp # reader_loop n (snd (split_sign (dropWhile is_space inp))) s32temp)"

definition fifo_reader :: "bool \<Rightarrow> bool \<Rightarrow> bool \<Rightarrow> nat \<Rightarrow> string \<Rightarrow> int \<Rightarrow> int + string list" where
  "fifo_reader mkfifo_ok open_r open_w n inp junk =
     (if \<not> mkfifo_ok \<or> \<not> open_r \<or> \<not> open_w then Inl 1 else Inr (reader_loop n inp junk))"

lemma writer_value_range: "0 \<le> writer_value d r \<and> writer_value d r < 1000 \<and> (even (writer_value d r) \<longleftrightarrow> d = 0)"
proof -
  have "0 \<le> r mod 500 \<and> r mod 500 < 500" by simp
  then show ?thesis by (auto simp: writer_value_def Let_def)
qed

lemma writer_value_int32: "is_int32 (writer_value d r)"
  using writer_value_range [of d r] by (simp add: is_int32_def)

lemma reader_loop_space: "is_space c \<Longrightarrow> reader_loop n (c # s) t = reader_loop n s t"
  by (cases n) (simp_all add: scan_waits_def scan_d_space split: option.split)

text \<open>All the lines of the writer are read; then the reader waits, however many rounds it may do.\<close>

lemma reader_loop_lines:
  "\<forall>v \<in> set vs. is_int32 v \<Longrightarrow>
   reader_loop (length vs + k) (concat (map writer_line vs)) t = map reader_line vs"
proof (induction vs arbitrary: t)
  case Nil
  then show ?case by (cases k) (simp_all add: scan_waits_def)
next
  case (Cons v vs)
  have nl: "\<not> is_digit (CHR 0x0A)" "is_space (CHR 0x0A)" by (simp_all add: is_digit_def is_space_def)
  then have "\<not> scan_waits (show_int v @ CHR 0x0A # r)" for r
    by (simp add: scan_waits_def split_sign_show_int)
  with Cons nl show ?case by (simp add: writer_line_def scan_d_show_int reader_loop_space)
qed

text \<open>Text that is not a number is never skipped: the last number is printed for ever.\<close>

lemma reader_loop_stuck:
  assumes "\<not> is_space c" and "\<not> is_digit c" and "c \<noteq> CHR ''-''" and "c \<noteq> CHR ''+''"
  shows "reader_loop n (c # s) t = replicate n (reader_line t)"
  using assms by (induction n) (simp_all add: scan_waits_def scan_d_def)

section \<open>Properties\<close>

text \<open>C32: the copy loop neither loses nor reorders a byte: what it has copied and what is in the pipe
  are the messages written so far; when it ends it has copied all of them; and it can always end.\<close>

theorem pipe_copies:
  assumes "reach pipe_init (pipe_step msgs) s"
  shows "copied s @ pipe_buf s = written msgs (wpc s) \<and> (reader_done s \<longrightarrow> copied s = concat msgs)
    \<and> (\<exists>t. (pipe_step msgs)\<^sup>*\<^sup>* s t \<and> reader_done t \<and> copied t = concat msgs)"
proof -
  have inv: "pipe_inv msgs s" using assms by (rule pipe.reach_inv)
  have fin: "copied t = concat msgs" if "pipe_inv msgs t" "reader_done t" for t
    using that by (auto simp: pipe_inv_def)
  obtain t where "(pipe_step msgs)\<^sup>*\<^sup>* s t" "pipe_inv msgs t" "reader_done t"
    using pipe.can_finish [OF inv] by blast
  with inv fin show ?thesis by (auto simp: pipe_inv_def)
qed

theorem pipe_copies_witness:
  "\<exists>msgs s t. pipe_tst True 7 = Inr msgs \<and> reach pipe_init (pipe_step msgs) s \<and> copied s = ''[''
     \<and> (pipe_step msgs)\<^sup>*\<^sup>* s t \<and> copied t = concat acMsg"
proof -
  let ?s = "\<lparr>pipe_buf = [], wpc = Writing 0, copied = [], reader_done = False\<rparr>"
  let ?es = "[(0, ()), (1, ())]"
  obtain s where s: "run (pipe_next acMsg) ?es ?s = Some s" "copied s = ''[''"
    by (simp add: pipe_next_def pipe_write_def pipe_read_def acMsg_def)
  have r: "reach pipe_init (pipe_step acMsg) s"
    by (rule run_reach [OF _ s(1)]) (simp_all add: pipe_init_def)
  from pipe_copies [OF r] obtain t where "(pipe_step acMsg)\<^sup>*\<^sup>* s t" "copied t = concat acMsg" by blast
  with r s(2) show ?thesis by (auto simp: pipe_tst_def)
qed

text \<open>C33: every number the writer puts into the FIFO comes out of the reader, in order, with its double,
  which does not overflow, and nothing else comes out: then the reader waits. The numbers are below
  1000, even or odd as the argument asks.\<close>

theorem fifo_numbers_roundtrip:
  assumes "fifo_writer open_ok argv rnds = Inr out"
  shows "fifo_reader True True True (length rnds + k) out junk
      = Inr (map (\<lambda>r. reader_line (writer_value (atoi (argv ! 1)) r)) rnds)
    \<and> (\<forall>r. let v = writer_value (atoi (argv ! 1)) r in
        0 \<le> v \<and> v < 1000 \<and> (even v \<longleftrightarrow> atoi (argv ! 1) = 0) \<and> wrap32 (v * 2) = v * 2)"
proof
  let ?v = "writer_value (atoi (argv ! 1))"
  have out: "out = concat (map writer_line (map ?v rnds))"
    using assms by (auto simp: fifo_writer_def Let_def comp_def split: if_splits)
  have "\<forall>v \<in> set (map ?v rnds). is_int32 v"
    by (simp add: writer_value_int32)
  from reader_loop_lines [OF this, of k junk]
  have "reader_loop (length rnds + k) out junk = map (\<lambda>r. reader_line (?v r)) rnds"
    unfolding out by (simp only: length_map map_map comp_def)
  then show "fifo_reader True True True (length rnds + k) out junk = Inr (map (\<lambda>r. reader_line (?v r)) rnds)"
    by (simp add: fifo_reader_def)
  show "\<forall>r. let v = ?v r in 0 \<le> v \<and> v < 1000 \<and> (even v \<longleftrightarrow> atoi (argv ! 1) = 0) \<and> wrap32 (v * 2) = v * 2"
  proof
    fix r
    show "let v = ?v r in 0 \<le> v \<and> v < 1000 \<and> (even v \<longleftrightarrow> atoi (argv ! 1) = 0) \<and> wrap32 (v * 2) = v * 2"
      using writer_value_range [of "atoi (argv ! 1)" r] by (simp add: Let_def wrap32_id)
  qed
qed

theorem fifo_numbers_roundtrip_witness:
  "\<exists>out. fifo_writer True [''fifo_writer'', ''1''] [1804289383, 846930886] = Inr out
     \<and> fifo_reader True True True 7 out 5 = Inr [reader_line 767, reader_line 773]"
proof -
  have a: "atoi ''1'' = 1"
    by (simp add: atoi_def is_space_def is_digit_def digit_val_def dec_val_def clamp32_def)
  obtain out where t: "fifo_writer True [''fifo_writer'', ''1''] [1804289383, 846930886] = Inr out"
    by (simp add: fifo_writer_def Let_def)
  from fifo_numbers_roundtrip [OF t, of 5 5] t a show ?thesis by (simp add: writer_value_def)
qed

end
