(* ===== verification/Signals.thy ===== *)
theory Signals
  imports CStrings
begin

text \<open>
  \<open>studio12/print5000.c\<close> and \<open>print5000_2.c\<close>: a loop that prints 5000 numbers while the handler of
  \<open>SIGINT\<close> marks the number being printed, and a second loop that reports the marks. The first
  program prints with \<open>printf\<close>, the second builds its line digit by digit. The handler may run
  between any two accesses to the volatile \<open>i\<close>.
\<close>

abbreviation (input) NUMBERS :: nat where
  "NUMBERS \<equiv> 5000"

text \<open>The line of \<open>print5000_2.c\<close>: four digits stored over the spaces of \<open>acMsg\<close>, nine bytes written.\<close>

definition digits_line :: "int \<Rightarrow> string" where
  "digits_line i =
     (let acMsg = ''i:     '' @ [CHR 0x0A, CHR 0x00];
          s32temp = i;
          acMsg = acMsg[3 := char_of (48 + nat (s32temp div 1000))]; s32temp = s32temp mod 1000;
          acMsg = acMsg[4 := char_of (48 + nat (s32temp div 100))]; s32temp = s32temp mod 100;
          acMsg = acMsg[5 := char_of (48 + nat (s32temp div 10))]; s32temp = s32temp mod 10
      in acMsg[6 := char_of (48 + nat s32temp)])"

definition printf_line :: "int \<Rightarrow> string" where
  "printf_line i = ''i: '' @ show_int i @ [CHR 0x0A]"

definition report_line :: "int \<Rightarrow> string" where
  "report_line i = show_int i @ '' was possibly interrupted'' @ [CHR 0x0A]"

text \<open>Where the program is: in the first loop (before its test), in the second (before its test, or behind the check of \<open>called[i]\<close>), done.\<close>

datatype num_pc = NPrint | NCheck | NNext | NDone

record num_state =
  i_var :: nat
  called :: "bool list"
  npc :: num_pc
  printed :: "string list"
  reported :: "nat list"

definition num_init :: num_state where
  "num_init = \<lparr>i_var = 0, called = replicate NUMBERS False, npc = NPrint, printed = [], reported = []\<rparr>"

text \<open>The handler; \<open>None\<close> is its store outside \<open>called\<close>.\<close>

definition sigint_handler :: "num_state \<Rightarrow> num_state option" where
  "sigint_handler s =
     (if i_var s < length (called s) then Some (s\<lparr>called := (called s)[i_var s := True]\<rparr>) else None)"

definition num_step :: "(int \<Rightarrow> string) \<Rightarrow> num_state \<Rightarrow> num_state" where
  "num_step line s =
     (case npc s of
        NPrint \<Rightarrow>
          if i_var s < NUMBERS then s\<lparr>printed := printed s @ [line (int (i_var s))], i_var := Suc (i_var s)\<rparr>
          else s\<lparr>i_var := 0, npc := NCheck\<rparr>
      | NCheck \<Rightarrow>
          if i_var s < NUMBERS
          then s\<lparr>reported := reported s @ (if called s ! i_var s then [i_var s] else []), npc := NNext\<rparr>
          else s\<lparr>npc := NDone\<rparr>
      | NNext \<Rightarrow> s\<lparr>i_var := Suc (i_var s), npc := NCheck\<rparr>
      | NDone \<Rightarrow> s)"

text \<open>A run: \<open>True\<close> delivers a signal, \<open>False\<close> lets the program go on.\<close>

fun num_run :: "(int \<Rightarrow> string) \<Rightarrow> bool list \<Rightarrow> num_state \<Rightarrow> num_state option" where
  "num_run line [] s = Some s"
| "num_run line (sig # es) s =
     (if sig then case sigint_handler s of None \<Rightarrow> None | Some t \<Rightarrow> num_run line es t
      else num_run line es (num_step line s))"

text \<open>The numbers that were current when a signal came: in the first loop, and at any time.\<close>

fun hits :: "(int \<Rightarrow> string) \<Rightarrow> (num_state \<Rightarrow> bool) \<Rightarrow> bool list \<Rightarrow> num_state \<Rightarrow> nat set" where
  "hits line P [] s = {}"
| "hits line P (sig # es) s =
     (if sig then (if P s then {i_var s} else {}) \<union>
        (case sigint_handler s of None \<Rightarrow> {} | Some t \<Rightarrow> hits line P es t)
      else hits line P es (num_step line s))"

abbreviation in_first_loop :: "num_state \<Rightarrow> bool" where
  "in_first_loop s \<equiv> npc s = NPrint"

definition marked :: "num_state \<Rightarrow> nat set" where
  "marked s = {k. k < NUMBERS \<and> called s ! k}"

fun checked :: "num_pc \<Rightarrow> nat \<Rightarrow> nat" where
  "checked NPrint i = 0"
| "checked NCheck i = i"
| "checked NNext i = Suc i"
| "checked NDone i = NUMBERS"

definition num_inv :: "nat set \<Rightarrow> nat set \<Rightarrow> num_state \<Rightarrow> bool" where
  "num_inv E A s \<longleftrightarrow> length (called s) = NUMBERS \<and> i_var s \<le> NUMBERS \<and> (npc s = NNext \<longrightarrow> i_var s < NUMBERS) \<and>
     E \<subseteq> marked s \<and> marked s \<subseteq> A \<and>
     set (reported s) \<subseteq> A \<and> (\<forall>k \<in> E. k < checked (npc s) (i_var s) \<longrightarrow> k \<in> set (reported s))"

lemma num_inv_step:
  assumes "num_inv E A s"
  shows "num_inv E A (num_step line s)"
proof (cases "npc s")
  case NCheck
  show ?thesis
  proof (cases "i_var s < NUMBERS")
    case True
    then show ?thesis using assms NCheck
      by (auto simp: num_inv_def num_step_def marked_def less_Suc_eq)
  qed (use assms NCheck in \<open>auto simp: num_inv_def num_step_def marked_def\<close>)
qed (use assms in \<open>auto simp: num_inv_def num_step_def marked_def\<close>)

lemma num_inv_signal:
  assumes "num_inv E A s" and "sigint_handler s = Some t"
  shows "num_inv (E \<union> (if in_first_loop s then {i_var s} else {})) (insert (i_var s) A) t"
  using assms
  by (auto simp: num_inv_def sigint_handler_def marked_def nth_list_update split: if_splits)

lemma num_run_inv:
  "num_inv E A s \<Longrightarrow> num_run line es s = Some t \<Longrightarrow>
   num_inv (E \<union> hits line in_first_loop es s) (A \<union> hits line (\<lambda>_. True) es s) t"
proof (induction es arbitrary: s E A)
  case (Cons sig es)
  show ?case
  proof (cases sig)
    case True
    then obtain u where u: "sigint_handler s = Some u" "num_run line es u = Some t"
      using Cons.prems(2) by (auto split: option.splits)
    from Cons.IH [OF num_inv_signal [OF Cons.prems(1) u(1)] u(2)] show ?thesis
      using True u(1) by (simp add: Un_assoc)
  next
    case False
    with Cons.IH [OF num_inv_step [OF Cons.prems(1)]] Cons.prems(2) show ?thesis by simp
  qed
qed simp

text \<open>What has been printed.\<close>

definition num_printed :: "(int \<Rightarrow> string) \<Rightarrow> num_state \<Rightarrow> bool" where
  "num_printed line s \<longleftrightarrow> i_var s \<le> NUMBERS \<and> length (called s) = NUMBERS \<and>
     printed s = map (\<lambda>k. line (int k)) [0..<(if npc s = NPrint then i_var s else NUMBERS)] \<and>
     (npc s = NNext \<longrightarrow> i_var s < NUMBERS)"

lemma num_printed_step: "num_printed line s \<Longrightarrow> num_printed line (num_step line s)"
  by (cases "npc s") (auto simp: num_printed_def num_step_def simp del: upt_rec_numeral)

lemma num_run_printed: "num_printed line s \<Longrightarrow> num_run line es s = Some t \<Longrightarrow> num_printed line t"
proof (induction es arbitrary: s)
  case (Cons sig es)
  show ?case
  proof (cases sig)
    case True
    then obtain u where u: "sigint_handler s = Some u" "num_run line es u = Some t"
      using Cons.prems(2) by (auto split: option.splits)
    then have "num_printed line u"
      using Cons.prems(1) by (auto simp: sigint_handler_def num_printed_def split: if_splits)
    with Cons.IH u(2) show ?thesis by blast
  qed (use Cons num_printed_step in auto)
qed simp

lemma num_run_first_loop:
  "k \<le> NUMBERS \<Longrightarrow> \<exists>s. num_run line (replicate k False) num_init = Some s
     \<and> npc s = NPrint \<and> i_var s = k \<and> length (called s) = NUMBERS"
proof -
  have "i_var s + k \<le> NUMBERS \<Longrightarrow> npc s = NPrint \<Longrightarrow> length (called s) = NUMBERS \<Longrightarrow>
    \<exists>t. num_run line (replicate k False) s = Some t \<and> npc t = NPrint \<and> i_var t = i_var s + k
      \<and> length (called t) = NUMBERS" for s
  proof (induction k arbitrary: s)
    case (Suc k)
    from Suc.prems Suc.IH [of "num_step line s"] show ?case by (simp add: num_step_def)
  qed simp
  from this [of num_init] show "k \<le> NUMBERS \<Longrightarrow> ?thesis" by (simp add: num_init_def)
qed

text \<open>Without further signals the program ends.\<close>

fun num_work :: "num_pc \<Rightarrow> nat \<Rightarrow> nat" where
  "num_work NPrint i = 2 * NUMBERS + 2 + (NUMBERS - i)"
| "num_work NCheck i = 2 * (NUMBERS - i) + 1"
| "num_work NNext i = 2 * (NUMBERS - i)"
| "num_work NDone i = 0"

lemma num_run_ends:
  "i_var s \<le> NUMBERS \<Longrightarrow> (npc s = NNext \<longrightarrow> i_var s < NUMBERS) \<Longrightarrow>
   \<exists>t. num_run line (replicate (num_work (npc s) (i_var s)) False) s = Some t \<and> npc t = NDone"
proof (induction "num_work (npc s) (i_var s)" arbitrary: s)
  case 0
  then show ?case by (cases "npc s") auto
next
  case (Suc n)
  have "n = num_work (npc (num_step line s)) (i_var (num_step line s))"
    and "i_var (num_step line s) \<le> NUMBERS"
    and "npc (num_step line s) = NNext \<longrightarrow> i_var (num_step line s) < NUMBERS"
    using Suc.hyps(2) Suc.prems by (cases "npc s"; auto simp: num_step_def)+
  with Suc.hyps(1) [of "num_step line s"] show ?case by (simp flip: Suc.hyps(2))
qed

lemma num_run_append: "num_run line (xs @ ys) s = Option.bind (num_run line xs s) (num_run line ys)"
  by (induction xs arbitrary: s) (auto split: option.splits)

lemma num_run_overflow: "num_run line (replicate NUMBERS False @ [True]) num_init = None"
  using num_run_first_loop [of NUMBERS line]
  by (auto simp: num_run_append sigint_handler_def)

text \<open>The digits stored are those of the number.\<close>

lemma digits_line_shape:
  assumes "0 \<le> i" and "i < 10000"
  shows "\<exists>ds. digits_line i = ''i: '' @ ds @ [CHR 0x0A, CHR 0x00] \<and> length ds = 4
    \<and> (\<forall>c \<in> set ds. is_digit c) \<and> dec_val ds = i"
proof -
  define x y where "x = i mod 1000" and "y = x mod 100"
  define a b c d where "a = nat (i div 1000)" and "b = nat (x div 100)" and "c = nat (y div 10)" and "d = nat (y mod 10)"
  have r: "0 \<le> x" "x < 1000" "0 \<le> y" "y < 100" by (simp_all add: x_def y_def)
  have nat: "int a = i div 1000" "int b = x div 100" "int c = y div 10" "int d = y mod 10"
    using assms(1) r unfolding a_def b_def c_def d_def by (simp_all add: pos_imp_zdiv_nonneg_iff)
  have "int a < 10" "int b < 10" "int c < 10" "int d < 10"
    unfolding nat using assms r by (auto intro: div_less_dividend)
  then have lt: "a < 10" "b < 10" "c < 10" "d < 10" by simp_all
  have "i = 1000 * int a + x" "x = 100 * int b + y" "y = 10 * int c + int d"
    unfolding nat x_def y_def by simp_all
  then have i: "i = 10 * (10 * (10 * int a + int b) + int c) + int d" by simp
  let ?ds = "[digit_char a, digit_char b, digit_char c, digit_char d]"
  have "digits_line i = ''i: '' @ ?ds @ [CHR 0x0A, CHR 0x00]"
    unfolding digits_line_def Let_def x_def [symmetric] y_def [symmetric]
      a_def [symmetric] b_def [symmetric] c_def [symmetric] d_def [symmetric] digit_char_def by simp
  moreover have "dec_val ?ds = i" using lt i by (simp add: dec_val_def)
  ultimately show ?thesis using lt by (intro exI [of _ ?ds]) simp
qed

section \<open>Properties\<close>

text \<open>The line of a number, as each program has to print it.\<close>

definition shows_number :: "(int \<Rightarrow> string) \<Rightarrow> string \<Rightarrow> nat \<Rightarrow> bool" where
  "shows_number line l k \<longleftrightarrow>
     line = printf_line \<and> l = ''i: '' @ show_int (int k) @ [CHR 0x0A] \<or>
     line = digits_line \<and> (\<exists>ds. l = ''i: '' @ ds @ [CHR 0x0A, CHR 0x00] \<and> length ds = 4 \<and>
        (\<forall>c \<in> set ds. is_digit c) \<and> dec_val ds = int k)"

lemma line_shows_number: "line \<in> {printf_line, digits_line} \<Longrightarrow> k < 10000 \<Longrightarrow> shows_number line (line (int k)) k"
  using digits_line_shape [of "int k"] by (auto simp: shows_number_def printf_line_def)

lemma line_lengths: "length (digits_line 0) = 9" "length (printf_line 0) = 5"
  by code_simp+

text \<open>C34: both programs print 5000 lines, of which line \<open>k\<close> shows the number \<open>k\<close>: in decimal for \<open>print5000.c\<close>,
  in exactly four digits, and with the terminating NUL, for \<open>print5000_2.c\<close>. They report every number at which a
  signal came during the first loop, and no number at which none came. A signal between the two loops, when
  \<open>i\<close> is 5000, stores outside the array.\<close>

theorem print5000_reports:
  assumes "num_run line es num_init = Some t" and "npc t = NDone" and "line \<in> {printf_line, digits_line}"
  shows "length (printed t) = 5000 \<and> (\<forall>k<5000. shows_number line (printed t ! k) k)
    \<and> hits line in_first_loop es num_init \<subseteq> set (reported t)
    \<and> set (reported t) \<subseteq> hits line (\<lambda>_. True) es num_init
    \<and> (\<forall>l. num_run l (replicate 5000 False @ [True]) num_init = None)"
proof -
  have "num_inv {} {} num_init" by (simp add: num_inv_def num_init_def marked_def)
  from num_run_inv [OF this assms(1)] assms(2)
  have r: "hits line in_first_loop es num_init \<subseteq> set (reported t)"
    "set (reported t) \<subseteq> hits line (\<lambda>_. True) es num_init"
    by (auto simp: num_inv_def marked_def)
  have "num_printed line num_init" by (simp add: num_printed_def num_init_def)
  from num_run_printed [OF this assms(1)] assms(2)
  have p: "printed t = map (\<lambda>k. line (int k)) [0..<5000]"
    by (simp add: num_printed_def del: upt_rec_numeral)
  have "shows_number line (printed t ! k) k" if "k < 5000" for k
    using line_shows_number [OF assms(3), of k] that by (simp add: p del: upt_rec_numeral)
  moreover have "length (printed t) = 5000" by (simp add: p del: upt_rec_numeral)
  ultimately show ?thesis using r num_run_overflow by blast
qed

theorem print5000_reports_witness:
  "\<exists>es t. num_run digits_line es num_init = Some t \<and> npc t = NDone \<and> 0 \<in> set (reported t)
     \<and> (\<exists>ds. printed t ! 1234 = ''i: '' @ ds @ [CHR 0x0A, CHR 0x00] \<and> dec_val ds = 1234)"
proof -
  obtain u where u: "sigint_handler num_init = Some u" "npc u = NPrint" "i_var u = 0"
    by (simp add: sigint_handler_def num_init_def)
  obtain t where t: "num_run digits_line (replicate (num_work (npc u) (i_var u)) False) u = Some t" "npc t = NDone"
    using num_run_ends [of u] u(2,3) by auto
  let ?es = "True # replicate (num_work (npc u) (i_var u)) False"
  have r: "num_run digits_line ?es num_init = Some t" using u(1) t(1) by simp
  have "0 \<in> hits digits_line in_first_loop ?es num_init" by (simp add: num_init_def)
  then have "0 \<in> set (reported t)" and "\<forall>k<5000. shows_number digits_line (printed t ! k) k"
    using print5000_reports [OF r t(2)] by blast+
  moreover from this(2) have "shows_number digits_line (printed t ! 1234) 1234"
    using spec [of "\<lambda>k. k < 5000 \<longrightarrow> shows_number digits_line (printed t ! k) k" 1234] by simp
  then have "shows_number digits_line (printed t ! 1234) 1234 \<and> digits_line \<noteq> printf_line"
    using line_lengths by auto
  then have "\<exists>ds. printed t ! 1234 = ''i: '' @ ds @ [CHR 0x0A, CHR 0x00] \<and> dec_val ds = 1234"
    unfolding shows_number_def by auto
  ultimately show ?thesis using r t(2) by blast
qed

end
