(* ===== verification/SysCalls.thy ===== *)
theory SysCalls
  imports CStrings
begin

text \<open>
  The system-call exercises of \<open>studio02\<close> and the first kernel module, \<open>studio05/main.c\<close>. A process has
  its three user ids, \<open>errno\<close> and the kernel's log. \<open>getuid\<close> and \<open>setuid\<close> of the C library are those of
  POSIX. \<open>syscall(__NR_getuid)\<close> and \<open>syscall(__NR_setuid, 0)\<close> on the 32-bit Raspberry Pi are, as
  \<^verbatim>\<open>getuid(2)\<close> says, the original calls with 16-bit ids: a larger id is reported as 65534. The
  patched kernel of the course (\<open>unistd.h.diff\<close>, \<open>call.S.diff\<close>) adds the calls 391, which is not in the
  repository and is a parameter, and 392, \<open>sys_naroahkmsg\<close>.
\<close>

section \<open>The kernel's side\<close>

record uids =
  ruid :: int
  euid :: int
  suid :: int
  errno :: int
  klog :: "string list"

abbreviation (input) EPERM :: int where "EPERM \<equiv> 1"
abbreviation (input) ENOSYS :: int where "ENOSYS \<equiv> 38"

text \<open>POSIX: a privileged process changes all three ids, another one its effective id to one it owns.\<close>

definition sys_setuid :: "int \<Rightarrow> uids \<Rightarrow> int \<times> uids" where
  "sys_setuid uid k =
     (if euid k = 0 then (0, k\<lparr>ruid := uid, euid := uid, suid := uid\<rparr>)
      else if uid = ruid k \<or> uid = suid k then (0, k\<lparr>euid := uid\<rparr>)
      else (- EPERM, k))"

definition uid16 :: "int \<Rightarrow> int" where
  "uid16 uid = (if uid < 65536 then uid else 65534)"

definition sys_getuid16 :: "uids \<Rightarrow> int \<times> uids" where
  "sys_getuid16 k = (uid16 (ruid k), k)"

definition sys_naroahkmsg :: "int \<Rightarrow> uids \<Rightarrow> int \<times> uids" where
  "sys_naroahkmsg s32num k =
     (0, k\<lparr>klog := klog k @ [''Kernel Printk ['' @ show_int s32num @ '']!'' @ [CHR 0x0A]]\<rparr>)"

text \<open>The part of the table that is called, of the patched and of the original kernel.\<close>

definition syscall_table ::
    "bool \<Rightarrow> (uids \<Rightarrow> int \<times> uids) \<Rightarrow> int \<Rightarrow> (int \<Rightarrow> uids \<Rightarrow> int \<times> uids) option" where
  "syscall_table patched sys_badcall nr =
     (if nr = 23 then Some sys_setuid
      else if nr = 24 then Some (\<lambda>_. sys_getuid16)
      else if patched \<and> nr = 391 then Some (\<lambda>_. sys_badcall)
      else if patched \<and> nr = 392 then Some sys_naroahkmsg
      else None)"

text \<open>The library's entry: results from -4095 to -1 are errors.\<close>

definition c_return :: "int \<times> uids \<Rightarrow> int \<times> uids" where
  "c_return rk =
     (case rk of (r, k) \<Rightarrow> if - 4095 \<le> r \<and> r < 0 then (- 1, k\<lparr>errno := - r\<rparr>) else (r, k))"

definition c_syscall ::
    "(int \<Rightarrow> (int \<Rightarrow> uids \<Rightarrow> int \<times> uids) option) \<Rightarrow> int \<Rightarrow> int \<Rightarrow> uids \<Rightarrow> int \<times> uids" where
  "c_syscall table nr arg k =
     (case table nr of None \<Rightarrow> c_return (- ENOSYS, k) | Some f \<Rightarrow> c_return (f arg k))"

section \<open>The programs\<close>

text \<open>Each \<open>printf\<close> is one text. \<open>%d\<close> shows the unsigned \<open>uid_t\<close> as an \<open>int\<close>.\<close>

definition uid_line :: "string \<Rightarrow> int \<Rightarrow> string" where
  "uid_line pre s32uid = pre @ show_int (wrap32 s32uid) @ [CHR 0x0A]"

definition error_line :: "string \<Rightarrow> (int \<Rightarrow> string) \<Rightarrow> int \<Rightarrow> uids \<Rightarrow> string list" where
  "error_line what strerror s32retval k =
     (if s32retval \<noteq> 0 then [what @ '' failed! Reason: '' @ strerror (errno k) @ [CHR 0x0A]] else [])"

definition lib_call :: "(int \<Rightarrow> string) \<Rightarrow> uids \<Rightarrow> string list \<times> uids" where
  "lib_call strerror k =
     (case c_return (sys_setuid 0 k) of (s32retval, k1) \<Rightarrow>
        ([uid_line ''Before, UID = '' (ruid k)] @ error_line ''Error to setuid()'' strerror s32retval k1 @
         [uid_line ''After,  UID = '' (ruid k1)], k1))"

definition native_call ::
    "(int \<Rightarrow> (int \<Rightarrow> uids \<Rightarrow> int \<times> uids) option) \<Rightarrow> (int \<Rightarrow> string) \<Rightarrow> uids \<Rightarrow> string list \<times> uids" where
  "native_call table strerror k =
     (case c_syscall table 24 0 k of (u, k1) \<Rightarrow>
      case c_syscall table 23 0 k1 of (s32retval, k2) \<Rightarrow>
      case c_syscall table 24 0 k2 of (v, k3) \<Rightarrow>
        ([uid_line ''Now, UID = '' (wrapu32 u)] @ error_line ''Error to setuid()'' strerror (wrap32 s32retval) k2 @
         [uid_line ''After, UID = '' (wrapu32 v)], k3))"

definition badcall_call ::
    "(int \<Rightarrow> (int \<Rightarrow> uids \<Rightarrow> int \<times> uids) option) \<Rightarrow> (int \<Rightarrow> string) \<Rightarrow> uids \<Rightarrow> string list \<times> uids" where
  "badcall_call table strerror k =
     (case c_syscall table 24 0 k of (u, k1) \<Rightarrow>
      case c_syscall table 391 0 k1 of (s32retval, k2) \<Rightarrow>
      case c_syscall table 24 0 k2 of (v, k3) \<Rightarrow>
        ([uid_line ''Now, UID = '' (wrapu32 u)] @ error_line ''ERROR: sys_badcall()'' strerror (wrap32 s32retval) k2 @
         [uid_line ''After, UID = '' (wrapu32 v)], k3))"

definition badprintk_call ::
    "(int \<Rightarrow> (int \<Rightarrow> uids \<Rightarrow> int \<times> uids) option) \<Rightarrow> (int \<Rightarrow> string) \<Rightarrow> uids \<Rightarrow> string list \<times> uids" where
  "badprintk_call table strerror k =
     (case c_syscall table 392 10 k of (s32retval, k1) \<Rightarrow>
        (error_line ''ERROR: sys_badprintk()'' strerror (wrap32 s32retval) k1 @ [''Exit.'' @ [CHR 0x0A]], k1))"

text \<open>\<open>studio05/main.c\<close>: the texts in the kernel log; \<open>jiffies\<close> is unsigned and shown by \<open>%ld\<close>.\<close>

definition charmed_init :: "int \<Rightarrow> int \<times> string list" where
  "charmed_init jiffies =
     (0, [''I bear a charmed life.'' @ [CHR 0x0A], ''jiffies = '' @ show_int (wrap32 jiffies) @ ''.'' @ [CHR 0x0A]])"

definition charmed_exit :: "string list" where
  "charmed_exit = [''Out, out, brief candle.'' @ [CHR 0x0A]]"

section \<open>Facts\<close>

definition ids_ok :: "uids \<Rightarrow> bool" where
  "ids_ok k \<longleftrightarrow> list_all (\<lambda>u. 0 \<le> u \<and> u < 4294967296) [ruid k, euid k, suid k]"

lemma wrap32_inj:
  assumes "0 \<le> x" "x < 4294967296" "0 \<le> y" "y < 4294967296"
  shows "wrap32 x = wrap32 y \<longleftrightarrow> x = y"
proof -
  have "x = y" if "4294967296 dvd x - y"
    using dvd_imp_le_int [OF _ that] assms by (cases "x - y = 0") auto
  then show ?thesis by (auto simp: wrap32_eq_iff)
qed

lemma show_int_inj: "is_int32 x \<Longrightarrow> is_int32 y \<Longrightarrow> show_int x = show_int y \<longleftrightarrow> x = y"
  by (metis atoi_show_int)

lemma uid_line_inj:
  assumes "0 \<le> x" "x < 4294967296" "0 \<le> y" "y < 4294967296"
  shows "uid_line pre x = uid_line pre y \<longleftrightarrow> x = y"
  using assms by (simp add: uid_line_def show_int_inj wrap32_is_int32 wrap32_inj)

lemma c_return_setuid:
  "c_return (sys_setuid 0 k) =
     (if euid k = 0 then (0, k\<lparr>ruid := 0, euid := 0, suid := 0\<rparr>)
      else if ruid k = 0 \<or> suid k = 0 then (0, k\<lparr>euid := 0\<rparr>)
      else (- 1, k\<lparr>errno := EPERM\<rparr>))"
  by (auto simp: c_return_def sys_setuid_def)

lemma c_return_getuid16: "c_return (sys_getuid16 k) = (uid16 (ruid k), k)" if "ids_ok k"
  using that by (auto simp: c_return_def sys_getuid16_def uid16_def ids_ok_def)

section \<open>Properties\<close>

text \<open>C39: \<open>native_call.c\<close> does what \<open>lib_call.c\<close> does, on either kernel: the same ids and \<open>errno\<close> afterwards, the
  same error line, which appears unless the caller owns id 0; and it prints the same ids exactly for
  callers below 65536, where the 16-bit call it makes still tells them.\<close>

theorem native_call_agrees:
  assumes "ids_ok k"
  shows "\<exists>e u v v'. lib_call strerror k = ([uid_line ''Before, UID = '' (ruid k)] @ e @ [uid_line ''After,  UID = '' v], snd (lib_call strerror k)) \<and>
    native_call (syscall_table patched bad) strerror k =
      ([uid_line ''Now, UID = '' u] @ e @ [uid_line ''After, UID = '' v'], snd (lib_call strerror k)) \<and>
    (e = [] \<longleftrightarrow> 0 \<in> {ruid k, euid k, suid k}) \<and>
    (uid_line pre u = uid_line pre (ruid k) \<longleftrightarrow> ruid k < 65536) \<and> (ruid k < 65536 \<longrightarrow> v' = v)"
proof -
  define k1 where "k1 = snd (c_return (sys_setuid 0 k))"
  define r where "r = fst (c_return (sys_setuid 0 k))"
  have st: "c_return (sys_setuid 0 k) = (r, k1)" by (simp add: r_def k1_def)
  have ok1: "ids_ok k1" using assms by (auto simp: k1_def c_return_setuid ids_ok_def)
  have r: "r = 0 \<or> r = - 1" and r0: "r = 0 \<longleftrightarrow> 0 \<in> {ruid k, euid k, suid k}"
    by (auto simp: r_def c_return_setuid)
  have ru: "0 \<le> ruid k" "ruid k < 4294967296" "0 \<le> ruid k1" "ruid k1 < 4294967296"
    using assms ok1 by (simp_all add: ids_ok_def)
  have low: "0 \<le> uid16 (ruid k)" "uid16 (ruid k) < 65536" "0 \<le> uid16 (ruid k1)" "uid16 (ruid k1) < 65536"
    using ru by (simp_all add: uid16_def)
  then have w: "wrapu32 (uid16 (ruid k)) = uid16 (ruid k)" "wrapu32 (uid16 (ruid k1)) = uid16 (ruid k1)"
    by (simp_all add: wrapu32_id)
  have wr: "wrap32 r = r" using r by (auto simp: wrap32_id)
  let ?e = "error_line ''Error to setuid()'' strerror r k1"
  have lib: "lib_call strerror k = ([uid_line ''Before, UID = '' (ruid k)] @ ?e @ [uid_line ''After,  UID = '' (ruid k1)], k1)"
    by (simp add: lib_call_def st)
  have native: "native_call (syscall_table patched bad) strerror k =
      ([uid_line ''Now, UID = '' (uid16 (ruid k))] @ ?e @ [uid_line ''After, UID = '' (uid16 (ruid k1))], k1)"
    using assms ok1 by (simp add: native_call_def c_syscall_def syscall_table_def c_return_getuid16 st w wr)
  have e: "?e = [] \<longleftrightarrow> 0 \<in> {ruid k, euid k, suid k}" using r0 by (simp add: error_line_def)
  have u: "uid_line pre (uid16 (ruid k)) = uid_line pre (ruid k) \<longleftrightarrow> ruid k < 65536"
    using low ru by (subst uid_line_inj) (auto simp: uid16_def)
  have "ruid k1 = ruid k \<or> ruid k1 = 0" by (auto simp: k1_def c_return_setuid)
  then have v: "ruid k < 65536 \<longrightarrow> uid16 (ruid k1) = ruid k1" by (auto simp: uid16_def)
  show ?thesis
    by (intro exI [of _ ?e] exI [of _ "uid16 (ruid k)"] exI [of _ "ruid k1"] exI [of _ "uid16 (ruid k1)"])
      (use lib native e u v in simp)
qed

theorem native_call_agrees_witness:
  "\<exists>u. uid_line ''Now, UID = '' u \<noteq> uid_line ''Now, UID = '' 100000 \<and>
     fst (native_call (syscall_table False (\<lambda>k. (0, k))) (\<lambda>_. ''Operation not permitted'') \<lparr>ruid = 100000, euid = 100000, suid = 100000, errno = 0, klog = []\<rparr>)
       ! 0 = uid_line ''Now, UID = '' u"
proof -
  let ?k = "\<lparr>ruid = 100000, euid = 100000, suid = 100000, errno = 0, klog = []\<rparr>"
  have "ids_ok ?k" by (simp add: ids_ok_def)
  from native_call_agrees [OF this, of "\<lambda>_. ''Operation not permitted''" False "\<lambda>k. (0, k)" "''Now, UID = ''"]
  obtain e u v' where n: "native_call (syscall_table False (\<lambda>k. (0, k))) (\<lambda>_. ''Operation not permitted'') ?k =
      ([uid_line ''Now, UID = '' u] @ e @ [uid_line ''After, UID = '' v'], snd (lib_call (\<lambda>_. ''Operation not permitted'') ?k))"
    and ne: "\<not> uid_line ''Now, UID = '' u = uid_line ''Now, UID = '' (ruid ?k)" by auto
  have "fst (native_call (syscall_table False (\<lambda>k. (0, k))) (\<lambda>_. ''Operation not permitted'') ?k) ! 0 = uid_line ''Now, UID = '' u"
    unfolding n by simp
  moreover have "uid_line ''Now, UID = '' u \<noteq> uid_line ''Now, UID = '' 100000" using ne by simp
  ultimately show ?thesis by blast
qed

text \<open>The call of \<open>sys_naroahkmsg.c\<close> logs its number and changes no id, and a program that makes it reports
  an error only on a kernel without it.\<close>

theorem badprintk_call_logs:
  "badprintk_call (syscall_table True bad) strerror k =
     ([''Exit.'' @ [CHR 0x0A]], k\<lparr>klog := klog k @ [''Kernel Printk [10]!'' @ [CHR 0x0A]]\<rparr>) \<and>
   badprintk_call (syscall_table False bad) strerror k =
     ([''ERROR: sys_badprintk() failed! Reason: '' @ strerror ENOSYS @ [CHR 0x0A], ''Exit.'' @ [CHR 0x0A]],
      k\<lparr>errno := ENOSYS\<rparr>)"
proof -
  have "show_int 10 = ''10''" by code_simp
  moreover have "wrap32 0 = 0" "wrap32 (- 1) = - 1" by (simp_all add: wrap32_id)
  ultimately show ?thesis
    by (simp add: badprintk_call_def c_syscall_def syscall_table_def c_return_def sys_naroahkmsg_def error_line_def)
qed

text \<open>In the first five minutes after booting, when \<open>jiffies\<close> has not reached \<open>2 ^ 32\<close>, the module shows
  a negative count.\<close>

theorem charmed_init_negative:
  assumes "2147483648 \<le> jiffies" and "jiffies < 4294967296"
  shows "snd (charmed_init jiffies) ! 1 = ''jiffies = -'' @ show_nat (nat (4294967296 - jiffies)) @ ''.'' @ [CHR 0x0A]"
proof -
  have "(jiffies + 2147483648) mod 4294967296 = (jiffies - 2147483648) mod 4294967296"
    by (simp add: mod_eq_dvd_iff)
  also have "\<dots> = jiffies - 2147483648" using assms by (intro mod_pos_pos_trivial) auto
  finally have "wrap32 jiffies = jiffies - 4294967296" by (simp add: wrap32_def)
  then show ?thesis using assms by (simp add: charmed_init_def show_int_def)
qed

end
