(* ===== verification/SmallPrograms.thy ===== *)
theory SmallPrograms
  imports Timespec
begin

text \<open>
  The small workloads: \<open>sing.c\<close>, \<open>getres.c\<close>, \<open>do_nothing.c\<close>, \<open>printline.c\<close>, \<open>myalloc.c\<close> and \<open>workload.c\<close>
  of studio11. Each \<open>printf\<close> is one text.
\<close>

abbreviation (input) newline :: string where
  "newline \<equiv> [CHR 0x0A]"

section \<open>Printing\<close>

text \<open>\<open>sing.c\<close>: the loop over the verses, with the exit code.\<close>

definition sing_verse :: "string list" where
  "sing_verse =
    [''The Road goes ever on and on'' @ newline,
     ''Down from the door where it began.'' @ newline,
     ''Now far ahead the Road has gone,'' @ newline,
     ''And I must follow, if I can,'' @ newline,
     ''Pursuing it with eager feet,'' @ newline,
     ''Until it joins some larger way,'' @ newline,
     ''Where many paths and errands meet.'' @ newline,
     ''And whither then? I cannot say.'' @ newline,
     ''-Bilbo, The Lord of the Rings'' @ newline]"

function sing_loop :: "int \<Rightarrow> int \<Rightarrow> string list" where
  "sing_loop i iterations = (if i < iterations then sing_verse @ sing_loop (i + 1) iterations else [])"
  by pat_completeness auto
termination by (relation "measure (\<lambda>(i, iterations). nat (iterations - i))") auto

declare sing_loop.simps [simp del]

definition sing_main :: "string list \<Rightarrow> int \<times> string list" where
  "sing_main argv =
     (if length argv \<noteq> 2 then (0, [''Usage: ./sing <number of verses>'' @ newline])
      else (0, sing_loop 0 (atoi (argv ! 1))))"

text \<open>\<open>getres.c\<close>: two resolutions, \<open>%5ld\<close>; a failing \<open>clock_getres\<close> would leave the block as it was.\<close>

definition getres_line :: "string \<Rightarrow> timespec \<Rightarrow> string" where
  "getres_line clock t =
     clock @ '': Time sec = '' @ fmt_d 5 (tv_sec t) @ '' '' @ [CHR 0x09] @ '' nsec = '' @ fmt_d 5 (tv_nsec t) @ newline"

definition getres_main :: "timespec option \<Rightarrow> timespec option \<Rightarrow> timespec \<Rightarrow> timespec \<Rightarrow> int \<times> string list" where
  "getres_main monotonic coarse strMyTspec strMyTspec2 =
     (0, [getres_line ''MONOTONIC       '' (case monotonic of None \<Rightarrow> strMyTspec | Some t \<Rightarrow> t),
          getres_line ''MONOTONIC COARSE'' (case coarse of None \<Rightarrow> strMyTspec2 | Some t \<Rightarrow> t)])"

definition do_nothing_main :: "int \<times> string list" where
  "do_nothing_main = (0, [])"

definition printline_main :: "int \<times> string list" where
  "printline_main = (0, [''Hello World!'' @ newline])"

section \<open>Ten blocks\<close>

text \<open>
  \<open>myalloc.c\<close>. The heap is the set of blocks in use. \<open>malloc\<close> gives \<open>None\<close> or a block that is not in use;
  which one is the parameter \<open>pick\<close>. \<open>free\<close> of \<open>NULL\<close> does nothing; that of a block not in use is an error.
\<close>

definition BUFFER_LEN :: nat where
  "BUFFER_LEN = 1000000"

definition heap_malloc :: "(nat \<Rightarrow> nat set \<Rightarrow> nat option) \<Rightarrow> nat \<Rightarrow> nat set \<Rightarrow> nat option \<times> nat set" where
  "heap_malloc pick bytes heap =
     (case pick bytes heap of None \<Rightarrow> (None, heap) | Some b \<Rightarrow> (Some b, insert b heap))"

definition heap_free :: "nat option \<Rightarrow> nat set \<Rightarrow> nat set option" where
  "heap_free p heap =
     (case p of None \<Rightarrow> Some heap | Some b \<Rightarrow> if b \<in> heap then Some (heap - {b}) else None)"

definition myalloc_allocs :: "(nat \<Rightarrow> nat set \<Rightarrow> nat option) \<Rightarrow> nat option list \<times> nat set \<Rightarrow> (nat option list \<times> nat set) option" where
  "myalloc_allocs pick =
     for_up 0 10 (\<lambda>s32i (pcTemp, heap).
       case heap_malloc pick BUFFER_LEN heap of (p, heap') \<Rightarrow> Some (pcTemp[s32i := p], heap'))"

definition myalloc_frees :: "nat option list \<Rightarrow> nat set \<Rightarrow> nat set option" where
  "myalloc_frees pcTemp = for_up 0 10 (\<lambda>s32i. heap_free (pcTemp ! s32i))"

definition myalloc_main :: "(nat \<Rightarrow> nat set \<Rightarrow> nat option) \<Rightarrow> nat set \<Rightarrow> (int \<times> nat set) option" where
  "myalloc_main pick heap =
     (case myalloc_allocs pick (replicate 10 None, heap) of
        None \<Rightarrow> None
      | Some (pcTemp, heap') \<Rightarrow> map_option (\<lambda>h. (0, h)) (myalloc_frees pcTemp heap'))"

section \<open>The workload of studio11\<close>

definition WORKLOAD_ITERS :: int where
  "WORKLOAD_ITERS = 500000000"

function workload_loop :: "int \<Rightarrow> int" where
  "workload_loop index = (if index < WORKLOAD_ITERS then workload_loop (wrap32 (index + 1)) else index)"
  by pat_completeness auto
termination
proof (relation "measure (\<lambda>index. nat (WORKLOAD_ITERS - index))")
  fix index assume i: "index < WORKLOAD_ITERS"
  have "index < wrap32 (index + 1)"
  proof (cases "INT_MIN \<le> index")
    case True
    then show ?thesis using i by (simp add: WORKLOAD_ITERS_def wrap32_id)
  next
    case False
    then show ?thesis using wrap32_is_int32 [of "index + 1"] by (simp add: is_int32_def)
  qed
  then show "(wrap32 (index + 1), index) \<in> measure (\<lambda>index. nat (WORKLOAD_ITERS - index))" using i by simp
qed simp

declare workload_loop.simps [simp del]

text \<open>The threads of the team finish in the order \<open>order\<close>, thread \<open>i\<close> on processor \<open>cpu i\<close>.\<close>

definition workload_main :: "nat list \<Rightarrow> (nat \<Rightarrow> int) \<Rightarrow> (int \<times> int) list \<times> string list" where
  "workload_main order cpu =
     (map (\<lambda>i. (cpu i, workload_loop 0)) order,
      map (\<lambda>i. ''CPU '' @ show_int (cpu i) @ '' finished!'' @ newline) order)"

section \<open>Facts\<close>

text \<open>The number of verses is that of the argument, none for a negative one.\<close>

lemma sing_loop_verses: "sing_loop i n = concat (replicate (nat (n - i)) sing_verse)"
proof (induction i n rule: sing_loop.induct)
  case (1 i n)
  show ?case
  proof (cases "i < n")
    case True
    then have "nat (n - i) = Suc (nat (n - (i + 1)))" by simp
    then show ?thesis using True 1 by (subst sing_loop.simps) simp
  qed (subst sing_loop.simps, simp)
qed

theorem sing_main_lines:
  "length argv = 2 \<Longrightarrow> length (snd (sing_main argv)) = 9 * nat (atoi (argv ! 1))"
  by (simp add: sing_main_def sing_loop_verses length_concat sum_list_replicate sing_verse_def)

text \<open>The index is never beyond \<open>int\<close>, and ends at the bound.\<close>

lemma workload_loop_ends:
  "is_int32 index \<Longrightarrow> workload_loop index = max index WORKLOAD_ITERS"
proof (induction index rule: workload_loop.induct)
  case (1 index)
  show ?case
  proof (cases "index < WORKLOAD_ITERS")
    case True
    then have "wrap32 (index + 1) = index + 1" using 1(2) by (simp add: wrap32_id is_int32_def WORKLOAD_ITERS_def)
    then show ?thesis using 1(1) [OF True wrap32_is_int32] True by (subst workload_loop.simps) simp
  qed (subst workload_loop.simps, simp)
qed

theorem workload_main_counts:
  "list_all (\<lambda>(cpu, index). index = WORKLOAD_ITERS) (fst (workload_main order cpu)) \<and>
   length (snd (workload_main order cpu)) = length order"
  by (simp add: workload_main_def list_all_iff workload_loop_ends is_int32_def WORKLOAD_ITERS_def)

text \<open>The blocks of \<open>myalloc.c\<close>, after \<open>k\<close> allocations: different ones, added to those in use before.\<close>

definition blocks :: "nat option list \<Rightarrow> nat list" where
  "blocks ps = map the (filter (\<lambda>p. p \<noteq> None) ps)"

definition fresh_blocks :: "nat set \<Rightarrow> nat option list \<Rightarrow> nat set \<Rightarrow> bool" where
  "fresh_blocks heap0 ps heap \<longleftrightarrow> distinct (blocks ps) \<and> set (blocks ps) \<inter> heap0 = {} \<and> heap = heap0 \<union> set (blocks ps)"

lemma blocks_snoc: "blocks (ps @ [p]) = blocks ps @ (case p of None \<Rightarrow> [] | Some b \<Rightarrow> [b])"
  by (cases p) (simp_all add: blocks_def)

lemma blocks_Cons: "blocks (p # ps) = (case p of None \<Rightarrow> [] | Some b \<Rightarrow> [b]) @ blocks ps"
  by (cases p) (simp_all add: blocks_def)

lemma malloc_fresh:
  assumes "\<And>n h b. pick n h = Some b \<Longrightarrow> b \<notin> h" and "fresh_blocks heap0 ps heap"
    and "heap_malloc pick n heap = (p, heap')"
  shows "fresh_blocks heap0 (ps @ [p]) heap'"
proof (cases "pick n heap")
  case None
  then show ?thesis using assms(2,3) by (simp add: heap_malloc_def fresh_blocks_def blocks_snoc)
next
  case (Some b)
  then have "b \<notin> heap" by (rule assms(1))
  moreover have "p = Some b" "heap' = insert b heap" using Some assms(3) by (simp_all add: heap_malloc_def)
  ultimately show ?thesis using assms(2) by (auto simp: fresh_blocks_def blocks_snoc)
qed

lemma myalloc_allocs_fresh:
  assumes "\<And>n h b. pick n h = Some b \<Longrightarrow> b \<notin> h"
  shows "\<exists>ps heap'. myalloc_allocs pick (replicate 10 None, heap) = Some (ps, heap') \<and> length ps = 10 \<and> fresh_blocks heap ps heap'"
proof -
  let ?f = "\<lambda>s32i (pcTemp, heap). case heap_malloc pick BUFFER_LEN heap of (p, heap') \<Rightarrow> Some (pcTemp[s32i := p], heap')"
  let ?I = "\<lambda>k (ps, h). length ps = 10 \<and> fresh_blocks heap (take k ps) h"
  have "\<exists>t. each ?f [0..<10] (replicate 10 None, heap) = Some t \<and> ?I (length [0..<10]) t"
  proof (rule each_invariant)
    show "?I 0 (replicate 10 None, heap)" by (simp add: fresh_blocks_def blocks_def)
    fix k and t :: "nat option list \<times> nat set"
    assume k: "k < length [0..<10]" and t: "?I k t"
    obtain ps h where ps: "t = (ps, h)" by (cases t)
    obtain p h' where m: "heap_malloc pick BUFFER_LEN h = (p, h')" by (cases "heap_malloc pick BUFFER_LEN h")
    have "take (Suc k) (ps[k := p]) = take k ps @ [p]" using k t by (simp add: ps take_Suc_conv_app_nth)
    moreover have "fresh_blocks heap (take k ps @ [p]) h'" using t by (intro malloc_fresh [OF assms _ m]) (simp_all add: ps)
    ultimately show "\<exists>u. ?f ([0..<10] ! k) t = Some u \<and> ?I (Suc k) u" using k t by (simp add: ps m)
  qed
  then show ?thesis unfolding myalloc_allocs_def for_up_each by auto
qed

lemma frees_all:
  "fresh_blocks heap ps heap' \<Longrightarrow> each heap_free ps heap' = Some heap"
proof (induction ps arbitrary: heap')
  case Nil
  then show ?case by (simp add: fresh_blocks_def blocks_def)
next
  case (Cons p ps)
  show ?case
  proof (cases p)
    case None
    then show ?thesis using Cons by (simp add: heap_free_def fresh_blocks_def blocks_Cons)
  next
    case (Some b)
    then have "b \<in> heap'" and "fresh_blocks heap ps (heap' - {b})"
      using Cons.prems by (auto simp: fresh_blocks_def blocks_Cons)
    then show ?thesis using Cons.IH Some by (simp add: heap_free_def)
  qed
qed

section \<open>Property\<close>

text \<open>\<open>myalloc\<close> frees exactly the blocks it got, each once, whichever of its ten allocations fail: the heap
  is as before.\<close>

theorem myalloc_main_balanced:
  assumes "\<And>n h b. pick n h = Some b \<Longrightarrow> b \<notin> h"
  shows "myalloc_main pick heap = Some (0, heap)"
proof -
  obtain ps heap' where a: "myalloc_allocs pick (replicate 10 None, heap) = Some (ps, heap')" "length ps = 10"
    "fresh_blocks heap ps heap'" using myalloc_allocs_fresh [of pick heap] assms by blast
  have "map ((!) ps) [0..<10] = ps" using a(2) map_nth [of ps] by simp
  then have "myalloc_frees ps = each heap_free ps"
    unfolding myalloc_frees_def for_up_each by (metis (no_types) each_map)
  then show ?thesis using a frees_all [OF a(3)] by (simp add: myalloc_main_def)
qed

text \<open>A heap with room for three blocks, in which the other seven allocations fail.\<close>

theorem myalloc_main_balanced_witness:
  "myalloc_main (\<lambda>n h. find (\<lambda>b. b \<notin> h) [1, 2, 3]) {9} = Some (0, {9})"
  by (rule myalloc_main_balanced) (auto split: if_splits)

end
