(* ===== verification/Spec2Isabelle.thy ===== *)
theory Spec2Isabelle
  imports LockSpec SpinLock SleepLock SpinBarrier SleepBarrier Lab02Program QuickSort TeamMM PeriodTask LedModule KernelRace SharedMemory Sockets Sysfs KernelMonitor ProcessTree Pipes Signals SysCalls SmallPrograms
begin

text \<open>
  A verification development for the programs of a course on operating systems (CSE 522S): user
  programs and kernel modules in C, each in its own directory under \<open>src/\<close>. The programs are
  independent of each other; what they share is the kinds of things they do, and that is how the
  theories are laid out.

  \<^bold>\<open>Shared theories\<close>

  \<^item> \<open>Prelude\<close>: C integers at 32 bits (\<open>wrap32\<close>, \<open>wrapu32\<close>), the blocks of \<open>malloc\<close> (\<open>mem_block\<close>), schedules (\<open>sched\<close>, \<open>run\<close>) and reachable
    states (\<open>reach\<close>), counting over threads (\<open>tally\<close>, \<open>region\<close>), loops that may fail (\<open>each\<close>, \<open>for_up\<close>), and the
    interfaces of the concurrent components: \<open>invariant_system\<close>, \<open>mutex_system\<close>, \<open>progress_system\<close> and
    \<open>refinement_system\<close>.
  \<^item> \<open>LockSpec\<close>: the abstract lock and the abstract barrier, as machines over their events, and the
    locale \<open>lock_impl\<close> through which both locks are shown to refine the abstract one.
  \<^item> \<open>CStrings\<close>: \<open>atoi\<close>, \<open>%d\<close> of \<open>scanf\<close> and \<open>printf\<close>, and the locale \<open>number_reader\<close> of programs that pass
    numbers as text.

  \<^bold>\<open>Concurrent programs: one step function per thread, every schedule covered\<close>

  \<^item> \<open>SpinLock\<close> and \<open>SleepLock\<close> (\<open>studio11/spinlock.c\<close>, \<open>sleeplock.c\<close>): mutual exclusion, the range of the
    futex word, progress, the spurious failure of the weak exchange in \<open>unlock\<close>, the schedule under
    which the sleeping lock hangs. Both refine the abstract lock (property below).
  \<^item> \<open>SpinBarrier\<close> and \<open>SleepBarrier\<close> (\<open>lab02/src/main.c\<close>, \<open>CUSTOM_SPIN_BARRIER\<close> and \<open>CUSTOM_BARRIER\<close>): nobody
    passes early, reuse without deadlock, no lost wake-up; both refine the abstract barrier.
  \<^item> \<open>Lab02Config\<close>, \<open>Lab02Worker\<close>, \<open>Lab02Builds\<close>, \<open>Lab02Main\<close>, \<open>Lab02Process\<close>, \<open>Lab02Program\<close> (\<open>lab02/src\<close>): both parsers and the error table,
    the worker threads behind the barrier of POSIX, the same threads composed with either custom
    barrier through the locale \<open>barrier_build\<close> (each run is a run of the default build once the actions
    inside the barrier are erased), and \<open>main\<close> of every build, which hands the parsed record to the
    threads it creates. \<open>Lab02Process\<close> lets \<open>main\<close> and its threads run together, from the first creation to
    the last \<open>free\<close>, for any team of threads (locale \<open>thread_team\<close>, instantiated with the three builds):
    nothing is released under a thread that uses it. \<open>prof_arg_ok\<close> is what the parsers promise and the workers need. The whole
    program, from the command line to the return of \<open>main\<close>, is the subject of \<open>Lab02Program\<close>.
  \<^item> \<open>KernelRace\<close> (\<open>studio10\<close>), \<open>KernelMonitor\<close> (\<open>lab01\<close>), \<open>LedModule\<close> with \<open>Gpio\<close> (\<open>GPIO_Prj\<close>): kernel modules;
    counters under and without protection (with the exact range of the unprotected result), a timer
    that wakes kernel threads, a timer that toggles a pin by the wrapping clock of \<open>jiffies\<close>; loading and unloading
    are part of the step functions.
  \<^item> \<open>TeamMM\<close> (\<open>studio03/parallel_dense_mm2.c\<close>): a team whose repetitions race on the matrix and the clock
    readings; every element is a sum of products that have been computed, each taken no more often than it has been
    computed (\<open>sum_of\<close>), for any floating-point unit.
  \<^item> \<open>SharedMemory\<close> (\<open>studio15\<close>, for every size of the array and both builds), \<open>Pipes\<close> (\<open>studio13\<close>), \<open>Sockets\<close>
    (\<open>studio14\<close>): two processes each. \<open>SharedMemory\<close> starts with the calls that create, size and map the object, so
    that a follower which comes too early fails to open it or is killed by SIGBUS.
  \<^item> \<open>Signals\<close> and \<open>PeriodTask\<close> (\<open>studio12\<close>; \<open>studio08/period_task.c\<close> is the same program): a main program and
    its signal handler.

  \<^bold>\<open>Sequential programs\<close>

  \<^item> \<open>QuickSort\<close> (\<open>studio03/test_programs/sort.c\<close>), \<open>DenseMM\<close> (\<open>dense_mm.c\<close>, \<open>parallel_dense_mm.c\<close>,
    \<open>dense_mm_sig.c\<close>), \<open>Timespec\<close> and \<open>TimedMM\<close> (\<open>getclockgettime.c\<close>, \<open>parallel_dense_mm2.c\<close>), \<open>ProcessTree\<close>
    (\<open>studio07/fork_n_tree\<close>, the busy loops of \<open>studio08\<close> and \<open>studio09\<close>), \<open>Sysfs\<close> (\<open>studio07/kobj\<close> and
    \<open>family_reader\<close>), \<open>SysCalls\<close> (\<open>studio02\<close> and the module of \<open>studio05\<close>), \<open>SmallPrograms\<close> (\<open>sing.c\<close>, \<open>getres.c\<close>,
    the programs of \<open>studio04\<close>, \<open>studio11/workload.c\<close>).

  \<^bold>\<open>How the code is represented\<close>

  Globals and the locals that live across an action are the fields of a record; a program counter
  per thread names the source line it is at; an access to a shared variable is one action; what
  the code does not determine (which thread runs, a spurious wake-up, a failing call, what
  \<open>rand\<close> gives) is the schedule or a parameter. A call that fails, an exit code, an access out of
  bounds and undefined arithmetic are values of an option or sum type. Loops are structural or come
  with a measure, so that the definitions are total; the one loop that may not end on its own, the
  walk along the parents in \<open>family_reader\<close>, is a partial function whose termination is
  characterised exactly. Endless loops of servers and of the FIFO reader are modelled for any number of
  rounds; no other bound or fuel is used. Names in the theories are those of the source where possible.

  \<^bold>\<open>What is assumed\<close>

  Memory is sequentially consistent (the code relies on full barriers and volatile accesses on the
  Raspberry Pi). \<open>int\<close> has 32 bits; \<open>long\<close> has 32 bits on the Pi, its width is a parameter where it
  matters, and so is that of \<open>size_t\<close> where the size of an array may wrap around (\<open>mem_block\<close>); which
  allocations succeed is a parameter. Futex, pthread, kthread, timer, pipe and socket calls have their
  documented behaviour, stated at the head of the theory that uses them; \<open>kstrtol\<close>, \<open>kstrtoint\<close>,
  \<open>find_vpid\<close>, the bus of the GPIO block and \<open>msecs_to_jiffies\<close> are parameters. The creation of kernel threads succeeds
  in the properties of \<open>KernelMonitor\<close>; what happens when it does not is lemma \<open>create_failure\<close> there. In
  \<open>SharedMemory\<close> \<open>malloc\<close>, \<open>ftruncate\<close>, \<open>mmap\<close> and the \<open>shm_open\<close> of the leader succeed. Floating point is any
  structure with the operations in \<open>DenseMM\<close> and \<open>TeamMM\<close>; rational numbers stand for doubles in \<open>QuickSort\<close>, whose
  arithmetic on them is exact, and in the lemma \<open>mm2_accumulates\<close> of \<open>TimedMM\<close>.

  \<^bold>\<open>Not modelled\<close>

  The file the kernel build generates (\<open>kobject-example.mod.c\<close>) and the copies of modelled files
  (\<open>studio07/*.c\<close>, \<open>studio04/test_programs\<close>, \<open>studio08/period_task.c\<close>, the headers of \<open>studio13\<close>, \<open>lab02\<close>'s backup),
  the system call 391 of the course's kernel, whose code is not in the repository, log texts of the
  kernel modules other than those of \<open>Sysfs\<close>, \<open>SysCalls\<close> and \<open>KernelRace\<close> (the counter
  modules print one more line at loading and one at the end of each thread), and the lengths of time
  intervals. In \<open>TeamMM\<close> a \<open>timespec\<close> is read and written as a whole.
\<close>

section \<open>Properties across components\<close>

text \<open>C1: both locks of \<open>studio11\<close> implement the same abstract lock: in every run from the initial
  state, the successful exchanges of the spin lock and the transitions of the futex word of the
  sleeping lock are a legal sequence of acquisitions (only when free) and releases (only by the holder).\<close>

theorem studio11_locks_refine_lock:
  assumes "\<forall>(i, c) \<in> set es. i < n" and "spin_init s" and "run (spin_next weak) es s = Some s'"
    and "\<forall>(i, c) \<in> set fs. i < n" and "sleep_init n u" and "run sleep_next fs u = Some u'"
  shows "each lock_step (events (lock_events spin_owns spc) (spin_next weak) es s) None
      = Some (holder_of n spin_owns (spc s'))
    \<and> each lock_step (events (lock_events sleep_owns slpc) sleep_next fs u) None
      = Some (holder_of n sleep_owns (slpc u'))
    \<and> alternates (events (lock_events spin_owns spc) (spin_next weak) es s)
    \<and> alternates (events (lock_events sleep_owns slpc) sleep_next fs u)"
proof -
  have s: "region spin_owns (spc s) = {}" using assms(2) by (simp add: spin_init_def)
  have u: "region sleep_owns (slpc u) = {}" using assms(5) by (simp add: sleep_init_def)
  note sp = spin_spec.run_alternates [OF spin_inv_init [OF assms(2)] s assms(1,3)]
  note sl = slp_spec.run_alternates [OF sleep_inv_init [OF assms(5)] u assms(4,6)]
  show ?thesis using sp sl by blast
qed

theorem studio11_locks_refine_lock_witness:
  "let s = \<lparr>gs32curlock = 0, s32unlock = (\<lambda>_. 0), spc = (\<lambda>_. SLock), exit_code = None\<rparr>;
       u = \<lparr>curlock = 1, slpc = (\<lambda>_. LSub)\<rparr>;
       E = events (lock_events spin_owns spc) (spin_next True) [(1, True), (1, False), (0, False), (1, False)] s;
       F = events (lock_events sleep_owns slpc) sleep_next [(0, False), (1, False), (1, False)] u
   in E = [Acquire 0] \<and> each lock_step E None = Some (Some 0)
      \<and> F = [Acquire 0] \<and> each lock_step F None = Some (Some 0) \<and> alternates E \<and> alternates F"
proof -
  let ?s = "\<lparr>gs32curlock = 0, s32unlock = (\<lambda>_. 0), spc = (\<lambda>_. SLock), exit_code = None\<rparr>"
  let ?u = "\<lparr>curlock = 1, slpc = (\<lambda>_. LSub)\<rparr>"
  let ?es = "[(1, True), (1, False), (0, False), (1, False)] :: (nat \<times> bool) list"
  let ?fs = "[(0, False), (1, False), (1, False)] :: (nat \<times> bool) list"
  let ?E = "events (lock_events spin_owns spc) (spin_next True) ?es ?s"
  let ?F = "events (lock_events sleep_owns slpc) sleep_next ?fs ?u"
  obtain s' u' where r: "run (spin_next True) ?es ?s = Some s'" "run sleep_next ?fs ?u = Some u'"
    by (simp add: spin_defs sleep_next_def sleep_action_defs wrap32_id Let_def)
  have "spin_init ?s" "sleep_init 2 ?u" "\<forall>(i, c) \<in> set ?es. i < 2" "\<forall>(i, c) \<in> set ?fs. i < 2"
    by (simp_all add: spin_init_def sleep_init_def)
  note ref = studio11_locks_refine_lock [OF this(3,1) r(1) this(4,2) r(2)]
  have "?E = [Acquire 0]" "?F = [Acquire 0]"
    by (simp_all add: spin_defs sleep_next_def sleep_action_defs lock_events_def wrap32_id Let_def)
  moreover have "each lock_step [Acquire 0] None = Some (Some 0)" by simp
  ultimately show ?thesis using ref by (simp add: Let_def)
qed

text \<open>C5: both barriers of \<open>lab02\<close> implement the same abstract barrier: in every run of the spinning
  barrier (called again and again) and of the sleeping barrier (passed once), each departure for the
  \<open>k\<close>-th time happens after all \<open>n\<close> threads have arrived \<open>k\<close> times.\<close>

theorem lab02_barriers_refine_barrier:
  assumes "\<forall>(i, c) \<in> set es. i < n" and "bar_init n s" and "run (bar_next n) es s = Some s'"
    and "\<forall>(i, c) \<in> set fs. i < n" and "cond_init n u" and "run cond_next fs u = Some u'"
  shows "each (barrier_step n) (events bar_events (bar_next n) es s) no_calls = Some (entered s', left s')
    \<and> each (barrier_step n) (events cond_events cond_next fs u) no_calls = Some (cond_calls u')"
proof -
  have "bar_inv n s" using bar_inv_init [OF assms(2)] by (auto simp: bar_inv_def)
  from bar_spec.run_refines [OF this assms(1,3)] assms(2)
  have "each (barrier_step n) (events bar_events (bar_next n) es s) no_calls = Some (entered s', left s')"
    by (simp add: bar_init_def)
  moreover from cond_spec.run_refines [OF cond_inv_init [OF assms(5)] assms(4,6)] assms(5)
  have "each (barrier_step n) (events cond_events cond_next fs u) no_calls = Some (cond_calls u')"
    by (simp add: cond_init_def cond_calls_def)
  ultimately show ?thesis by blast
qed

theorem lab02_barriers_refine_barrier_witness:
  "\<exists>E F. E = [Arrive 0, Arrive 1, Depart 1, Depart 0]
     \<and> each (barrier_step 2) E no_calls = Some ((\<lambda>_. 0)(0 := 1, 1 := 1), (\<lambda>_. 0)(1 := 1, 0 := 1))
     \<and> F = [Arrive 0, Arrive 1, Depart 1] \<and> each (barrier_step 2) F no_calls \<noteq> None"
proof -
  let ?es = "[(0, ()), (0, ()), (1, ()), (1, ()), (1, ()), (1, ()), (1, ()), (0, ())]"
  let ?fs = "map (\<lambda>i. (i, False)) [0, 0, 0, 0, 0, 1, 1, 1, 1, 1 :: nat]"
  let ?u = "\<lparr>gs32remain = 2, gmutex_barrier = None, cpc = (\<lambda>_. CLock)\<rparr>"
  let ?E = "events bar_events (bar_next 2) ?es bar_start"
  let ?F = "events cond_events cond_next ?fs ?u"
  obtain s' where s: "run (bar_next 2) ?es bar_start = Some s'"
    and c: "entered s' = (\<lambda>_. 0)(0 := 1, 1 := 1)" "left s' = (\<lambda>_. 0)(1 := 1, 0 := 1)"
    by (simp add: bar_run_defs)
  obtain u' where u: "run cond_next ?fs ?u = Some u'"
    by (simp add: cond_next_def cond_defs wrap32_id)
  have "bar_init 2 bar_start" "cond_init 2 ?u" by (simp_all add: bar_start_init cond_init_def)
  then have "each (barrier_step 2) ?E no_calls = Some (entered s', left s')"
    and "each (barrier_step 2) ?F no_calls = Some (cond_calls u')"
    using lab02_barriers_refine_barrier [of ?es 2 bar_start s' ?fs ?u u'] s u by simp_all
  moreover have "?E = [Arrive 0, Arrive 1, Depart 1, Depart 0]"
    by (simp add: bar_events_def bar_run_defs)
  moreover have "?F = [Arrive 0, Arrive 1, Depart 1]"
    by (simp add: cond_events_def cond_next_def cond_defs wrap32_id)
  ultimately show ?thesis using c by simp
qed

end
